(* ===== verification/Prelude.thy ===== *)
theory Prelude
  imports Main "HOL-Library.Word" "HOL-Library.RBT" "HOL-Library.List_Lexorder"
    "HOL-Library.Product_Lexorder"
begin

text \<open>
  What every component of the development shares: the machine integers and byte strings of
  the Rust sources, Rust's \<open>Result\<close> with the panic of a checked arithmetic overflow as a
  third outcome, big-endian encodings, sums over database tables, and the generic locales
  \<open>run_invariant\<close> and \<open>codec\<close> that the components interpret.

  A panic is a value because the release profile of \<^verbatim>\<open>src/Cargo.toml\<close> sets
  \<^verbatim>\<open>overflow-checks = true\<close>: an integer that overflows ends the task instead of wrapping.
\<close>

section \<open>Machine integers and bytes\<close>

type_synonym u8 = "8 word"
type_synonym u16 = "16 word"
type_synonym u32 = "32 word"
type_synonym u64 = "64 word"
type_synonym bytes = "u8 list"

named_theorems be_simps \<open>big-endian encodings and their lengths\<close>
named_theorems table_simps \<open>lookups in and sums over tables\<close>

section \<open>Results\<close>

datatype ('a, 'e) res = Ok 'a | Err 'e | Panic

primrec and_then :: "('a, 'e) res \<Rightarrow> ('a \<Rightarrow> ('b, 'e) res) \<Rightarrow> ('b, 'e) res" where
  "and_then (Ok x) f = f x"
| "and_then (Err e) f = Err e"
| "and_then Panic f = Panic"

definition ok_or :: "'a option \<Rightarrow> 'e \<Rightarrow> ('a, 'e) res" where
  "ok_or x e = (case x of None \<Rightarrow> Err e | Some v \<Rightarrow> Ok v)"

definition is_ok :: "('a, 'e) res \<Rightarrow> bool" where
  "is_ok r = (case r of Ok _ \<Rightarrow> True | _ \<Rightarrow> False)"

lemma and_then_cong [fundef_cong]:
  assumes "r = r'" and "\<And>x. r' = Ok x \<Longrightarrow> f x = g x"
  shows "and_then r f = and_then r' g"
  using assms by (cases r') auto

lemma and_then_Ok_iff [simp]:
  "and_then r f = Ok y \<longleftrightarrow> (\<exists>x. r = Ok x \<and> f x = Ok y)"
  by (cases r) auto

lemma and_then_Panic_iff [simp]:
  "and_then r f = Panic \<longleftrightarrow> r = Panic \<or> (\<exists>x. r = Ok x \<and> f x = Panic)"
  by (cases r) auto

lemma ok_or_simps [simp]:
  "ok_or None e = Err e" "ok_or (Some v) e = Ok v"
  by (simp_all add: ok_or_def)

lemma ok_or_Ok_iff [simp]: "ok_or x e = Ok v \<longleftrightarrow> x = Some v"
  by (cases x) auto

lemma ok_or_not_Panic [simp]: "ok_or x e \<noteq> Panic"
  by (cases x) auto

lemma is_ok_simps [simp]:
  "is_ok (Ok x)" "\<not> is_ok (Err e)" "\<not> is_ok Panic"
  by (simp_all add: is_ok_def)

lemma is_ok_iff: "is_ok r \<longleftrightarrow> (\<exists>x. r = Ok x)"
  by (cases r) auto

text \<open>A list of checks run in order, as a \<open>for\<close> loop around a fallible call with \<open>?\<close>.\<close>

fun try_for_each :: "('a \<Rightarrow> (unit, 'e) res) \<Rightarrow> 'a list \<Rightarrow> (unit, 'e) res" where
  "try_for_each f [] = Ok ()"
| "try_for_each f (x # xs) = and_then (f x) (\<lambda>_. try_for_each f xs)"

lemma try_for_each_Ok_iff [simp]:
  "try_for_each f xs = Ok () \<longleftrightarrow> (\<forall>x \<in> set xs. f x = Ok ())"
  by (induction xs) auto

lemma res_unit_Ok [simp]: "(\<exists>x::unit. r = Ok x \<and> P x) \<longleftrightarrow> r = Ok () \<and> P ()"
  by (metis (full_types) old.unit.exhaust)

fun try_map :: "('a \<Rightarrow> ('b, 'e) res) \<Rightarrow> 'a list \<Rightarrow> ('b list, 'e) res" where
  "try_map f [] = Ok []"
| "try_map f (x # xs) = and_then (f x) (\<lambda>y. and_then (try_map f xs) (\<lambda>ys. Ok (y # ys)))"

lemma try_map_map: "(\<And>x. x \<in> set xs \<Longrightarrow> f x = Ok (g x)) \<Longrightarrow> try_map f xs = Ok (map g xs)"
  by (induction xs) auto

lemma try_map_Ok_all2: "try_map f xs = Ok ys \<longleftrightarrow> list_all2 (\<lambda>x y. f x = Ok y) xs ys"
proof (induction xs arbitrary: ys)
  case Nil
  then show ?case by auto
next
  case (Cons x xs)
  then show ?case by (auto simp: list_all2_Cons1)
qed

section \<open>Checked arithmetic\<close>

text \<open>
  Counters that are only counted are \<open>nat\<close>, with the bound of their Rust type checked at
  every addition the source leaves unguarded.
\<close>

definition u64_max :: nat where "u64_max = 2 ^ 64 - 1"

definition add64 :: "nat \<Rightarrow> nat \<Rightarrow> nat option" where
  "add64 a b = (if a + b \<le> u64_max then Some (a + b) else None)"

definition sat_add64 :: "nat \<Rightarrow> nat \<Rightarrow> nat" where
  "sat_add64 a b = min (a + b) u64_max"

lemma add64_Some_iff [simp]: "add64 a b = Some c \<longleftrightarrow> c = a + b \<and> a + b \<le> u64_max"
  by (auto simp: add64_def)

lemma sat_add64_le [simp]: "sat_add64 a b \<le> u64_max"
  by (simp add: sat_add64_def)

lemma add64_None_iff [simp]: "add64 a b = None \<longleftrightarrow> u64_max < a + b"
  by (auto simp: add64_def)

text \<open>A number as Rust prints it.\<close>

fun decimal :: "nat \<Rightarrow> string" where
  "decimal n = (if n < 10 then [char_of (48 + n)] else decimal (n div 10) @ [char_of (48 + n mod 10)])"

declare decimal.simps [simp del]

section \<open>Big-endian encodings\<close>

fun be_bytes :: "nat \<Rightarrow> nat \<Rightarrow> bytes" where
  "be_bytes 0 v = []"
| "be_bytes (Suc k) v = of_nat (v div 256 ^ k) # be_bytes k v"

primrec from_be :: "bytes \<Rightarrow> nat" where
  "from_be [] = 0"
| "from_be (b # bs) = unat b * 256 ^ length bs + from_be bs"

definition be16 :: "u16 \<Rightarrow> bytes" where "be16 w = be_bytes 2 (unat w)"
definition be32 :: "u32 \<Rightarrow> bytes" where "be32 w = be_bytes 4 (unat w)"
definition be64 :: "u64 \<Rightarrow> bytes" where "be64 w = be_bytes 8 (unat w)"

definition from_be16 :: "bytes \<Rightarrow> u16" where "from_be16 bs = of_nat (from_be bs)"
definition from_be32 :: "bytes \<Rightarrow> u32" where "from_be32 bs = of_nat (from_be bs)"
definition from_be64 :: "bytes \<Rightarrow> u64" where "from_be64 bs = of_nat (from_be bs)"

lemma length_be_bytes [be_simps, simp]: "length (be_bytes k v) = k"
  by (induction k) auto

lemma unat_of_nat_u8: "unat (of_nat n :: u8) = n mod 256"
  by (simp add: unat_of_nat)

lemma from_be_be_bytes: "from_be (be_bytes k v) = v mod 256 ^ k"
proof (induction k)
  case 0
  then show ?case by simp
next
  case (Suc k)
  have "v mod (256 ^ k * 256) = 256 ^ k * (v div 256 ^ k mod 256) + v mod 256 ^ k"
    by (rule mod_mult2_eq)
  with Suc show ?case by (simp add: unat_of_nat_u8 mult.commute)
qed

lemma unat_less_2p: "unat (w :: 'a::len word) < 2 ^ LENGTH('a)"
  by (rule unsigned_less)

lemma unat_plus_one: "(w :: 'a::len word) \<noteq> - 1 \<Longrightarrow> unat (w + 1) = Suc (unat w)"
  by (metis Suc_eq_plus1 add_eq_0_iff unat_1 unatSuc add.commute)

lemma unat_max: "unat (- 1 :: 'a::len word) = 2 ^ LENGTH('a) - 1"
  by (simp add: unsigned_minus_1_eq_mask mask_eq_exp_minus_1)

lemma unat_u8_less: "unat (b :: u8) < 256"
  using unat_less_2p [of b] by simp

lemma from_be_less: "from_be bs < 256 ^ length bs"
proof (induction bs)
  case Nil
  then show ?case by simp
next
  case (Cons b bs)
  have "unat b * 256 ^ length bs + from_be bs < unat b * 256 ^ length bs + 256 ^ length bs"
    using Cons by simp
  also have "\<dots> = (unat b + 1) * 256 ^ length bs" by (simp add: algebra_simps)
  also have "\<dots> \<le> 256 * 256 ^ length bs"
    using unat_u8_less [of b] by (intro mult_right_mono) auto
  finally show ?case by simp
qed

lemma be_bytes_mod: "be_bytes k (v mod 256 ^ k) = be_bytes k v"
proof -
  have "be_bytes j (v mod 256 ^ k) = be_bytes j v" if "j \<le> k" for j
    using that
  proof (induction j)
    case 0
    then show ?case by simp
  next
    case (Suc j)
    have "(256::nat) ^ k = 256 ^ j * 256 ^ (k - j)"
      using Suc.prems by (simp flip: power_add)
    then have "v mod 256 ^ k div 256 ^ j = v div 256 ^ j mod 256 ^ (k - j)"
      by (simp add: mod_mult2_eq)
    moreover have "(256::nat) dvd 256 ^ (k - j)"
      using Suc.prems by (intro dvd_power) auto
    ultimately have "v mod 256 ^ k div 256 ^ j mod 256 = v div 256 ^ j mod 256"
      by (simp add: mod_mod_cancel)
    then have "(of_nat (v mod 256 ^ k div 256 ^ j) :: u8) = of_nat (v div 256 ^ j)"
      by (metis unat_of_nat_u8 word_unat_eq_iff)
    with Suc show ?case by simp
  qed
  then show ?thesis by simp
qed

lemma be_bytes_from_be: "be_bytes (length bs) (from_be bs) = bs"
proof (induction bs)
  case Nil
  then show ?case by simp
next
  case (Cons b bs)
  let ?m = "(256::nat) ^ length bs"
  have lt: "from_be bs < ?m" by (rule from_be_less)
  then have "(unat b * ?m + from_be bs) div ?m = unat b"
    by simp
  moreover have "be_bytes (length bs) (unat b * ?m + from_be bs) = bs"
    using Cons lt be_bytes_mod [of "length bs" "unat b * ?m + from_be bs"] by simp
  ultimately show ?case by simp
qed

lemma from_be_inj: "length xs = length ys \<Longrightarrow> from_be xs = from_be ys \<Longrightarrow> xs = ys"
  by (metis be_bytes_from_be)

lemma length_be [be_simps, simp]:
  "length (be16 a) = 2" "length (be32 b) = 4" "length (be64 c) = 8"
  by (simp_all add: be16_def be32_def be64_def)

lemma from_be_be [be_simps, simp]:
  "from_be16 (be16 a) = a" "from_be32 (be32 b) = b" "from_be64 (be64 c) = c"
proof -
  have "unat a < 256 ^ 2" "unat b < 256 ^ 4" "unat c < 256 ^ 8"
    using unat_less_2p [of a] unat_less_2p [of b] unat_less_2p [of c] by simp_all
  then show "from_be16 (be16 a) = a" "from_be32 (be32 b) = b" "from_be64 (be64 c) = c"
    by (simp_all add: from_be16_def from_be32_def from_be64_def be16_def be32_def be64_def
        from_be_be_bytes)
qed

lemma be_inj [be_simps, simp]:
  "be16 a = be16 a' \<longleftrightarrow> a = a'" "be32 b = be32 b' \<longleftrightarrow> b = b'" "be64 c = be64 c' \<longleftrightarrow> c = c'"
  by (metis from_be_be(1)) (metis from_be_be(2), metis from_be_be(3))

section \<open>Fixed-width fields\<close>

text \<open>Concatenations split at a field of known width, which is how a byte layout is injective.\<close>

lemma append_eq_width:
  "length a = length b \<Longrightarrow> a @ x = b @ y \<longleftrightarrow> a = b \<and> x = y"
  by auto

lemma be_append_inj [be_simps]:
  "be16 a @ x = be16 a' @ x' \<longleftrightarrow> a = a' \<and> x = x'"
  "be32 b @ x = be32 b' @ x' \<longleftrightarrow> b = b' \<and> x = x'"
  "be64 c @ x = be64 c' @ x' \<longleftrightarrow> c = c' \<and> x = x'"
  by (simp_all add: append_eq_width)

lemma concat_map_width_inj:
  assumes "\<And>x. x \<in> set xs \<union> set ys \<Longrightarrow> length (f x) = w" and "0 < w"
    and "concat (map f xs) = concat (map f ys)"
  shows "map f xs = map f ys"
  using assms
proof (induction xs arbitrary: ys)
  case Nil
  then show ?case by (cases ys) auto
next
  case (Cons x xs)
  show ?case
  proof (cases ys)
    case Nil
    with Cons.prems show ?thesis by auto
  next
    case ys: (Cons y ys')
    then have "length (f x) = length (f y)" using Cons.prems by simp
    then have "f x = f y" "concat (map f xs) = concat (map f ys')"
      using Cons.prems ys by auto
    then show ?thesis using Cons ys by auto
  qed
qed

fun chunks :: "nat \<Rightarrow> 'a list \<Rightarrow> 'a list list" where
  "chunks n xs = (if n = 0 \<or> xs = [] then [] else take n xs # chunks n (drop n xs))"

declare chunks.simps [simp del]

lemma chunks_Nil [simp]: "chunks n [] = []"
  by (subst chunks.simps) simp

lemma chunks_append: "length x = n \<Longrightarrow> 0 < n \<Longrightarrow> chunks n (x @ xs) = x # chunks n xs"
  by (subst chunks.simps) auto

lemma chunks_concat_map:
  assumes "\<And>x. x \<in> set xs \<Longrightarrow> length (f x) = n" and "0 < n"
  shows "chunks n (concat (map f xs)) = map f xs"
  using assms by (induction xs) (auto simp: chunks_append)

lemma concat_chunks: "0 < n \<Longrightarrow> concat (chunks n xs) = xs"
proof (induction n xs rule: chunks.induct)
  case (1 n xs)
  then show ?case by (subst chunks.simps) auto
qed

lemma length_concat_width:
  "(\<And>x. x \<in> set xs \<Longrightarrow> length (f x) = w) \<Longrightarrow> length (concat (map f xs)) = w * length xs"
  by (induction xs) auto

lemma filter_suffix:
  "(\<And>j. j < length ys \<Longrightarrow> P (ys ! j) \<longleftrightarrow> m \<le> j) \<Longrightarrow> filter P ys = drop m ys"
proof (induction ys arbitrary: m)
  case (Cons y ys)
  have "P (ys ! j) \<longleftrightarrow> m - 1 \<le> j" if "j < length ys" for j
    using Cons.prems [of "Suc j"] that by auto
  then have "filter P ys = drop (m - 1) ys" by (rule Cons.IH)
  then show ?case using Cons.prems [of 0] by (cases m) auto
qed simp

section \<open>Tables\<close>

text \<open>
  A table of the relay's database is an ordered finite map. Reading \<open>k\<close> is
  \<open>RBT.lookup t k\<close>, writing is \<open>RBT.insert\<close>, removing is \<open>RBT.delete\<close>, and walking the
  table in key order is \<open>RBT.entries\<close>. Keys that are byte strings or tuples are ordered
  lexicographically.
\<close>

type_synonym ('k, 'v) table = "('k, 'v) rbt"

abbreviation tget :: "('k::linorder, 'v) table \<Rightarrow> 'k \<Rightarrow> 'v option" where
  "tget \<equiv> RBT.lookup"

abbreviation tput :: "'k::linorder \<Rightarrow> 'v \<Rightarrow> ('k, 'v) table \<Rightarrow> ('k, 'v) table" where
  "tput \<equiv> RBT.insert"

abbreviation tdel :: "'k::linorder \<Rightarrow> ('k, 'v) table \<Rightarrow> ('k, 'v) table" where
  "tdel \<equiv> RBT.delete"

definition tsum :: "('k \<Rightarrow> 'v \<Rightarrow> nat) \<Rightarrow> ('k::linorder, 'v) table \<Rightarrow> nat" where
  "tsum f t = sum_list (map (\<lambda>(k, v). f k v) (RBT.entries t))"

lemma entries_iff: "(k, v) \<in> set (RBT.entries t) \<longleftrightarrow> tget t k = Some v"
  by (simp add: RBT.lookup_in_tree)

lemma entries_empty [simp]: "RBT.entries (RBT.empty :: ('k::linorder, 'v) table) = []"
proof (rule ccontr)
  assume "RBT.entries (RBT.empty :: ('k, 'v) table) \<noteq> []"
  then obtain k v where "(k, v) \<in> set (RBT.entries (RBT.empty :: ('k, 'v) table))"
    by (metis list.set_sel(1) surj_pair)
  then show False by (simp add: entries_iff)
qed

lemma distinct_entries_pairs [simp]: "distinct (RBT.entries t)"
  using RBT.distinct_entries [of t] by (simp add: distinct_map)

lemma sorted_keys_entries: "sorted_wrt (<) (map fst (RBT.entries t))"
  by (simp add: strict_sorted_iff RBT.distinct_entries RBT.sorted_entries)

lemma tsum_dom: "tsum f t = (\<Sum>k\<in>dom (tget t). f k (the (tget t k)))"
proof -
  have "tsum f t = (\<Sum>p\<in>set (RBT.entries t). f (fst p) (snd p))"
    by (simp add: tsum_def sum_list_distinct_conv_sum_set case_prod_beta)
  also have "\<dots> = (\<Sum>k\<in>fst ` set (RBT.entries t). f k (the (tget t k)))"
    using RBT.distinct_entries [of t]
    by (subst sum.reindex) (auto simp: distinct_map entries_iff intro!: sum.cong)
  also have "fst ` set (RBT.entries t) = dom (tget t)"
  proof (rule set_eqI)
    fix k
    show "k \<in> fst ` set (RBT.entries t) \<longleftrightarrow> k \<in> dom (tget t)"
      by (metis (no_types, lifting) RBT.map_of_entries dom_map_of_conv_image_fst)
  qed
  finally show ?thesis .
qed

lemma tsum_delete [table_simps]:
  assumes "tget t k = Some v"
  shows "tsum f t = tsum f (tdel k t) + f k v"
proof -
  have "dom (tget t) = insert k (dom (tget t) - {k})" using assms by auto
  then have "tsum f t = f k v + (\<Sum>i\<in>dom (tget t) - {k}. f i (the (tget t i)))"
    using assms by (simp add: tsum_dom sum.remove [of _ k] domI)
  moreover have "tsum f (tdel k t) = (\<Sum>i\<in>dom (tget t) - {k}. f i (the (tget t i)))"
    by (auto simp: tsum_dom intro!: sum.cong)
  ultimately show ?thesis by simp
qed

lemma tsum_insert [table_simps]:
  assumes "tget t k = None"
  shows "tsum f (tput k v t) = tsum f t + f k v"
proof -
  have "dom (tget (tput k v t)) = insert k (dom (tget t))" by simp
  moreover have "k \<notin> dom (tget t)" using assms by auto
  moreover have "(\<Sum>i\<in>dom (tget t). f i (the (tget (tput k v t) i))) = tsum f t"
    using assms by (auto simp: tsum_dom intro!: sum.cong)
  ultimately show ?thesis by (simp add: tsum_dom)
qed

lemma tsum_update:
  assumes "tget t k = Some u"
  shows "tsum f (tput k v t) + f k u = tsum f t + f k v"
proof -
  have "tsum f (tput k v t) = tsum f (tdel k (tput k v t)) + f k v"
    by (rule tsum_delete) simp
  moreover have "tsum f (tdel k (tput k v t)) = tsum f (tdel k t)"
    by (auto simp: tsum_dom intro!: sum.cong)
  ultimately show ?thesis using tsum_delete [OF assms, of f] by simp
qed

lemma tsum_le_member: "tget t k = Some v \<Longrightarrow> f k v \<le> tsum f t"
  by (simp add: tsum_delete)

lemma tsum_eq_0_iff: "tsum f t = 0 \<longleftrightarrow> (\<forall>k v. tget t k = Some v \<longrightarrow> f k v = 0)"
proof
  assume "tsum f t = 0"
  then show "\<forall>k v. tget t k = Some v \<longrightarrow> f k v = 0"
    by (auto simp: tsum_delete)
qed (auto simp: tsum_dom)

lemma tsum_cong: "(\<And>k v. tget t k = Some v \<Longrightarrow> f k v = g k v) \<Longrightarrow> tsum f t = tsum g t"
  by (auto simp: tsum_dom intro!: sum.cong)

lemma tsum_mono_dom: "(\<And>k v. tget t k = Some v \<Longrightarrow> f k v \<le> g k v) \<Longrightarrow> tsum f t \<le> tsum g t"
  by (auto simp: tsum_dom intro!: sum_mono)

lemma tsum_empty [simp]: "tsum f RBT.empty = 0"
  by (simp add: tsum_dom)

text \<open>Removing a list of keys, as the sweeps do after collecting their victims.\<close>

definition tdel_all :: "'k list \<Rightarrow> ('k::linorder, 'v) table \<Rightarrow> ('k, 'v) table" where
  "tdel_all ks t = fold tdel ks t"

lemma tget_tdel_all [simp]: "tget (tdel_all ks t) k = (if k \<in> set ks then None else tget t k)"
  unfolding tdel_all_def by (induction ks arbitrary: t) auto

definition tput_all :: "('k \<times> 'v) list \<Rightarrow> ('k::linorder, 'v) table \<Rightarrow> ('k, 'v) table" where
  "tput_all xs t = fold (\<lambda>(k, v). tput k v) xs t"

lemma tget_tput_all:
  "distinct (map fst xs) \<Longrightarrow>
    tget (tput_all xs t) k = (case map_of xs k of Some v \<Rightarrow> Some v | None \<Rightarrow> tget t k)"
  unfolding tput_all_def
proof (induction xs arbitrary: t)
  case (Cons x xs)
  obtain a b where x: "x = (a, b)" by (cases x)
  have "map_of xs a = None" using Cons.prems by (simp add: x map_of_eq_None_iff)
  with Cons show ?case by (auto simp: x split: option.split)
qed simp

lemma map_of_filter_entries:
  "map_of (map (\<lambda>(k, v). (k, f v)) (filter (\<lambda>(k, v). P v) (RBT.entries t))) k =
    (case tget t k of Some v \<Rightarrow> if P v then Some (f v) else None | None \<Rightarrow> None)"
proof -
  let ?xs = "map (\<lambda>(k, v). (k, f v)) (filter (\<lambda>(k, v). P v) (RBT.entries t))"
  have "map fst ?xs = map fst (filter (\<lambda>(k, v). P v) (RBT.entries t))" by auto
  then have d: "distinct (map fst ?xs)"
    using RBT.distinct_entries [of t] by (simp only: distinct_map_filter)
  show ?thesis
  proof (cases "\<exists>v. tget t k = Some v \<and> P v")
    case True
    then obtain v where "tget t k = Some v" "P v" by blast
    then have "(k, f v) \<in> set ?xs" by (force simp: entries_iff)
    with d \<open>tget t k = Some v\<close> \<open>P v\<close> show ?thesis by (simp add: map_of_is_SomeI)
  next
    case False
    then have "k \<notin> fst ` set ?xs" by (auto simp: entries_iff)
    then have "map_of ?xs k = None" by (simp add: map_of_eq_None_iff)
    with False show ?thesis by (auto split: option.split)
  qed
qed

text \<open>The entries of a key range, in key order.\<close>

definition trange :: "('k \<Rightarrow> bool) \<Rightarrow> ('k::linorder, 'v) table \<Rightarrow> ('k \<times> 'v) list" where
  "trange P t = filter (\<lambda>(k, _). P k) (RBT.entries t)"

lemma set_trange [simp]: "set (trange P t) = {(k, v). tget t k = Some v \<and> P k}"
  by (auto simp: trange_def entries_iff)

lemma sorted_filter_keys:
  "sorted_wrt (<) (map fst xs) \<Longrightarrow> sorted_wrt (<) (map fst (filter Q xs))"
  by (induction xs) auto

lemma sorted_trange: "sorted_wrt (<) (map fst (trange P t))"
  by (simp add: trange_def sorted_keys_entries sorted_filter_keys)

lemma sorted_keys_unique:
  assumes "sorted_wrt (<) (map fst (xs :: ('k::linorder \<times> 'v) list))"
    and "sorted_wrt (<) (map fst ys)" and "set xs = set ys"
  shows "xs = ys"
  using assms
proof (induction xs arbitrary: ys)
  case Nil
  then show ?case by simp
next
  case (Cons x xs)
  obtain y ys' where ys: "ys = y # ys'" using Cons.prems(3) by (cases ys) auto
  have xmin: "\<forall>z \<in> set xs. fst x < fst z" and ymin: "\<forall>z \<in> set ys'. fst y < fst z"
    using Cons.prems(1,2) ys by auto
  have "x \<in> set ys" "y \<in> set (x # xs)" using Cons.prems(3) ys by auto
  then have "x = y" using xmin ymin ys by fastforce
  moreover have "x \<notin> set xs" "y \<notin> set ys'" using xmin ymin by auto
  ultimately have "set xs = set ys'" using Cons.prems(3) ys by auto
  with Cons.IH [of ys'] Cons.prems(1,2) ys \<open>x = y\<close> show ?case by simp
qed

lemma trange_put_last:
  assumes "tget t k = None" "P k" "\<And>k' v'. tget t k' = Some v' \<Longrightarrow> P k' \<Longrightarrow> k' < k"
  shows "trange P (tput k v t) = trange P t @ [(k, v)]"
proof (rule sorted_keys_unique)
  show "sorted_wrt (<) (map fst (trange P t @ [(k, v)]))"
    using sorted_trange [of P t] assms(3) by (auto simp: sorted_wrt_append)
qed (use assms in \<open>auto simp: sorted_trange split: if_splits\<close>)

lemma trange_put_other: "\<not> P k \<Longrightarrow> trange P (tput k v t) = trange P t"
  by (rule sorted_keys_unique) (auto simp: sorted_trange split: if_splits)

lemma trange_del: "trange P (tdel k t) = filter (\<lambda>(k', _). k' \<noteq> k) (trange P t)"
  by (rule sorted_keys_unique)
    (auto simp: sorted_trange sorted_filter_keys split: if_splits)

lemma trange_del_other: "\<not> P k \<Longrightarrow> trange P (tdel k t) = trange P t"
  by (rule sorted_keys_unique) (auto simp: sorted_trange split: if_splits)

lemma trange_filter:
  assumes "\<And>k v. tget t' k = Some v \<longleftrightarrow> tget t k = Some v \<and> Q k v"
  shows "trange P t' = filter (\<lambda>(k, v). Q k v) (trange P t)"
  by (rule sorted_keys_unique) (auto simp: sorted_trange sorted_filter_keys assms)

lemma tsum_split:
  assumes "\<And>k v. tget t' k = Some v \<longleftrightarrow> tget t k = Some v \<and> \<not> Q k"
  shows "tsum f t = tsum f t' + tsum (\<lambda>k v. if Q k then f k v else 0) t"
proof -
  have dom: "dom (tget t') = dom (tget t) - {k. Q k}" using assms by auto
  have eq: "tget t' k = tget t k" if "k \<in> dom (tget t')" for k
    using that assms [of k] by (metis domD)
  have "tsum f t' = (\<Sum>k\<in>dom (tget t). if Q k then 0 else f k (the (tget t k)))"
    unfolding tsum_dom using eq
    by (intro sum.mono_neutral_cong_left) (auto simp: dom)
  then show ?thesis
    by (simp add: tsum_dom flip: sum.distrib) (auto intro!: sum.cong)
qed

lemma trange_Nil: "trange P t = [] \<Longrightarrow> P k \<Longrightarrow> tget t k = None"
  using set_trange [of P t] by (cases "tget t k") auto

lemma option_eqI: "(\<And>v. x = Some v \<longleftrightarrow> y = Some v) \<Longrightarrow> x = y"
  by (cases x; cases y) auto

lemma unit_option_iff [simp]: "(x :: unit option) \<noteq> Some () \<longleftrightarrow> x = None"
  by (cases x) auto

lemma distinct_trange [simp]: "distinct (trange P t)"
  by (simp add: trange_def)

lemma tsum_trange: "tsum (\<lambda>k v. if P k then f k v else 0) t = (\<Sum>(k, v)\<leftarrow>trange P t. f k v)"
proof -
  have "(\<Sum>(k, v)\<leftarrow>xs. if P k then f k v else 0) = (\<Sum>(k, v)\<leftarrow>filter (\<lambda>(k, _). P k) xs. f k v)"
    for xs
    by (induction xs) auto
  then show ?thesis by (simp add: tsum_def trange_def)
qed

section \<open>Runs of a state machine\<close>

text \<open>
  A component's operations are a step function on its state; a history is a list of
  operations. What every step keeps, every history keeps. Where the component is built on
  code of other libraries, \<open>law\<close> is what it relies on of that code; otherwise it is \<open>True\<close>.
\<close>

fun run :: "('s \<Rightarrow> 'o \<Rightarrow> 's) \<Rightarrow> 's \<Rightarrow> 'o list \<Rightarrow> 's" where
  "run step s [] = s"
| "run step s (x # xs) = run step (step s x) xs"

lemma run_append [simp]: "run step s (xs @ ys) = run step (run step s xs) ys"
  by (induction xs arbitrary: s) auto

locale run_invariant =
  fixes law :: bool and step :: "'s \<Rightarrow> 'o \<Rightarrow> 's" and start :: "'s" and inv :: "'s \<Rightarrow> bool"
  assumes inv_start: "law \<Longrightarrow> inv start"
    and inv_step: "law \<Longrightarrow> inv s \<Longrightarrow> inv (step s x)"
begin

lemma inv_run: "law \<Longrightarrow> inv s \<Longrightarrow> inv (run step s xs)"
  by (induction xs arbitrary: s) (auto simp: inv_step)

lemma inv_reachable: "law \<Longrightarrow> inv (run step start xs)"
  by (simp add: inv_run inv_start)

end

text \<open>
  The same for histories whose every operation is \<open>allowed\<close>: an invariant that rests on what
  the operations of one history have in common.
\<close>

locale guarded_invariant =
  fixes law :: bool and allowed :: "'o \<Rightarrow> bool" and step :: "'s \<Rightarrow> 'o \<Rightarrow> 's" and start :: "'s"
    and inv :: "'s \<Rightarrow> bool"
  assumes guarded_start: "law \<Longrightarrow> inv start"
    and guarded_step: "law \<Longrightarrow> inv s \<Longrightarrow> allowed x \<Longrightarrow> inv (step s x)"
begin

lemma guarded_run: "law \<Longrightarrow> inv s \<Longrightarrow> list_all allowed xs \<Longrightarrow> inv (run step s xs)"
  by (induction xs arbitrary: s) (auto simp: guarded_step)

lemma guarded_reachable: "law \<Longrightarrow> list_all allowed xs \<Longrightarrow> inv (run step start xs)"
  by (simp add: guarded_run guarded_start)

end

text \<open>A preorder every step moves up in, in the states the invariant describes.\<close>

locale run_related = run_invariant law step start inv
  for law :: bool and step :: "'s \<Rightarrow> 'o \<Rightarrow> 's" and start :: "'s" and inv :: "'s \<Rightarrow> bool" +
  fixes rel :: "'s \<Rightarrow> 's \<Rightarrow> bool"
  assumes rel_refl: "rel s s" and rel_trans: "rel s t \<Longrightarrow> rel t u \<Longrightarrow> rel s u"
    and rel_step: "law \<Longrightarrow> inv s \<Longrightarrow> rel s (step s x)"
begin

lemma rel_run: "law \<Longrightarrow> inv s \<Longrightarrow> rel s (run step s xs)"
proof (induction xs arbitrary: s)
  case (Cons x xs)
  then have "rel s (step s x)" "inv (step s x)" by (auto simp: rel_step inv_step)
  with Cons.IH [of "step s x"] Cons.prems show ?case by (auto intro: rel_trans)
qed (simp add: rel_refl)

lemma rel_later: "law \<Longrightarrow> rel (run step start xs) (run step start (xs @ ys))"
  by (simp add: rel_run inv_reachable)

end

text \<open>In particular, a quantity no step lowers.\<close>

locale run_monotone = run_invariant law step start inv
  for law :: bool and step :: "'s \<Rightarrow> 'o \<Rightarrow> 's" and start :: "'s" and inv :: "'s \<Rightarrow> bool" +
  fixes rank :: "'s \<Rightarrow> 'c::preorder"
  assumes rank_step: "law \<Longrightarrow> inv s \<Longrightarrow> rank s \<le> rank (step s x)"

sublocale run_monotone \<subseteq> ranked: run_related law step start inv "\<lambda>s t. rank s \<le> rank t"
  by unfold_locales (auto intro: order_trans rank_step)

context run_monotone
begin

lemma rank_run: "law \<Longrightarrow> inv s \<Longrightarrow> rank s \<le> rank (run step s xs)"
  by (rule ranked.rel_run)

lemma rank_later: "law \<Longrightarrow> rank (run step start xs) \<le> rank (run step start (xs @ ys))"
  by (rule ranked.rel_later)

end

text \<open>
  A step reports an event (the operation with the answer it gave). The component refines a
  specification over events when one abstract step follows every concrete one; then every
  history refines the specification run over the events it reported.
\<close>

fun trace :: "('s \<Rightarrow> 'o \<Rightarrow> 's) \<Rightarrow> ('s \<Rightarrow> 'o \<Rightarrow> 'e) \<Rightarrow> 's \<Rightarrow> 'o list \<Rightarrow> 'e list" where
  "trace step event s [] = []"
| "trace step event s (x # xs) = event s x # trace step event (step s x) xs"

lemma trace_stateless [simp]: "trace step (\<lambda>s x. f x) s xs = map f xs"
  by (induction xs arbitrary: s) auto

lemma trace_append [simp]:
  "trace step event s (xs @ ys) = trace step event s xs @ trace step event (run step s xs) ys"
  by (induction xs arbitrary: s) auto

locale refinement = run_invariant law step start inv
  for law :: bool and step :: "'s \<Rightarrow> 'o \<Rightarrow> 's" and start :: "'s" and inv :: "'s \<Rightarrow> bool" +
  fixes event :: "'s \<Rightarrow> 'o \<Rightarrow> 'e" and view :: "'s \<Rightarrow> 't" and spec :: "'t \<Rightarrow> 'e \<Rightarrow> 't"
  assumes view_step: "law \<Longrightarrow> inv s \<Longrightarrow> view (step s x) = spec (view s) (event s x)"
begin

lemma view_run_from:
  "law \<Longrightarrow> inv s \<Longrightarrow> view (run step s xs) = run spec (view s) (trace step event s xs)"
  by (induction xs arbitrary: s) (auto simp: inv_step view_step)

lemma view_run:
  "law \<Longrightarrow> view (run step start xs) = run spec (view start) (trace step event start xs)"
  by (simp add: view_run_from inv_start)

end

text \<open>
  A simulation: an abstract and a concrete machine that take the same operations, and a
  relation between their states that every operation keeps.
\<close>

locale simulation =
  fixes law :: bool and astep :: "'a \<Rightarrow> 'o \<Rightarrow> 'a" and cstep :: "'c \<Rightarrow> 'o \<Rightarrow> 'c"
    and rel :: "'a \<Rightarrow> 'c \<Rightarrow> bool"
  assumes sim_step: "law \<Longrightarrow> rel a c \<Longrightarrow> rel (astep a x) (cstep c x)"
begin

lemma sim_run: "law \<Longrightarrow> rel a c \<Longrightarrow> rel (run astep a xs) (run cstep c xs)"
  by (induction xs arbitrary: a c) (auto simp: sim_step)

end

text \<open>
  Things handed out once. An operation may hand out a key; a key handed out is spent, and
  stays spent through every operation that \<open>keeps\<close> it. Then a history of operations that
  all keep a key hands it out at most once.
\<close>

locale one_time = run_invariant law step start inv
  for law :: bool and step :: "'s \<Rightarrow> 'o \<Rightarrow> 's" and start :: "'s" and inv :: "'s \<Rightarrow> bool" +
  fixes hands :: "'s \<Rightarrow> 'o \<Rightarrow> 'k option" and spent :: "'s \<Rightarrow> 'k \<Rightarrow> bool"
    and keeps :: "'k \<Rightarrow> 's \<Rightarrow> 'o \<Rightarrow> bool"
  assumes hands_unspent: "law \<Longrightarrow> inv s \<Longrightarrow> hands s x = Some k \<Longrightarrow> \<not> spent s k"
    and hands_spends: "law \<Longrightarrow> inv s \<Longrightarrow> hands s x = Some k \<Longrightarrow> spent (step s x) k"
    and spent_kept: "law \<Longrightarrow> inv s \<Longrightarrow> spent s k \<Longrightarrow> keeps k s x \<Longrightarrow> spent (step s x) k"
begin

lemma spent_never_again:
  "law \<Longrightarrow> inv s \<Longrightarrow> spent s k \<Longrightarrow> False \<notin> set (trace step (keeps k) s xs) \<Longrightarrow>
    Some k \<notin> set (trace step hands s xs)"
proof (induction xs arbitrary: s)
  case (Cons x xs)
  then show ?case
    using hands_unspent [of s x k] spent_kept [of s k x] inv_step [of s x] by auto
qed simp

lemma handed_once_from:
  "law \<Longrightarrow> inv s \<Longrightarrow> False \<notin> set (trace step (keeps k) s xs) \<Longrightarrow>
    count_list (trace step hands s xs) (Some k) \<le> 1"
proof (induction xs arbitrary: s)
  case (Cons x xs)
  then show ?case
    using spent_never_again [of "step s x" k xs] hands_spends [of s x k] inv_step [of s x]
    by (auto simp: count_list_0_iff)
qed simp

lemma handed_once:
  "law \<Longrightarrow> False \<notin> set (trace step (keeps k) (run step start xs) ys) \<Longrightarrow>
    count_list (trace step hands (run step start xs) ys) (Some k) \<le> 1"
  using handed_once_from [of "run step start xs" k ys] by (simp add: inv_reachable)

end

section \<open>Codecs\<close>

text \<open>
  An encoder into bytes and a decoder that reads back every value the format admits. The
  decoder may normalise: \<open>norm x\<close> is what reading \<open>enc x\<close> gives.
\<close>

locale codec =
  fixes enc :: "'a \<Rightarrow> bytes" and dec :: "bytes \<Rightarrow> ('a, 'e) res"
    and valid :: "'a \<Rightarrow> bool" and norm :: "'a \<Rightarrow> 'a"
  assumes dec_enc: "valid x \<Longrightarrow> dec (enc x) = Ok (norm x)"
begin

lemma enc_inj:
  assumes "valid x" "valid y" "enc x = enc y"
  shows "norm x = norm y"
  using dec_enc [OF assms(1)] dec_enc [OF assms(2)] assms(3) by simp

lemma dec_total: "valid x \<Longrightarrow> is_ok (dec (enc x))"
  by (simp add: dec_enc)

end

end
