(* ===== verification/Crypto.thy ===== *)
theory Crypto
  imports Prelude "HOL-Library.Stream"
begin

text \<open>
  The cryptographic libraries the protocol crate calls (x25519-dalek, ed25519-dalek, sha2,
  hkdf, hmac, chacha20poly1305, ml-kem) are a parameter of the model: a record \<open>crypto\<close>
  of their functions on byte strings, passed to every definition that uses one. What the
  code relies on is stated as named predicates on that record, each a documented law of the
  library (Diffie-Hellman commutes, decryption inverts encryption, a signature verifies
  under its own key, decapsulation inverts encapsulation, output lengths). No theorem
  assumes a hash or a cipher to be injective; where the protocol relies on collision
  resistance, the theorem exhibits the collision instead.

  \<open>demo_crypto\<close> is a concrete record that satisfies all of the laws, on which witnesses
  evaluate.
\<close>

record crypto =
  x25519_public :: "bytes \<Rightarrow> bytes"
  x25519_dh :: "bytes \<Rightarrow> bytes \<Rightarrow> bytes"
  was_contributory :: "bytes \<Rightarrow> bool"
  ed25519_public :: "bytes \<Rightarrow> bytes"
  ed25519_point :: "bytes \<Rightarrow> bool"
  ed25519_sign :: "bytes \<Rightarrow> bytes \<Rightarrow> bytes"
  verify_strict :: "bytes \<Rightarrow> bytes \<Rightarrow> bytes \<Rightarrow> bool"
  sha256 :: "bytes \<Rightarrow> bytes"
  sha512 :: "bytes \<Rightarrow> bytes"
  hkdf :: "bytes option \<Rightarrow> bytes \<Rightarrow> bytes \<Rightarrow> nat \<Rightarrow> bytes"
  hmac_sha256 :: "bytes \<Rightarrow> bytes \<Rightarrow> bytes"
  xchacha_encrypt :: "bytes \<Rightarrow> bytes \<Rightarrow> bytes \<Rightarrow> bytes \<Rightarrow> bytes option"
  xchacha_decrypt :: "bytes \<Rightarrow> bytes \<Rightarrow> bytes \<Rightarrow> bytes \<Rightarrow> bytes option"
  mlkem_public :: "bytes \<Rightarrow> bytes"
  mlkem_encapsulate :: "bytes \<Rightarrow> bytes \<Rightarrow> (bytes \<times> bytes) option"
  mlkem_decapsulate :: "bytes \<Rightarrow> bytes \<Rightarrow> bytes option"

section \<open>The laws the code relies on\<close>

definition dh_commutes :: "crypto \<Rightarrow> bool" where
  "dh_commutes C \<longleftrightarrow>
     (\<forall>a b. x25519_dh C a (x25519_public C b) = x25519_dh C b (x25519_public C a))"

definition dh_length :: "crypto \<Rightarrow> bool" where
  "dh_length C \<longleftrightarrow> (\<forall>a. length (x25519_public C a) = 32)"

definition signatures_verify :: "crypto \<Rightarrow> bool" where
  "signatures_verify C \<longleftrightarrow>
     (\<forall>seed m. verify_strict C (ed25519_public C seed) m (ed25519_sign C seed m))"

definition signature_length :: "crypto \<Rightarrow> bool" where
  "signature_length C \<longleftrightarrow>
     (\<forall>seed m. length (ed25519_sign C seed m) = 64 \<and> length (ed25519_public C seed) = 32)"

definition aead_inverts :: "crypto \<Rightarrow> bool" where
  "aead_inverts C \<longleftrightarrow>
     (\<forall>k n ad m c. xchacha_encrypt C k n ad m = Some c \<longrightarrow> xchacha_decrypt C k n ad c = Some m)"

definition aead_tag :: "crypto \<Rightarrow> bool" where
  "aead_tag C \<longleftrightarrow>
     (\<forall>k n ad m c. xchacha_encrypt C k n ad m = Some c \<longrightarrow> length c = length m + 16)"

definition kem_inverts :: "crypto \<Rightarrow> bool" where
  "kem_inverts C \<longleftrightarrow>
     (\<forall>seed m ct ss. mlkem_encapsulate C (mlkem_public C seed) m = Some (ct, ss) \<longrightarrow>
        mlkem_decapsulate C seed ct = Some ss)"

definition kem_lengths :: "crypto \<Rightarrow> bool" where
  "kem_lengths C \<longleftrightarrow>
     (\<forall>seed. length (mlkem_public C seed) = 1184) \<and>
     (\<forall>p m ct ss. mlkem_encapsulate C p m = Some (ct, ss) \<longrightarrow> length ct = 1088)"

definition sha256_length :: "crypto \<Rightarrow> bool" where
  "sha256_length C \<longleftrightarrow> (\<forall>m. length (sha256 C m) = 32)"

lemma dh_commutesD: "dh_commutes C \<Longrightarrow>
    x25519_dh C a (x25519_public C b) = x25519_dh C b (x25519_public C a)"
  by (simp add: dh_commutes_def)

lemma dh_lengthD [simp]: "dh_length C \<Longrightarrow> length (x25519_public C a) = 32"
  by (simp add: dh_length_def)

lemma signatures_verifyD [simp]: "signatures_verify C \<Longrightarrow>
    verify_strict C (ed25519_public C seed) m (ed25519_sign C seed m)"
  by (simp add: signatures_verify_def)

lemma signature_lengthD [simp]: "signature_length C \<Longrightarrow> length (ed25519_sign C seed m) = 64"
  "signature_length C \<Longrightarrow> length (ed25519_public C seed) = 32"
  by (simp_all add: signature_length_def)

lemma aead_invertsD: "aead_inverts C \<Longrightarrow> xchacha_encrypt C k n ad m = Some c \<Longrightarrow>
    xchacha_decrypt C k n ad c = Some m"
  by (simp add: aead_inverts_def)

lemma aead_tagD: "aead_tag C \<Longrightarrow> xchacha_encrypt C k n ad m = Some c \<Longrightarrow>
    length c = length m + 16"
  by (simp add: aead_tag_def)

lemma kem_invertsD: "kem_inverts C \<Longrightarrow>
    mlkem_encapsulate C (mlkem_public C seed) m = Some (ct, ss) \<Longrightarrow>
    mlkem_decapsulate C seed ct = Some ss"
  by (simp add: kem_inverts_def)

lemma kem_lengthsD: "kem_lengths C \<Longrightarrow> length (mlkem_public C seed) = 1184"
  "kem_lengths C \<Longrightarrow> mlkem_encapsulate C p m = Some (ct, ss) \<Longrightarrow> length ct = 1088"
  unfolding kem_lengths_def by blast+

lemma sha256_lengthD [simp]: "sha256_length C \<Longrightarrow> length (sha256 C m) = 32"
  by (simp add: sha256_length_def)

section \<open>Collisions\<close>

text \<open>
  Two different inputs with one digest, among the inputs named. A theorem that rests on the
  hash concludes with this alternative over the byte strings it speaks of, so it says
  something of a real hash function: of any such function collisions exist somewhere, and
  what matters is that the ones at hand would be one.
\<close>

definition collision_in :: "(bytes \<Rightarrow> bytes) \<Rightarrow> bytes list \<Rightarrow> bool" where
  "collision_in h xs \<longleftrightarrow> \<not> inj_on h (set xs)"

lemma collision_inI: "h x = h y \<Longrightarrow> x \<noteq> y \<Longrightarrow> x \<in> set xs \<Longrightarrow> y \<in> set xs \<Longrightarrow> collision_in h xs"
  by (auto simp: collision_in_def inj_on_def)

lemma collision_in_mono: "collision_in h xs \<Longrightarrow> set xs \<subseteq> set ys \<Longrightarrow> collision_in h ys"
  unfolding collision_in_def by (meson inj_on_subset)

section \<open>Randomness\<close>

text \<open>
  A random generator is the stream of bytes it will produce; drawing takes a prefix.
\<close>

type_synonym rng = "u8 stream"

definition fill_bytes :: "nat \<Rightarrow> rng \<Rightarrow> bytes \<times> rng" where
  "fill_bytes n r = (stake n r, sdrop n r)"

lemma length_fill_bytes [simp]: "length (fst (fill_bytes n r)) = n"
  by (simp add: fill_bytes_def)

section \<open>An instance\<close>

text \<open>
  Structurally right and of no cryptographic strength: keys are their own public halves,
  the shared secret is a sum, a ciphertext is the plaintext and a tag.
\<close>

definition fit :: "nat \<Rightarrow> bytes \<Rightarrow> bytes" where
  "fit n xs = take n (xs @ replicate n 0)"

definition demo_crypto :: crypto where
  "demo_crypto =
    \<lparr>x25519_public = fit 32,
     x25519_dh = (\<lambda>a p. map2 (+) (fit 32 a) (fit 32 p)),
     was_contributory = (\<lambda>s. s \<noteq> replicate 32 0),
     ed25519_public = fit 32,
     ed25519_point = (\<lambda>_. True),
     ed25519_sign = (\<lambda>seed m. fit 32 seed @ fit 32 m),
     verify_strict = (\<lambda>p m s. s = fit 32 p @ fit 32 m),
     sha256 = fit 32,
     sha512 = fit 64,
     hkdf = (\<lambda>salt ikm info n. fit n (ikm @ info)),
     hmac_sha256 = (\<lambda>k m. fit 32 (m @ k)),
     xchacha_encrypt = (\<lambda>k n ad m. Some (m @ fit 16 k)),
     xchacha_decrypt = (\<lambda>k n ad c.
       if 16 \<le> length c \<and> drop (length c - 16) c = fit 16 k
       then Some (take (length c - 16) c) else None),
     mlkem_public = fit 1184,
     mlkem_encapsulate = (\<lambda>p m. Some (fit 1088 m, fit 32 m)),
     mlkem_decapsulate = (\<lambda>seed ct. Some (fit 32 ct))\<rparr>"

lemma length_fit [simp]: "length (fit n xs) = n"
  by (simp add: fit_def)

lemma fit_fit [simp]: "m \<le> n \<Longrightarrow> fit m (fit n xs) = fit m xs"
  by (auto simp: fit_def take_append min_def)

lemma demo_crypto_laws [simp]:
  "dh_commutes demo_crypto" "dh_length demo_crypto" "signatures_verify demo_crypto"
  "signature_length demo_crypto" "aead_inverts demo_crypto" "aead_tag demo_crypto"
  "kem_inverts demo_crypto" "kem_lengths demo_crypto" "sha256_length demo_crypto"
  by (auto simp: demo_crypto_def dh_commutes_def dh_length_def signatures_verify_def
      signature_length_def aead_inverts_def aead_tag_def kem_inverts_def kem_lengths_def
      sha256_length_def add.commute intro!: nth_equalityI)

end
