(* ===== verification/Utf8.thy ===== *)
theory Utf8
  imports Prelude
begin

text \<open>
  Rust strings. A \<open>String\<close> is a sequence of Unicode scalar values, here their numbers;
  \<open>utf8\<close> is its bytes (\<open>as_bytes\<close>), \<open>str_len\<close> their number (\<open>len\<close>), and \<open>from_utf8\<close> the
  standard library's strict decoder, which refuses overlong forms, surrogates and anything
  past U+10FFFF.
\<close>

type_synonym rstr = "nat list"

definition scalar :: "nat \<Rightarrow> bool" where
  "scalar c \<longleftrightarrow> c < 0x110000 \<and> \<not> (0xD800 \<le> c \<and> c \<le> 0xDFFF)"

definition valid_text :: "rstr \<Rightarrow> bool" where
  "valid_text s \<longleftrightarrow> list_all scalar s"

text \<open>A literal of the source.\<close>

definition lit :: "string \<Rightarrow> rstr" where
  "lit s = map of_char s"

definition utf8_char :: "nat \<Rightarrow> nat list" where
  "utf8_char c =
    (if c < 0x80 then [c]
     else if c < 0x800 then [0xC0 + c div 64, 0x80 + c mod 64]
     else if c < 0x10000 then [0xE0 + c div 4096, 0x80 + c div 64 mod 64, 0x80 + c mod 64]
     else [0xF0 + c div 262144, 0x80 + c div 4096 mod 64, 0x80 + c div 64 mod 64,
           0x80 + c mod 64])"

definition utf8_nat :: "rstr \<Rightarrow> nat list" where
  "utf8_nat s = concat (map utf8_char s)"

definition utf8 :: "rstr \<Rightarrow> bytes" where
  "utf8 s = map of_nat (utf8_nat s)"

definition str_len :: "rstr \<Rightarrow> nat" where
  "str_len s = length (utf8 s)"

definition cont :: "nat \<Rightarrow> bool" where
  "cont b \<longleftrightarrow> 0x80 \<le> b \<and> b < 0xC0"

text \<open>The first character of a byte sequence and what is left, if it is well formed.\<close>

definition next_char :: "nat list \<Rightarrow> (nat \<times> nat list) option" where
  "next_char bs =
    (case bs of
       [] \<Rightarrow> None
     | b # r \<Rightarrow>
        if b < 0x80 then Some (b, r)
        else if 0xC2 \<le> b \<and> b < 0xE0 then
          (case r of
             c1 # r' \<Rightarrow> if cont c1 then Some ((b - 0xC0) * 64 + (c1 - 0x80), r') else None
           | _ \<Rightarrow> None)
        else if 0xE0 \<le> b \<and> b < 0xF0 then
          (case r of
             c1 # c2 # r' \<Rightarrow>
               let c = (b - 0xE0) * 4096 + (c1 - 0x80) * 64 + (c2 - 0x80) in
               if cont c1 \<and> cont c2 \<and> 0x800 \<le> c \<and> scalar c then Some (c, r') else None
           | _ \<Rightarrow> None)
        else if 0xF0 \<le> b \<and> b < 0xF5 then
          (case r of
             c1 # c2 # c3 # r' \<Rightarrow>
               let c = (b - 0xF0) * 262144 + (c1 - 0x80) * 4096 + (c2 - 0x80) * 64 + (c3 - 0x80) in
               if cont c1 \<and> cont c2 \<and> cont c3 \<and> 0x10000 \<le> c \<and> scalar c then Some (c, r')
               else None
           | _ \<Rightarrow> None)
        else None)"

lemma next_char_shorter: "next_char bs = Some (c, r) \<Longrightarrow> length r < length bs"
  by (auto simp: next_char_def Let_def split: list.splits if_splits)

function utf8_decode :: "nat list \<Rightarrow> rstr option" where
  "utf8_decode bs =
    (if bs = [] then Some []
     else case next_char bs of
       None \<Rightarrow> None
     | Some (c, r) \<Rightarrow> map_option ((#) c) (utf8_decode r))"
  by pat_completeness auto
termination
  by (relation "measure length") (auto dest: next_char_shorter)

declare utf8_decode.simps [simp del]

definition from_utf8 :: "bytes \<Rightarrow> rstr option" where
  "from_utf8 bs = utf8_decode (map unat bs)"

section \<open>Character classes\<close>

text \<open>\<open>char::is_control\<close>: the general category Cc. \<open>char::is_whitespace\<close>: White_Space.\<close>

definition is_control :: "nat \<Rightarrow> bool" where
  "is_control c \<longleftrightarrow> c < 0x20 \<or> (0x7F \<le> c \<and> c < 0xA0)"

definition is_whitespace :: "nat \<Rightarrow> bool" where
  "is_whitespace c \<longleftrightarrow>
     (0x09 \<le> c \<and> c \<le> 0x0D) \<or> c = 0x20 \<or> c = 0x85 \<or> c = 0xA0 \<or> c = 0x1680 \<or>
     (0x2000 \<le> c \<and> c \<le> 0x200A) \<or> c = 0x2028 \<or> c = 0x2029 \<or> c = 0x202F \<or> c = 0x205F \<or>
     c = 0x3000"

definition is_ascii_graphic :: "u8 \<Rightarrow> bool" where
  "is_ascii_graphic b \<longleftrightarrow> 0x21 \<le> b \<and> b \<le> 0x7E"

definition is_ascii_lowercase :: "u8 \<Rightarrow> bool" where
  "is_ascii_lowercase b \<longleftrightarrow> 0x61 \<le> b \<and> b \<le> 0x7A"

definition is_ascii_digit :: "u8 \<Rightarrow> bool" where
  "is_ascii_digit b \<longleftrightarrow> 0x30 \<le> b \<and> b \<le> 0x39"

definition is_ascii_hexdigit :: "u8 \<Rightarrow> bool" where
  "is_ascii_hexdigit b \<longleftrightarrow>
     is_ascii_digit b \<or> (0x41 \<le> b \<and> b \<le> 0x46) \<or> (0x61 \<le> b \<and> b \<le> 0x66)"

section \<open>Round trips\<close>

lemma utf8_char_bytes: "scalar c \<Longrightarrow> b \<in> set (utf8_char c) \<Longrightarrow> b < 256"
  by (auto simp: utf8_char_def scalar_def split: if_splits)

lemma digit64: "x < 64 \<Longrightarrow> (a * 64 + x) div 64 = a" "x < 64 \<Longrightarrow> (a * 64 + x) mod 64 = x"
  for a x :: nat
  by simp_all

lemma utf8_char_2:
  assumes "2 \<le> a" "a < 32" "x < 64"
  shows "scalar (a * 64 + x) \<and> utf8_char (a * 64 + x) = [0xC0 + a, 0x80 + x]"
proof -
  have "0x80 \<le> a * 64 + x" "a * 64 + x < 0x800" using assms by linarith+
  with assms show ?thesis by (simp add: utf8_char_def scalar_def digit64)
qed

lemma utf8_char_3:
  assumes "x < 64" "y < 64" "a < 16" "0x800 \<le> (a * 64 + x) * 64 + y"
  shows "utf8_char ((a * 64 + x) * 64 + y) = [0xE0 + a, 0x80 + x, 0x80 + y]"
proof -
  let ?c = "(a * 64 + x) * 64 + y"
  have "?c div 4096 = ?c div 64 div 64" by (simp add: div_mult2_eq [symmetric])
  then have d: "?c div 4096 = a" "?c div 64 mod 64 = x" "?c mod 64 = y"
    using assms by (simp_all only: digit64)
  moreover have "x \<le> 63" "y \<le> 63" "a \<le> 15" using assms by simp_all
  moreover have "?c = a * 4096 + x * 64 + y" by simp
  ultimately have "?c < 0x10000" by linarith
  moreover note d
  ultimately show ?thesis using assms(4) unfolding utf8_char_def by simp
qed

lemma utf8_char_4:
  assumes "x < 64" "y < 64" "z < 64" "0x10000 \<le> ((a * 64 + x) * 64 + y) * 64 + z"
  shows "utf8_char (((a * 64 + x) * 64 + y) * 64 + z) =
    [0xF0 + a, 0x80 + x, 0x80 + y, 0x80 + z]"
proof -
  let ?c = "((a * 64 + x) * 64 + y) * 64 + z"
  have "?c div 4096 = ?c div 64 div 64" "?c div 262144 = ?c div 64 div 64 div 64"
    by (simp_all add: div_mult2_eq [symmetric])
  then have "?c div 262144 = a" "?c div 4096 mod 64 = x" "?c div 64 mod 64 = y" "?c mod 64 = z"
    using assms by (simp_all only: digit64)
  then show ?thesis using assms(4) unfolding utf8_char_def by simp
qed

lemma split64: "\<exists>a x. c = a * 64 + x \<and> x < (64::nat)"
  by (rule exI [of _ "c div 64"], rule exI [of _ "c mod 64"]) simp

lemma next_char_utf8: "scalar c \<Longrightarrow> next_char (utf8_char c @ r) = Some (c, r)"
proof -
  assume c: "scalar c"
  obtain a' z where z: "c = a' * 64 + z" "z < 64" using split64 by blast
  obtain a'' y where y: "a' = a'' * 64 + y" "y < 64" using split64 by blast
  obtain a x where x: "a'' = a * 64 + x" "x < 64" using split64 by blast
  consider "c < 0x80" | "0x80 \<le> c" "c < 0x800" | "0x800 \<le> c" "c < 0x10000" | "0x10000 \<le> c"
    by linarith
  then show ?thesis
  proof cases
    case 1
    then show ?thesis by (simp add: utf8_char_def next_char_def)
  next
    case 2
    then have "2 \<le> a'" "a' < 32" using z by simp_all
    with z utf8_char_2 [of a' z] show ?thesis by (simp add: next_char_def cont_def)
  next
    case 3
    then have "a'' < 16" "0x800 \<le> (a'' * 64 + y) * 64 + z" using z y by simp_all
    with c z y utf8_char_3 [of y z a''] show ?thesis
      by (simp add: next_char_def cont_def Let_def algebra_simps)
  next
    case 4
    then have "a < 5" "0x10000 \<le> ((a * 64 + x) * 64 + y) * 64 + z"
      using z y x c by (simp_all add: scalar_def)
    with c z y x utf8_char_4 [of x y z a] show ?thesis
      by (simp add: next_char_def cont_def Let_def algebra_simps)
  qed
qed

lemma utf8_char_not_Nil [simp]: "utf8_char c \<noteq> []"
  by (simp add: utf8_char_def)

lemma utf8_decode_encode: "valid_text s \<Longrightarrow> utf8_decode (utf8_nat s) = Some s"
proof (induction s)
  case Nil
  then show ?case by (simp add: utf8_nat_def utf8_decode.simps)
next
  case (Cons c s)
  then show ?case
    by (subst utf8_decode.simps) (simp add: utf8_nat_def valid_text_def next_char_utf8)
qed

lemma map_unat_of_nat: "(\<And>b. b \<in> set bs \<Longrightarrow> b < 256) \<Longrightarrow> map unat (map of_nat bs :: bytes) = bs"
  by (induction bs) (auto simp: unat_of_nat_u8)

lemma from_utf8_utf8: "valid_text s \<Longrightarrow> from_utf8 (utf8 s) = Some s"
proof -
  assume s: "valid_text s"
  have "map unat (utf8 s) = utf8_nat s"
    unfolding utf8_def using s
    by (intro map_unat_of_nat)
      (auto simp: utf8_nat_def valid_text_def list_all_iff intro: utf8_char_bytes)
  with s show ?thesis by (simp add: from_utf8_def utf8_decode_encode)
qed

lemma utf8_inj: "valid_text s \<Longrightarrow> valid_text t \<Longrightarrow> utf8 s = utf8 t \<Longrightarrow> s = t"
  by (metis from_utf8_utf8 option.inject)

text \<open>The decoder accepts only what the encoder writes: one byte sequence per text.\<close>

lemma cont_digit: "cont b \<Longrightarrow> \<exists>x. b = 0x80 + x \<and> x < 64"
  by (rule exI [of _ "b - 0x80"]) (auto simp: cont_def)

lemma next_char_inverts:
  assumes "next_char bs = Some (c, r)"
  shows "scalar c \<and> bs = utf8_char c @ r"
proof -
  obtain b r0 where bs: "bs = b # r0" using assms by (cases bs) (auto simp: next_char_def)
  consider "b < 0x80" | a where "b = 0xC0 + a" "2 \<le> a" "a < 32" | a where "b = 0xE0 + a" "a < 16"
    | a where "b = 0xF0 + a" "a < 5"
  proof -
    have "b < 0x80 \<or> (0xC2 \<le> b \<and> b < 0xE0) \<or> (0xE0 \<le> b \<and> b < 0xF0) \<or> (0xF0 \<le> b \<and> b < 0xF5)"
    proof (rule ccontr)
      assume "\<not> ?thesis"
      then have "\<not> b < 0x80" "\<not> (0xC2 \<le> b \<and> b < 0xE0)" "\<not> (0xE0 \<le> b \<and> b < 0xF0)"
        "\<not> (0xF0 \<le> b \<and> b < 0xF5)"
        by blast+
      then have "next_char bs = None" unfolding bs next_char_def by (simp only: list.case if_False)
      with assms show False by simp
    qed
    then consider "b < 0x80" | "0xC2 \<le> b" "b < 0xE0" | "0xE0 \<le> b" "b < 0xF0"
      | "0xF0 \<le> b" "b < 0xF5"
      by blast
    then show ?thesis
      by cases (rule that(1), simp, rule that(2) [of "b - 0xC0"], simp_all,
        rule that(3) [of "b - 0xE0"], simp_all, rule that(4) [of "b - 0xF0"], simp_all)
  qed
  then show ?thesis
  proof cases
    case 1
    with assms bs show ?thesis by (auto simp: next_char_def utf8_char_def scalar_def)
  next
    case (2 a)
    with assms bs obtain c1 where r0: "r0 = c1 # r" "cont c1" and c: "c = a * 64 + (c1 - 0x80)"
      by (auto simp: next_char_def split: list.splits if_splits)
    then obtain x where "c1 = 0x80 + x" "x < 64" using cont_digit by blast
    with 2 c bs r0 utf8_char_2 [of a x] show ?thesis by simp
  next
    case (3 a)
    with assms bs obtain c1 c2 where r0: "r0 = c1 # c2 # r" "cont c1" "cont c2"
      and c: "c = a * 4096 + (c1 - 0x80) * 64 + (c2 - 0x80)" "0x800 \<le> c" "scalar c"
      by (auto simp: next_char_def Let_def split: list.splits if_splits)
    then obtain x y where xy: "c1 = 0x80 + x" "x < 64" "c2 = 0x80 + y" "y < 64"
      using cont_digit by blast
    with c(1) have "c = (a * 64 + x) * 64 + y" by simp
    with 3 c bs r0 xy utf8_char_3 [of x y a] show ?thesis by simp
  next
    case (4 a)
    with assms bs obtain c1 c2 c3 where r0: "r0 = c1 # c2 # c3 # r" "cont c1" "cont c2" "cont c3"
      and c: "c = a * 262144 + (c1 - 0x80) * 4096 + (c2 - 0x80) * 64 + (c3 - 0x80)"
        "0x10000 \<le> c" "scalar c"
      by (auto simp: next_char_def Let_def split: list.splits if_splits)
    then obtain x y z where xyz: "c1 = 0x80 + x" "x < 64" "c2 = 0x80 + y" "y < 64"
      "c3 = 0x80 + z" "z < 64"
      using cont_digit by metis
    with c(1) have "c = ((a * 64 + x) * 64 + y) * 64 + z" by simp
    with 4 c bs r0 xyz utf8_char_4 [of x y z a] show ?thesis by simp
  qed
qed

lemma utf8_decode_inverts: "utf8_decode bs = Some s \<Longrightarrow> valid_text s \<and> utf8_nat s = bs"
proof (induction bs arbitrary: s rule: utf8_decode.induct)
  case (1 bs)
  show ?case
  proof (cases "bs = []")
    case True
    with "1.prems" show ?thesis by (simp add: utf8_decode.simps valid_text_def utf8_nat_def)
  next
    case False
    with "1.prems" obtain c r s' where n: "next_char bs = Some (c, r)"
      and s': "utf8_decode r = Some s'" "s = c # s'"
      by (subst (asm) utf8_decode.simps) (auto split: option.splits)
    from "1.IH" [OF False n refl s'(1)] next_char_inverts [OF n] s'(2)
    show ?thesis by (simp add: valid_text_def utf8_nat_def)
  qed
qed

lemma utf8_from_utf8: "from_utf8 bs = Some s \<Longrightarrow> valid_text s \<and> utf8 s = bs"
proof -
  assume "from_utf8 bs = Some s"
  then have "valid_text s" "utf8_nat s = map unat bs"
    by (auto simp: from_utf8_def dest: utf8_decode_inverts)
  then show ?thesis by (simp add: utf8_def comp_def)
qed

end
