(* ===== verification/Identity.thy ===== *)
theory Identity
  imports Crypto Utf8
begin

text \<open>
  \<^verbatim>\<open>silver-protocol/src/identity.rs\<close>, \<^verbatim>\<open>error.rs\<close> and \<^verbatim>\<open>verify.rs\<close>: user ids and
  their canonical form, domain-separated signatures, the identity's replaceable
  Diffie-Hellman key with the grace period of a rekey, and safety numbers.

  The state of \<open>Identity\<close> is the record \<open>identity\<close>; the lock around the Diffie-Hellman
  keys makes each operation atomic, so each is one function of the record.
\<close>

unbundle bit_operations_syntax

section \<open>Errors\<close>

datatype protocol_error =
    InvalidKey | InvalidSignature | DecryptFailed | Malformed string | WrongRecipient
  | TooLarge nat | WeakKey | MissingPrekeys | SessionNotReady | TooManySkipped

type_synonym 'a presult = "('a, protocol_error) res"

section \<open>User ids\<close>

type_synonym user_id = bytes
type_synonym dh_public = bytes

definition field_prime_bytes :: bytes where
  "field_prime_bytes = (replicate 32 0xff)[0 := 0xed, 31 := 0x7f]"

fun canonical_from :: "nat \<Rightarrow> bytes \<Rightarrow> bytes \<Rightarrow> bool" where
  "canonical_from 0 y p = False"
| "canonical_from (Suc i) y p =
     (if y ! i \<noteq> p ! i then y ! i < p ! i else canonical_from i y p)"

definition is_canonical_y :: "bytes \<Rightarrow> bool" where
  "is_canonical_y bs = canonical_from 32 (bs[31 := (bs ! 31) AND 0x7f]) field_prime_bytes"

definition user_id_from_bytes :: "crypto \<Rightarrow> bytes \<Rightarrow> user_id presult" where
  "user_id_from_bytes C bs =
    (if \<not> is_canonical_y bs then Err InvalidKey
     else if \<not> ed25519_point C bs then Err InvalidKey
     else Ok bs)"

definition domain_tagged :: "bytes \<Rightarrow> bytes \<Rightarrow> bytes" where
  "domain_tagged domain message = domain @ [0] @ message"

definition ascii :: "string \<Rightarrow> bytes" where
  "ascii s = map of_char s"

text \<open>\<open>verifying_key\<close> panics on bytes that are no point; ids are checked when they are made.\<close>

definition user_verify :: "crypto \<Rightarrow> user_id \<Rightarrow> bytes \<Rightarrow> bytes \<Rightarrow> bytes \<Rightarrow> unit presult" where
  "user_verify C user domain message signature =
    (if \<not> ed25519_point C user then Panic
     else if verify_strict C user (domain_tagged domain message) signature then Ok ()
     else Err InvalidSignature)"

section \<open>The identity\<close>

record identity =
  signing :: bytes
  dh_current :: bytes
  dh_previous :: "(bytes \<times> u64) option"

datatype dh_key = Current | Previous

definition DH_ROTATION_GRACE_MS :: u64 where
  "DH_ROTATION_GRACE_MS = 30 * 24 * 60 * 60 * 1000"

definition sat_add_u64 :: "u64 \<Rightarrow> u64 \<Rightarrow> u64" where
  "sat_add_u64 a b = (if unat a + unat b < 2 ^ 64 then a + b else - 1)"

definition identity_user_id :: "crypto \<Rightarrow> identity \<Rightarrow> user_id" where
  "identity_user_id C i = ed25519_public C (signing i)"

definition identity_dh_public :: "crypto \<Rightarrow> identity \<Rightarrow> dh_public" where
  "identity_dh_public C i = x25519_public C (dh_current i)"

definition previous_dh_public :: "crypto \<Rightarrow> identity \<Rightarrow> dh_public option" where
  "previous_dh_public C i = map_option (\<lambda>(secret, _). x25519_public C secret) (dh_previous i)"

definition rotate_dh :: "crypto \<Rightarrow> u64 \<Rightarrow> rng \<Rightarrow> identity \<Rightarrow> dh_public \<times> identity" where
  "rotate_dh C now_ms rng i =
    (let fresh = fst (fill_bytes 32 rng);
         i' = i\<lparr>dh_current := fresh,
                dh_previous := Some (dh_current i, sat_add_u64 now_ms DH_ROTATION_GRACE_MS)\<rparr>
     in (x25519_public C (dh_current i'), i'))"

definition unrotate_dh :: "identity \<Rightarrow> bool \<times> identity" where
  "unrotate_dh i =
    (case dh_previous i of
       Some (old, _) \<Rightarrow> (True, i\<lparr>dh_current := old, dh_previous := None\<rparr>)
     | None \<Rightarrow> (False, i))"

definition expire_previous_dh :: "u64 \<Rightarrow> identity \<Rightarrow> bool \<times> identity" where
  "expire_previous_dh now_ms i =
    (case dh_previous i of
       Some (_, until_ms) \<Rightarrow>
         if until_ms \<le> now_ms then (True, i\<lparr>dh_previous := None\<rparr>) else (False, i)
     | None \<Rightarrow> (False, i))"

definition identity_sign :: "crypto \<Rightarrow> identity \<Rightarrow> bytes \<Rightarrow> bytes \<Rightarrow> bytes" where
  "identity_sign C i domain message = ed25519_sign C (signing i) (domain_tagged domain message)"

definition dh_pair :: "crypto \<Rightarrow> identity \<Rightarrow> dh_key \<Rightarrow> (bytes \<times> dh_public) option" where
  "dh_pair C i which =
    (case which of
       Current \<Rightarrow> Some (dh_current i, x25519_public C (dh_current i))
     | Previous \<Rightarrow> map_option (\<lambda>(s, _). (s, x25519_public C s)) (dh_previous i))"

record identity_secrets =
  signing_seed :: bytes
  dh_secret :: bytes
  previous_dh :: "(bytes \<times> u64) option"

definition from_secrets :: "identity_secrets \<Rightarrow> identity" where
  "from_secrets s = \<lparr>signing = signing_seed s, dh_current = dh_secret s,
                     dh_previous = previous_dh s\<rparr>"

definition to_secrets :: "identity \<Rightarrow> identity_secrets" where
  "to_secrets i = \<lparr>signing_seed = signing i, dh_secret = dh_current i,
                   previous_dh = dh_previous i\<rparr>"

section \<open>Safety numbers\<close>

definition SAFETY_DOMAIN :: bytes where
  "SAFETY_DOMAIN = ascii ''silver-messenger/v1/safety-number''"

text \<open>Each group is the residue of a five-byte chunk; it is printed as five digits.\<close>

definition safety_groups :: "crypto \<Rightarrow> user_id \<Rightarrow> user_id \<Rightarrow> nat list" where
  "safety_groups C a b =
    (let (first, second) = (if a \<le> b then (a, b) else (b, a));
         digest = sha512 C (SAFETY_DOMAIN @ [0] @ first @ second)
     in map (\<lambda>chunk. from_be chunk mod 100000) (take 12 (chunks 5 digest)))"

definition digit :: "nat \<Rightarrow> char" where
  "digit d = char_of (48 + d mod 10)"

definition pad5 :: "nat \<Rightarrow> string" where
  "pad5 v = map (\<lambda>k. digit (v div 10 ^ k)) [4, 3, 2, 1, 0]"

fun join_with :: "'a list \<Rightarrow> 'a list list \<Rightarrow> 'a list" where
  "join_with sep [] = []"
| "join_with sep [x] = x"
| "join_with sep (x # y # xs) = x @ sep @ join_with sep (y # xs)"

definition safety_number :: "crypto \<Rightarrow> user_id \<Rightarrow> user_id \<Rightarrow> string" where
  "safety_number C a b = join_with '' '' (map pad5 (safety_groups C a b))"

section \<open>Lemmas\<close>

definition id_points :: "crypto \<Rightarrow> bool" where
  "id_points C \<longleftrightarrow> (\<forall>seed. ed25519_point C (ed25519_public C seed))"

lemma id_points_demo [simp]: "id_points demo_crypto"
  by (simp add: id_points_def demo_crypto_def)

lemma user_verify_Ok_iff: "user_verify C u d m s = Ok () \<longleftrightarrow>
    ed25519_point C u \<and> verify_strict C u (domain_tagged d m) s"
  by (simp add: user_verify_def)

lemma user_verify_sign [simp]:
  "signatures_verify C \<Longrightarrow> id_points C \<Longrightarrow>
   user_verify C (identity_user_id C i) d m (identity_sign C i d m) = Ok ()"
  by (simp add: user_verify_def identity_user_id_def identity_sign_def id_points_def)

lemma domain_tagged_inj:
  assumes "0 \<notin> set d" "0 \<notin> set d'" "domain_tagged d m = domain_tagged d' m'"
  shows "d = d' \<and> m = m'"
  using assms
proof (induction d arbitrary: d')
  case Nil
  then show ?case by (cases d') (auto simp: domain_tagged_def)
next
  case (Cons x d)
  then show ?case by (cases d') (auto simp: domain_tagged_def)
qed

section \<open>Canonical points\<close>

definition le_value :: "bytes \<Rightarrow> nat" where
  "le_value bs = from_be (rev bs)"

lemma le_value_take_Suc:
  "k < length bs \<Longrightarrow> le_value (take (Suc k) bs) = unat (bs ! k) * 256 ^ k + le_value (take k bs)"
  by (simp add: le_value_def take_Suc_conv_app_nth)

lemma le_value_less: "k \<le> length bs \<Longrightarrow> le_value (take k bs) < 256 ^ k"
  using from_be_less [of "rev (take k bs)"] by (simp add: le_value_def min_absorb2)

lemma canonical_from_less:
  "k \<le> length y \<Longrightarrow> k \<le> length p \<Longrightarrow>
    canonical_from k y p \<longleftrightarrow> le_value (take k y) < le_value (take k p)"
proof (induction k)
  case 0
  then show ?case by simp
next
  case (Suc k)
  have bounds: "le_value (take k y) < 256 ^ k" "le_value (take k p) < 256 ^ k"
    using Suc.prems by (auto intro: le_value_less)
  have lex: "a < b \<Longrightarrow> u < m \<Longrightarrow> a * m + u < b * m + v" for a b u v m :: nat
  proof -
    assume "a < b" "u < m"
    then have "a * m + u < Suc a * m" by simp
    also have "\<dots> \<le> b * m" using \<open>a < b\<close> by (intro mult_le_mono1) simp
    finally show ?thesis by simp
  qed
  show ?case
  proof (cases "y ! k = p ! k")
    case True
    with Suc show ?thesis by (simp add: le_value_take_Suc)
  next
    case False
    then have "unat (y ! k) \<noteq> unat (p ! k)" by (metis unsigned_word_eqI)
    then consider "unat (y ! k) < unat (p ! k)" | "unat (p ! k) < unat (y ! k)" by linarith
    then show ?thesis
    proof cases
      case 1
      with False Suc.prems lex [OF 1 bounds(1)] show ?thesis
        by (simp add: le_value_take_Suc word_less_nat_alt)
    next
      case 2
      with False Suc.prems lex [OF 2 bounds(2)] show ?thesis
        by (simp add: le_value_take_Suc word_less_nat_alt not_less less_imp_le)
    qed
  qed
qed

lemma field_prime_bytes_eq: "field_prime_bytes = 237 # replicate 30 255 @ [127]"
proof (rule nth_equalityI)
  show "length field_prime_bytes = length (237 # replicate 30 255 @ [127] :: bytes)"
    by (simp add: field_prime_bytes_def)
next
  fix i assume "i < length field_prime_bytes"
  then have "i < 32" by (simp add: field_prime_bytes_def)
  then show "field_prime_bytes ! i = (237 # replicate 30 255 @ [127]) ! i"
    by (cases "i = 31") (auto simp: field_prime_bytes_def nth_Cons' nth_append nth_list_update)
qed

lemma from_be_append: "from_be (xs @ ys) = from_be xs * 256 ^ length ys + from_be ys"
  by (induction xs) (auto simp: power_add algebra_simps)

lemma from_be_replicate_ff: "from_be (replicate n 255) = 256 ^ n - 1"
proof (induction n)
  case (Suc n)
  have "(1::nat) \<le> 256 ^ n" by simp
  with Suc show ?case by simp
qed simp

lemma field_prime_value: "le_value field_prime_bytes = 2 ^ 255 - 19"
  by (simp add: le_value_def field_prime_bytes_eq from_be_append from_be_replicate_ff)

section \<open>Properties\<close>

text \<open>
  C30. Equivalence with the reference definition. The byte-by-byte comparison of
  \<open>is_canonical_y\<close> decides exactly whether the little-endian number of the 32 bytes, without
  the sign bit, is below the field prime 2^255 - 19; so of the encodings of a point only one
  is taken for a user id.
\<close>

theorem canonical_y_is_below_prime:
  assumes "length bs = 32"
  shows "is_canonical_y bs \<longleftrightarrow> le_value (bs[31 := bs ! 31 AND 0x7f]) < 2 ^ 255 - 19"
proof -
  have "length field_prime_bytes = 32" by (simp add: field_prime_bytes_def)
  with assms show ?thesis
    using canonical_from_less [of 32 "bs[31 := bs ! 31 AND 0x7f]" field_prime_bytes]
    by (simp add: is_canonical_y_def field_prime_value)
qed

theorem canonical_y_is_below_prime_witness:
  "\<not> is_canonical_y (237 # replicate 30 255 @ [127])"
proof -
  have "(237 # replicate 30 255 @ [127 :: u8])[31 := (237 # replicate 30 255 @ [127 :: u8]) ! 31 AND 0x7f] =
      237 # replicate 30 255 @ [127]"
    by (simp add: nth_append list_update_append)
  then show ?thesis
    using canonical_y_is_below_prime [of "237 # replicate 30 255 @ [127]"] field_prime_value
    by (simp add: field_prime_bytes_eq)
qed

lemma unat_sat_add_u64: "unat (sat_add_u64 a b) = min (unat a + unat b) (2 ^ 64 - 1)"
proof (cases "unat a + unat b < 2 ^ 64")
  case True
  then show ?thesis by (simp add: sat_add_u64_def unat_word_ariths)
next
  case False
  have "unat (- 1 :: u64) = 2 ^ 64 - 1" by (simp add: unsigned_minus_1_eq_mask mask_eq_exp_minus_1)
  with False show ?thesis by (simp add: sat_add_u64_def)
qed

text \<open>
  C31. Functional behaviour of a rekey. After \<open>rotate_dh\<close> the identity answers under the secret
  just drawn, whose public key is the one returned and published, and the key before it still
  answers until its time is up: \<open>expire_previous_dh\<close> keeps it before the grace period ends (cut
  off at the last 64-bit time) and drops it from then on, \<open>unrotate_dh\<close> puts the old key back,
  and the signing key never changes.
\<close>

theorem rekey_keeps_old_key_for_grace:
  assumes "rotate_dh C now r i = (pub, i')" and "fresh = fst (fill_bytes 32 r)"
    and "until = min (unat now + unat DH_ROTATION_GRACE_MS) (2 ^ 64 - 1)"
  shows "pub = x25519_public C fresh \<and> identity_dh_public C i' = pub \<and>
    dh_pair C i' Current = Some (fresh, pub) \<and>
    dh_pair C i' Previous = Some (dh_current i, identity_dh_public C i) \<and>
    signing i' = signing i \<and> identity_user_id C i' = identity_user_id C i \<and>
    (unat t < until \<longrightarrow> expire_previous_dh t i' = (False, i')) \<and>
    (until \<le> unat t \<longrightarrow> expire_previous_dh t i' = (True, i'\<lparr>dh_previous := None\<rparr>) \<and>
      dh_pair C (snd (expire_previous_dh t i')) Current = Some (fresh, pub) \<and>
      previous_dh_public C (snd (expire_previous_dh t i')) = None) \<and>
    unrotate_dh i' = (True, i\<lparr>dh_previous := None\<rparr>)"
proof -
  have "unat (sat_add_u64 now DH_ROTATION_GRACE_MS) = until"
    unfolding assms(3) by (rule unat_sat_add_u64)
  with assms(1,2) show ?thesis
    by (auto simp: rotate_dh_def Let_def identity_dh_public_def identity_user_id_def dh_pair_def
        expire_previous_dh_def unrotate_dh_def previous_dh_public_def word_le_nat_alt)
qed

theorem rekey_keeps_old_key_for_grace_witness:
  "expire_previous_dh 5 (snd (rotate_dh demo_crypto 3 (sconst 1)
      \<lparr>signing = [1], dh_current = [2], dh_previous = None\<rparr>)) =
   (False, snd (rotate_dh demo_crypto 3 (sconst 1) \<lparr>signing = [1], dh_current = [2], dh_previous = None\<rparr>))"
  using rekey_keeps_old_key_for_grace [where C = demo_crypto and now = 3 and r = "sconst 1"
      and i = "\<lparr>signing = [1], dh_current = [2], dh_previous = None\<rparr>" and t = 5, OF prod.collapse [symmetric] refl refl]
  by (simp add: DH_ROTATION_GRACE_MS_def)

end
