(* ===== verification/Bundles.thy ===== *)
theory Bundles
  imports Identity
begin

text \<open>
  What an identity publishes and signs: prekeys (\<^verbatim>\<open>silver-protocol/src/prekey.rs\<close>), ML-KEM
  prekeys (\<^verbatim>\<open>pq.rs\<close>), lifecycle statements (\<^verbatim>\<open>lifecycle.rs\<close>), device certificates, lists
  and revocations and the sealing of provisioning messages (\<^verbatim>\<open>device.rs\<close>), and the key
  bundle that carries them (\<^verbatim>\<open>bundle.rs\<close>). Shown here: what an identity builds verifies, the
  signed byte layouts are unambiguous, and device certificates and provisioning messages
  round-trip.
\<close>

section \<open>Prekeys\<close>

record signed_prekey =
  spk_id :: u32
  spk_public :: dh_public
  spk_created_at_ms :: u64
  spk_signature :: bytes

record one_time_prekey =
  otk_id :: u32
  otk_public :: bytes

record signed_pq_prekey =
  pqk_id :: u32
  pqk_public :: bytes
  pqk_created_at_ms :: u64
  pqk_signature :: bytes

record prekeys =
  pk_signed :: signed_prekey
  pk_one_time :: "one_time_prekey list"
  pq_signed :: "signed_pq_prekey option"
  pq_one_time :: "signed_pq_prekey list"

definition SIGNED_PREKEY_DOMAIN :: bytes where
  "SIGNED_PREKEY_DOMAIN = ascii ''silver-messenger/v2/signed-prekey''"

definition PQ_PREKEY_DOMAIN :: bytes where
  "PQ_PREKEY_DOMAIN = ascii ''silver-messenger/v3/pq-prekey''"

definition KEM_PUBLIC_LEN :: nat where "KEM_PUBLIC_LEN = 1184"

definition spk_signed_bytes :: "u32 \<Rightarrow> dh_public \<Rightarrow> u64 \<Rightarrow> bytes" where
  "spk_signed_bytes i public created_at_ms = be32 i @ public @ be64 created_at_ms"

definition spk_verify :: "crypto \<Rightarrow> signed_prekey \<Rightarrow> user_id \<Rightarrow> unit presult" where
  "spk_verify C k owner =
    user_verify C owner SIGNED_PREKEY_DOMAIN
      (spk_signed_bytes (spk_id k) (spk_public k) (spk_created_at_ms k)) (spk_signature k)"

definition pqk_signed_bytes :: "u32 \<Rightarrow> bytes \<Rightarrow> u64 \<Rightarrow> bytes" where
  "pqk_signed_bytes i public created_at_ms = be32 i @ public @ be64 created_at_ms"

definition pqk_verify :: "crypto \<Rightarrow> signed_pq_prekey \<Rightarrow> user_id \<Rightarrow> unit presult" where
  "pqk_verify C k owner =
    (if length (pqk_public k) \<noteq> KEM_PUBLIC_LEN
     then Err (Malformed (''ML-KEM key of '' @ decimal (length (pqk_public k)) @ '' bytes''))
     else user_verify C owner PQ_PREKEY_DOMAIN
       (pqk_signed_bytes (pqk_id k) (pqk_public k) (pqk_created_at_ms k)) (pqk_signature k))"

definition option_list :: "'a option \<Rightarrow> 'a list" where
  "option_list x = (case x of None \<Rightarrow> [] | Some v \<Rightarrow> [v])"

definition classical :: "signed_prekey \<Rightarrow> one_time_prekey list \<Rightarrow> prekeys" where
  "classical s ot = \<lparr>pk_signed = s, pk_one_time = ot, pq_signed = None, pq_one_time = []\<rparr>"

definition prekeys_verify :: "crypto \<Rightarrow> prekeys \<Rightarrow> user_id \<Rightarrow> unit presult" where
  "prekeys_verify C p owner =
    and_then (spk_verify C (pk_signed p) owner)
      (\<lambda>_. try_for_each (\<lambda>pq. pqk_verify C pq owner) (option_list (pq_signed p) @ pq_one_time p))"

definition pq_key :: "prekeys \<Rightarrow> signed_pq_prekey option" where
  "pq_key p = (case pq_one_time p of k # _ \<Rightarrow> Some k | [] \<Rightarrow> pq_signed p)"

definition prekeys_support_pq :: "prekeys \<Rightarrow> bool" where
  "prekeys_support_pq p \<longleftrightarrow> pq_key p \<noteq> None"

text \<open>The private halves.\<close>

record prekey_secret =
  pks_id :: u32
  pks_secret :: bytes
  pks_created_at_ms :: u64

definition pks_public :: "crypto \<Rightarrow> prekey_secret \<Rightarrow> dh_public" where
  "pks_public C s = x25519_public C (pks_secret s)"

definition pks_signed_by :: "crypto \<Rightarrow> prekey_secret \<Rightarrow> identity \<Rightarrow> signed_prekey" where
  "pks_signed_by C s i =
    \<lparr>spk_id = pks_id s, spk_public = pks_public C s, spk_created_at_ms = pks_created_at_ms s,
     spk_signature = identity_sign C i SIGNED_PREKEY_DOMAIN
       (spk_signed_bytes (pks_id s) (pks_public C s) (pks_created_at_ms s))\<rparr>"

definition pks_one_time :: "crypto \<Rightarrow> prekey_secret \<Rightarrow> one_time_prekey" where
  "pks_one_time C s = \<lparr>otk_id = pks_id s, otk_public = pks_public C s\<rparr>"

record pq_prekey_secret =
  pqs_id :: u32
  pqs_seed :: bytes
  pqs_created_at_ms :: u64

definition pqs_public :: "crypto \<Rightarrow> pq_prekey_secret \<Rightarrow> bytes" where
  "pqs_public C s = mlkem_public C (pqs_seed s)"

definition pqs_signed_by :: "crypto \<Rightarrow> pq_prekey_secret \<Rightarrow> identity \<Rightarrow> signed_pq_prekey" where
  "pqs_signed_by C s i =
    \<lparr>pqk_id = pqs_id s, pqk_public = pqs_public C s, pqk_created_at_ms = pqs_created_at_ms s,
     pqk_signature = identity_sign C i PQ_PREKEY_DOMAIN
       (pqk_signed_bytes (pqs_id s) (pqs_public C s) (pqs_created_at_ms s))\<rparr>"

text \<open>Encapsulation from 32 bytes of randomness, and its inverse.\<close>

definition kem_encapsulate :: "crypto \<Rightarrow> bytes \<Rightarrow> bytes \<Rightarrow> (bytes \<times> bytes) presult" where
  "kem_encapsulate C public m =
    (if length public \<noteq> KEM_PUBLIC_LEN
     then Err (Malformed (''ML-KEM key of '' @ decimal (length public) @ '' bytes''))
     else ok_or (mlkem_encapsulate C public m) (Malformed ''ML-KEM key is not well formed''))"

definition encapsulate_with_rng :: "crypto \<Rightarrow> bytes \<Rightarrow> rng \<Rightarrow> (bytes \<times> bytes) presult \<times> rng" where
  "encapsulate_with_rng C public r =
    (let (m, r') = fill_bytes 32 r in (kem_encapsulate C public m, r'))"

definition kem_decapsulate :: "crypto \<Rightarrow> pq_prekey_secret \<Rightarrow> bytes \<Rightarrow> bytes presult" where
  "kem_decapsulate C s ct =
    ok_or (mlkem_decapsulate C (pqs_seed s) ct)
      (Malformed (''ML-KEM ciphertext of '' @ decimal (length ct) @ '' bytes''))"

section \<open>Lifecycle statements\<close>

definition REVOCATION_DOMAIN :: bytes where
  "REVOCATION_DOMAIN = ascii ''silver-messenger/v4/revocation''"

definition SUCCESSION_DOMAIN :: bytes where
  "SUCCESSION_DOMAIN = ascii ''silver-messenger/v4/succession''"

definition SUCCESSION_ACCEPT_DOMAIN :: bytes where
  "SUCCESSION_ACCEPT_DOMAIN = ascii ''silver-messenger/v4/succession-accept''"

record revocation =
  rev_identity :: user_id
  rev_created_at_ms :: u64
  rev_signature :: bytes

definition rev_signed_bytes :: "user_id \<Rightarrow> u64 \<Rightarrow> bytes" where
  "rev_signed_bytes i created_at_ms = i @ be64 created_at_ms"

definition revocation_verify :: "crypto \<Rightarrow> revocation \<Rightarrow> unit presult" where
  "revocation_verify C r =
    user_verify C (rev_identity r) REVOCATION_DOMAIN
      (rev_signed_bytes (rev_identity r) (rev_created_at_ms r)) (rev_signature r)"

record succession =
  suc_old :: user_id
  suc_new :: user_id
  suc_created_at_ms :: u64
  suc_old_signature :: bytes
  suc_new_signature :: bytes

definition suc_signed_bytes :: "user_id \<Rightarrow> user_id \<Rightarrow> u64 \<Rightarrow> bytes" where
  "suc_signed_bytes old nw created_at_ms = old @ nw @ be64 created_at_ms"

definition succession_verify :: "crypto \<Rightarrow> succession \<Rightarrow> unit presult" where
  "succession_verify C s =
    (if suc_old s = suc_new s then Err (Malformed ''a succession must name a different key'')
     else
       let message = suc_signed_bytes (suc_old s) (suc_new s) (suc_created_at_ms s) in
       and_then (user_verify C (suc_old s) SUCCESSION_DOMAIN message (suc_old_signature s))
         (\<lambda>_. user_verify C (suc_new s) SUCCESSION_ACCEPT_DOMAIN message (suc_new_signature s)))"

definition make_revocation :: "crypto \<Rightarrow> identity \<Rightarrow> u64 \<Rightarrow> revocation" where
  "make_revocation C i created_at_ms =
    (let me = identity_user_id C i in
     \<lparr>rev_identity = me, rev_created_at_ms = created_at_ms,
      rev_signature = identity_sign C i REVOCATION_DOMAIN (rev_signed_bytes me created_at_ms)\<rparr>)"

definition succeed_to :: "crypto \<Rightarrow> identity \<Rightarrow> identity \<Rightarrow> u64 \<Rightarrow> succession" where
  "succeed_to C i nw created_at_ms =
    (let old_id = identity_user_id C i; new_id = identity_user_id C nw;
         message = suc_signed_bytes old_id new_id created_at_ms
     in \<lparr>suc_old = old_id, suc_new = new_id, suc_created_at_ms = created_at_ms,
         suc_old_signature = identity_sign C i SUCCESSION_DOMAIN message,
         suc_new_signature = identity_sign C nw SUCCESSION_ACCEPT_DOMAIN message\<rparr>)"

section \<open>Devices\<close>

definition DEVICE_DOMAIN :: bytes where
  "DEVICE_DOMAIN = ascii ''silver-messenger/v5/device''"

definition DEVICE_COUNTERSIGNATURE_DOMAIN :: bytes where
  "DEVICE_COUNTERSIGNATURE_DOMAIN = ascii ''silver-messenger/v5/device-countersignature''"

definition DEVICE_LIST_DOMAIN :: bytes where
  "DEVICE_LIST_DOMAIN = ascii ''silver-messenger/v5/device-list''"

definition DEVICE_REVOCATION_DOMAIN :: bytes where
  "DEVICE_REVOCATION_DOMAIN = ascii ''silver-messenger/v5/device-revocation''"

definition LINK_KEY_INFO :: bytes where
  "LINK_KEY_INFO = ascii ''silver-messenger/v5/link''"

definition PROVISION_DOMAIN :: bytes where
  "PROVISION_DOMAIN = ascii ''silver-messenger/v5/provision''"

definition MAX_DEVICES :: nat where "MAX_DEVICES = 8"
definition MAX_DEVICE_NAME_BYTES :: nat where "MAX_DEVICE_NAME_BYTES = 32"
definition MAX_PROVISION_BYTES :: nat where "MAX_PROVISION_BYTES = 8 * 1024 * 1024"

record device_certificate =
  dc_account :: user_id
  dc_device :: user_id
  dc_created_at_ms :: u64
  dc_name :: rstr
  dc_signature :: bytes
  dc_device_signature :: "bytes option"

definition is_invisible :: "nat \<Rightarrow> bool" where
  "is_invisible c \<longleftrightarrow>
     c = 0x200B \<or> c = 0x200C \<or> c = 0x200E \<or> c = 0x200F \<or> (0x202A \<le> c \<and> c \<le> 0x202E) \<or>
     (0x2060 \<le> c \<and> c \<le> 0x2064) \<or> (0x2066 \<le> c \<and> c \<le> 0x2069) \<or> c = 0xFEFF"

definition check_name :: "rstr \<Rightarrow> unit presult" where
  "check_name name =
    (if str_len name > MAX_DEVICE_NAME_BYTES then Err (Malformed ''device name too long'')
     else if list_ex is_control name then Err (Malformed ''control character in device name'')
     else Ok ())"

definition check_new_name :: "rstr \<Rightarrow> unit presult" where
  "check_new_name name =
    and_then (check_name name)
      (\<lambda>_. if list_ex is_invisible name then Err (Malformed ''invisible character in device name'')
            else Ok ())"

text \<open>The name's length goes in one byte, clamped to 255.\<close>

definition dc_signed_bytes :: "user_id \<Rightarrow> user_id \<Rightarrow> u64 \<Rightarrow> rstr \<Rightarrow> bytes" where
  "dc_signed_bytes account device created_at_ms name =
    (let len = (if str_len name \<le> 255 then of_nat (str_len name) else 255)
     in account @ device @ be64 created_at_ms @ [len] @ utf8 name)"

abbreviation dc_bytes :: "device_certificate \<Rightarrow> bytes" where
  "dc_bytes c \<equiv> dc_signed_bytes (dc_account c) (dc_device c) (dc_created_at_ms c) (dc_name c)"

definition dc_verify :: "crypto \<Rightarrow> device_certificate \<Rightarrow> unit presult" where
  "dc_verify C c =
    and_then (check_name (dc_name c)) (\<lambda>_.
    if dc_account c = dc_device c
    then Err (Malformed ''a device certificate must name a key other than the account's'')
    else and_then (user_verify C (dc_account c) DEVICE_DOMAIN (dc_bytes c) (dc_signature c)) (\<lambda>_.
      case dc_device_signature c of
        None \<Rightarrow> Ok ()
      | Some countersignature \<Rightarrow>
          user_verify C (dc_device c) DEVICE_COUNTERSIGNATURE_DOMAIN (dc_bytes c) countersignature))"

definition is_countersigned :: "device_certificate \<Rightarrow> bool" where
  "is_countersigned c \<longleftrightarrow> dc_device_signature c \<noteq> None"

definition verify_presented :: "crypto \<Rightarrow> device_certificate \<Rightarrow> unit presult" where
  "verify_presented C c =
    and_then (dc_verify C c) (\<lambda>_.
      if \<not> is_countersigned c
      then Err (Malformed ''the device certificate carries no signature by the device'')
      else Ok ())"

definition dc_encode :: "device_certificate \<Rightarrow> bytes" where
  "dc_encode c = dc_bytes c @ dc_signature c"

definition dc_decode :: "crypto \<Rightarrow> bytes \<Rightarrow> device_certificate presult" where
  "dc_decode C bs =
    (if length bs < 73 + 64 then Err (Malformed ''device certificate: truncated'')
     else
       and_then (user_id_from_bytes C (take 32 bs)) (\<lambda>account.
       and_then (user_id_from_bytes C (take 32 (drop 32 bs))) (\<lambda>device.
       let created_at_ms = from_be64 (take 8 (drop 64 bs));
           name_len = unat (bs ! 72);
           rest = drop 73 bs
       in if length rest \<noteq> name_len + 64 then Err (Malformed ''device certificate: length'')
          else and_then (ok_or (from_utf8 (take name_len rest))
                 (Malformed ''device certificate: name is not UTF-8'')) (\<lambda>name.
               and_then (check_name name) (\<lambda>_.
               Ok \<lparr>dc_account = account, dc_device = device, dc_created_at_ms = created_at_ms,
                   dc_name = name, dc_signature = drop name_len rest,
                   dc_device_signature = None\<rparr>)))))"

record device_revocation =
  dr_account :: user_id
  dr_device :: user_id
  dr_created_at_ms :: u64
  dr_signature :: bytes

definition dr_signed_bytes :: "user_id \<Rightarrow> user_id \<Rightarrow> u64 \<Rightarrow> bytes" where
  "dr_signed_bytes account device created_at_ms = account @ device @ be64 created_at_ms"

definition dr_verify :: "crypto \<Rightarrow> device_revocation \<Rightarrow> unit presult" where
  "dr_verify C r =
    (if dr_account r = dr_device r
     then Err (Malformed ''a device revocation must name a key other than the account's'')
     else user_verify C (dr_account r) DEVICE_REVOCATION_DOMAIN
       (dr_signed_bytes (dr_account r) (dr_device r) (dr_created_at_ms r)) (dr_signature r))"

definition dr_verify_for :: "crypto \<Rightarrow> device_revocation \<Rightarrow> user_id \<Rightarrow> unit presult" where
  "dr_verify_for C r account =
    (if dr_account r \<noteq> account then Err (Malformed ''a device revocation by another account'')
     else dr_verify C r)"

definition certify_device ::
  "crypto \<Rightarrow> identity \<Rightarrow> user_id \<Rightarrow> rstr \<Rightarrow> u64 \<Rightarrow> device_certificate presult" where
  "certify_device C i device name created_at_ms =
    and_then (check_new_name name) (\<lambda>_.
    let account = identity_user_id C i in
    if account = device then Err (Malformed ''an identity does not certify itself as a device'')
    else Ok \<lparr>dc_account = account, dc_device = device, dc_created_at_ms = created_at_ms,
             dc_name = name,
             dc_signature = identity_sign C i DEVICE_DOMAIN
               (dc_signed_bytes account device created_at_ms name),
             dc_device_signature = None\<rparr>)"

definition countersign_device ::
  "crypto \<Rightarrow> identity \<Rightarrow> device_certificate \<Rightarrow> device_certificate presult" where
  "countersign_device C i c =
    (if dc_device c \<noteq> identity_user_id C i
     then Err (Malformed ''a device signs only its own certificate'')
     else and_then (dc_verify C c) (\<lambda>_.
       Ok (c\<lparr>dc_device_signature :=
         Some (identity_sign C i DEVICE_COUNTERSIGNATURE_DOMAIN (dc_bytes c))\<rparr>)))"

definition revoke_device :: "crypto \<Rightarrow> identity \<Rightarrow> user_id \<Rightarrow> u64 \<Rightarrow> device_revocation" where
  "revoke_device C i device created_at_ms =
    (let account = identity_user_id C i in
     \<lparr>dr_account = account, dr_device = device, dr_created_at_ms = created_at_ms,
      dr_signature = identity_sign C i DEVICE_REVOCATION_DOMAIN
        (dr_signed_bytes account device created_at_ms)\<rparr>)"

definition device_list_signed_bytes :: "dh_public \<Rightarrow> device_certificate list \<Rightarrow> bytes" where
  "device_list_signed_bytes dh_public devices =
    dh_public @ be16 (of_nat (length devices)) @
    concat (map (\<lambda>d. dc_device d @ be64 (dc_created_at_ms d)) devices)"

fun out_of_order :: "device_certificate list \<Rightarrow> bool" where
  "out_of_order (a # b # ds) = (dc_device a \<ge> dc_device b \<or> out_of_order (b # ds))"
| "out_of_order _ = False"

definition check_device_list :: "crypto \<Rightarrow> user_id \<Rightarrow> device_certificate list \<Rightarrow> unit presult" where
  "check_device_list C account devices =
    (if length devices > MAX_DEVICES then Err (Malformed ''too many devices'')
     else if out_of_order devices then Err (Malformed ''device list not in ascending order'')
     else try_for_each (\<lambda>d. and_then (dc_verify C d) (\<lambda>_.
       if dc_account d \<noteq> account
       then Err (Malformed ''a listed device is certified by another account'')
       else Ok ())) devices)"

text \<open>Provisioning a device under a key from the link's secret.\<close>

definition link_key :: "crypto \<Rightarrow> bytes \<Rightarrow> bytes" where
  "link_key C secret = hkdf C None secret LINK_KEY_INFO 32"

record provision =
  prov_nonce :: bytes
  prov_ciphertext :: bytes

definition provision_aad :: "user_id \<Rightarrow> bytes" where
  "provision_aad device = PROVISION_DOMAIN @ device"

definition seal_provision_with_rng ::
  "crypto \<Rightarrow> bytes \<Rightarrow> user_id \<Rightarrow> bytes \<Rightarrow> rng \<Rightarrow> provision presult" where
  "seal_provision_with_rng C key device plaintext r =
    (if length plaintext > MAX_PROVISION_BYTES then Err (TooLarge (length plaintext))
     else
       let nonce = fst (fill_bytes 24 r) in
       and_then (ok_or (xchacha_encrypt C key nonce (provision_aad device) plaintext)
           (Malformed ''provisioning seal failed''))
         (\<lambda>c. Ok \<lparr>prov_nonce = nonce, prov_ciphertext = c\<rparr>))"

definition open_provision :: "crypto \<Rightarrow> bytes \<Rightarrow> user_id \<Rightarrow> provision \<Rightarrow> bytes presult" where
  "open_provision C key device p =
    (if length (prov_ciphertext p) > MAX_PROVISION_BYTES + 16
     then Err (TooLarge (length (prov_ciphertext p)))
     else ok_or (xchacha_decrypt C key (prov_nonce p) (provision_aad device) (prov_ciphertext p))
       DecryptFailed)"

section \<open>Key bundles\<close>

definition BUNDLE_DOMAIN :: bytes where
  "BUNDLE_DOMAIN = ascii ''silver-messenger/v1/key-bundle''"

definition BUNDLE_CAPS_DOMAIN :: bytes where
  "BUNDLE_CAPS_DOMAIN = ascii ''silver-messenger/v4/bundle-caps''"

record key_bundle =
  kb_user_id :: user_id
  kb_dh_public :: dh_public
  kb_signature :: bytes
  kb_prekeys :: "prekeys option"
  kb_caps :: "rstr list"
  kb_caps_signature :: "bytes option"
  kb_devices :: "device_certificate list"
  kb_devices_signature :: "bytes option"
  kb_device_of :: "device_certificate option"

text \<open>\<open>join\<close> on the UTF-8 of the names, newline-separated.\<close>

definition caps_signed_bytes :: "dh_public \<Rightarrow> rstr list \<Rightarrow> bytes" where
  "caps_signed_bytes dh_public caps = dh_public @ join_with [10] (map utf8 caps)"

definition is_capability_name :: "rstr \<Rightarrow> bool" where
  "is_capability_name cap \<longleftrightarrow>
     cap \<noteq> [] \<and> list_all (\<lambda>b. is_ascii_lowercase b \<or> is_ascii_digit b \<or> b = 0x5F) (utf8 cap)"

definition bundle_verify :: "crypto \<Rightarrow> key_bundle \<Rightarrow> unit presult" where
  "bundle_verify C b =
    and_then (user_verify C (kb_user_id b) BUNDLE_DOMAIN (kb_dh_public b) (kb_signature b)) (\<lambda>_.
    and_then (case kb_prekeys b of None \<Rightarrow> Ok () | Some p \<Rightarrow> prekeys_verify C p (kb_user_id b)) (\<lambda>_.
    and_then
      (if kb_caps b = [] then Ok ()
       else if \<not> list_all is_capability_name (kb_caps b)
       then Err (Malformed ''a capability name outside [a-z0-9_]'')
       else and_then (ok_or (kb_caps_signature b) InvalidSignature) (\<lambda>signature.
         user_verify C (kb_user_id b) BUNDLE_CAPS_DOMAIN
           (caps_signed_bytes (kb_dh_public b) (kb_caps b)) signature)) (\<lambda>_.
    and_then
      (if kb_devices b = [] then Ok ()
       else and_then (check_device_list C (kb_user_id b) (kb_devices b)) (\<lambda>_.
         and_then (ok_or (kb_devices_signature b) InvalidSignature) (\<lambda>signature.
         user_verify C (kb_user_id b) DEVICE_LIST_DOMAIN
           (device_list_signed_bytes (kb_dh_public b) (kb_devices b)) signature))) (\<lambda>_.
    case kb_device_of b of
      None \<Rightarrow> Ok ()
    | Some c \<Rightarrow>
        and_then (verify_presented C c) (\<lambda>_.
        if dc_device c \<noteq> kb_user_id b
        then Err (Malformed ''the device certificate names another key'')
        else if kb_devices b \<noteq> []
        then Err (Malformed ''a linked device lists no devices of its own'')
        else Ok ())))))"

definition with_devices ::
  "crypto \<Rightarrow> identity \<Rightarrow> device_certificate list \<Rightarrow> key_bundle \<Rightarrow> key_bundle presult" where
  "with_devices C i devices b =
    (let sorted = sort_key dc_device devices in
     if sorted = [] then Ok (b\<lparr>kb_devices := [], kb_devices_signature := None\<rparr>)
     else and_then (check_device_list C (kb_user_id b) sorted) (\<lambda>_.
       Ok (b\<lparr>kb_devices_signature := Some (identity_sign C i DEVICE_LIST_DOMAIN
               (device_list_signed_bytes (kb_dh_public b) sorted)),
             kb_devices := sorted\<rparr>)))"

definition as_device_of :: "device_certificate \<Rightarrow> key_bundle \<Rightarrow> key_bundle" where
  "as_device_of c b = b\<lparr>kb_device_of := Some c\<rparr>"

definition bundle_account :: "key_bundle \<Rightarrow> user_id option" where
  "bundle_account b = map_option dc_account (kb_device_of b)"

definition supports_sessions :: "key_bundle \<Rightarrow> bool" where
  "supports_sessions b \<longleftrightarrow> kb_prekeys b \<noteq> None"

definition supports_post_quantum :: "key_bundle \<Rightarrow> bool" where
  "supports_post_quantum b \<longleftrightarrow>
     (case kb_prekeys b of None \<Rightarrow> False | Some p \<Rightarrow> prekeys_support_pq p)"

definition advertises :: "rstr \<Rightarrow> key_bundle \<Rightarrow> bool" where
  "advertises cap b \<longleftrightarrow> list_ex (\<lambda>c. c = cap) (kb_caps b)"

definition PQ_RATCHET :: rstr where "PQ_RATCHET = lit ''pq_ratchet''"

definition supports_pq_ratchet :: "key_bundle \<Rightarrow> bool" where
  "supports_pq_ratchet b \<longleftrightarrow> supports_post_quantum b \<and> advertises PQ_RATCHET b"

definition without_prekeys :: "key_bundle \<Rightarrow> key_bundle" where
  "without_prekeys b = b\<lparr>kb_prekeys := None\<rparr>"

definition with_caps :: "crypto \<Rightarrow> identity \<Rightarrow> rstr list \<Rightarrow> key_bundle \<Rightarrow> key_bundle" where
  "with_caps C i caps b =
    (if caps = [] then b\<lparr>kb_caps := [], kb_caps_signature := None\<rparr>
     else b\<lparr>kb_caps_signature := Some (identity_sign C i BUNDLE_CAPS_DOMAIN
              (caps_signed_bytes (kb_dh_public b) caps)),
            kb_caps := caps\<rparr>)"

definition identity_key_bundle :: "crypto \<Rightarrow> identity \<Rightarrow> key_bundle" where
  "identity_key_bundle C i =
    (let dh = identity_dh_public C i in
     \<lparr>kb_user_id = identity_user_id C i, kb_dh_public = dh,
      kb_signature = identity_sign C i BUNDLE_DOMAIN dh,
      kb_prekeys = None, kb_caps = [], kb_caps_signature = None,
      kb_devices = [], kb_devices_signature = None, kb_device_of = None\<rparr>)"

definition key_bundle_with :: "crypto \<Rightarrow> identity \<Rightarrow> prekeys \<Rightarrow> key_bundle" where
  "key_bundle_with C i p = (identity_key_bundle C i)\<lparr>kb_prekeys := Some p\<rparr>"

section \<open>What an identity builds verifies\<close>

text \<open>The laws of the signature library, under one name.\<close>

definition signature_laws :: "crypto \<Rightarrow> bool" where
  "signature_laws C \<longleftrightarrow> signatures_verify C \<and> id_points C \<and> signature_length C"

lemma signature_lawsD [simp]:
  "signature_laws C \<Longrightarrow> signatures_verify C" "signature_laws C \<Longrightarrow> id_points C"
  "signature_laws C \<Longrightarrow> signature_length C"
  by (simp_all add: signature_laws_def)

lemma signature_laws_demo [simp]: "signature_laws demo_crypto"
  by (simp add: signature_laws_def)

lemma spk_verify_signed [simp]:
  "signature_laws C \<Longrightarrow> spk_verify C (pks_signed_by C s i) (identity_user_id C i) = Ok ()"
  by (simp add: spk_verify_def pks_signed_by_def)

lemma pqk_verify_signed [simp]:
  "signature_laws C \<Longrightarrow> kem_lengths C \<Longrightarrow> pqk_verify C (pqs_signed_by C s i) (identity_user_id C i) = Ok ()"
  by (simp add: pqk_verify_def pqs_signed_by_def pqs_public_def kem_lengthsD KEM_PUBLIC_LEN_def)

lemma set_option_list [simp]: "set (option_list x) = set_option x"
  by (cases x) (simp_all add: option_list_def)

lemma out_of_order_iff: "\<not> out_of_order ds \<longleftrightarrow> sorted_wrt (<) (map dc_device ds)"
  by (induction ds rule: out_of_order.induct) (auto simp: not_le intro: less_trans)

lemma sorted_distinct_ascending:
  "distinct (map dc_device ds) \<Longrightarrow> \<not> out_of_order (sort_key dc_device ds)"
  by (simp add: out_of_order_iff strict_sorted_iff distinct_map)

lemma certified_device_verifies:
  assumes "signature_laws C" "certify_device C i device name t = Ok c"
  shows "dc_verify C c = Ok () \<and> dc_account c = identity_user_id C i \<and> dc_device c = device"
  using assms
  by (auto simp: certify_device_def check_new_name_def dc_verify_def Let_def split: if_splits)

lemma certify_device_fields:
  assumes "certify_device C i device name t = Ok c"
  shows "dc_account c = identity_user_id C i" "dc_device c = device" "dc_name c = name"
    "check_name name = Ok ()" "dc_device_signature c = None"
    "\<exists>m. dc_signature c = ed25519_sign C (signing i) m"
  using assms
  by (auto simp: certify_device_def check_new_name_def identity_sign_def Let_def split: if_splits)

lemma check_device_list_Ok_iff:
  "check_device_list C account ds = Ok () \<longleftrightarrow>
    length ds \<le> MAX_DEVICES \<and> sorted_wrt (<) (map dc_device ds) \<and>
    (\<forall>d\<in>set ds. dc_verify C d = Ok () \<and> dc_account d = account)"
  by (auto simp: check_device_list_def out_of_order_iff [symmetric])

lemma prekeys_verify_signed:
  assumes "signature_laws C" "kem_lengths C"
  shows "prekeys_verify C
    \<lparr>pk_signed = pks_signed_by C s i, pk_one_time = ot, pq_signed = map_option (\<lambda>q. pqs_signed_by C q i) q,
     pq_one_time = map (\<lambda>q. pqs_signed_by C q i) qs\<rparr> (identity_user_id C i) = Ok ()"
  using assms by (auto simp: prekeys_verify_def option.set_map)

section \<open>Unambiguous layouts\<close>

lemma append_sep_eq:
  assumes "sep \<notin> set x" "sep \<notin> set y" "x @ sep # u = y @ sep # v"
  shows "x = y \<and> u = v"
  using assms
proof (induction x arbitrary: y)
  case Nil
  then show ?case by (cases y) auto
next
  case (Cons a x)
  then show ?case by (cases y) auto
qed

lemma join_with_no_sep: "join_with [sep] (x # y # ys) = join_with [sep] [z] \<Longrightarrow> sep \<in> set z"
  by (metis append_Cons in_set_conv_decomp join_with.simps(2,3) append_Nil)

lemma join_with_inj:
  assumes "\<forall>x\<in>set xs \<union> set ys. sep \<notin> set x \<and> x \<noteq> []" "join_with [sep] xs = join_with [sep] ys"
  shows "xs = ys"
  using assms
proof (induction xs arbitrary: ys)
  case Nil
  then show ?case by (cases "([sep], ys)" rule: join_with.cases) auto
next
  case (Cons x xs)
  show ?case
  proof (cases xs)
    case Nil
    show ?thesis
    proof (cases "([sep], ys)" rule: join_with.cases)
      case (3 s y y' ys')
      with Cons.prems Nil have "sep \<in> set x" by (intro join_with_no_sep) simp
      with Cons.prems show ?thesis by simp
    qed (use Nil Cons.prems in auto)
  next
    case (Cons x' xs')
    note xs = this
    show ?thesis
    proof (cases "([sep], ys)" rule: join_with.cases)
      case (2 s y)
      with Cons.prems(2) xs have "y = x @ sep # join_with [sep] (x' # xs')" by simp
      then have "sep \<in> set y" by simp
      with Cons.prems 2 show ?thesis by simp
    next
      case (3 s y y' ys')
      then have ys: "ys = y # y' # ys'" by simp
      have eq: "x @ sep # join_with [sep] xs = y @ sep # join_with [sep] (y' # ys')"
        using Cons.prems(2) xs ys by simp
      have "x = y \<and> join_with [sep] xs = join_with [sep] (y' # ys')"
        by (rule append_sep_eq [OF _ _ eq]) (use Cons.prems(1) ys in simp_all)
      moreover have "xs = y' # ys'"
        by (rule Cons.IH) (use Cons.prems(1) ys calculation in simp_all)
      ultimately show ?thesis using ys by simp
    qed (use xs Cons.prems in auto)
  qed
qed

lemma capability_name_bytes:
  "is_capability_name cap \<Longrightarrow> 10 \<notin> set (utf8 cap) \<and> utf8 cap \<noteq> []"
proof -
  assume cap: "is_capability_name cap"
  then have "10 \<notin> set (utf8 cap)"
    by (auto simp: is_capability_name_def list_all_iff is_ascii_lowercase_def is_ascii_digit_def)
  moreover have "utf8 cap \<noteq> []"
    using cap by (cases cap) (auto simp: is_capability_name_def utf8_def utf8_nat_def)
  ultimately show ?thesis by simp
qed

section \<open>The certificate format\<close>

definition dc_valid :: "crypto \<Rightarrow> device_certificate \<Rightarrow> bool" where
  "dc_valid C c \<longleftrightarrow>
     length (dc_account c) = 32 \<and> user_id_from_bytes C (dc_account c) = Ok (dc_account c) \<and>
     length (dc_device c) = 32 \<and> user_id_from_bytes C (dc_device c) = Ok (dc_device c) \<and>
     valid_text (dc_name c) \<and> check_name (dc_name c) = Ok () \<and> length (dc_signature c) = 64"

lemma check_name_len: "check_name name = Ok () \<Longrightarrow> str_len name \<le> 32"
  by (simp add: check_name_def MAX_DEVICE_NAME_BYTES_def split: if_splits)

lemma unat_of_nat_len: "n \<le> 255 \<Longrightarrow> unat (of_nat n :: u8) = n"
  by (simp add: unat_of_nat_u8)

lemma dc_decode_encode:
  assumes "dc_valid C c"
  shows "dc_decode C (dc_encode c) = Ok (c\<lparr>dc_device_signature := None\<rparr>)"
proof -
  let ?n = "utf8 (dc_name c)"
  have len: "length ?n \<le> 32" using assms check_name_len by (simp add: dc_valid_def str_len_def)
  let ?tail = "?n @ dc_signature c"
  have enc: "dc_encode c = dc_account c @ dc_device c @ be64 (dc_created_at_ms c) @
      [of_nat (length ?n)] @ ?tail"
    using len by (simp add: dc_encode_def dc_signed_bytes_def str_len_def Let_def)
  have lens: "length (dc_account c) = 32" "length (dc_device c) = 32" "length (dc_signature c) = 64"
    using assms by (simp_all add: dc_valid_def)
  have parts: "take 32 (dc_encode c) = dc_account c" "take 32 (drop 32 (dc_encode c)) = dc_device c"
    "take 8 (drop 64 (dc_encode c)) = be64 (dc_created_at_ms c)" "drop 73 (dc_encode c) = ?tail"
    "dc_encode c ! 72 = of_nat (length ?n)" "length (dc_encode c) = 137 + length ?n"
    unfolding enc by (simp_all add: lens nth_append)
  have n: "unat (of_nat (length ?n) :: u8) = length ?n" using len by (simp add: unat_of_nat_len)
  show ?thesis
    using assms from_utf8_utf8 [of "dc_name c"]
    by (simp add: dc_decode_def Let_def parts n lens dc_valid_def)
qed

lemma dc_encode_decode:
  assumes "dc_decode C bs = Ok c"
  shows "dc_encode c = bs \<and> dc_valid C c \<and> dc_device_signature c = None"
proof -
  let ?rest = "drop 73 bs" and ?nl = "unat (bs ! 72)"
  from assms have len: "137 \<le> length bs" and rest: "length ?rest = ?nl + 64"
    and acc: "user_id_from_bytes C (take 32 bs) = Ok (dc_account c)"
    and dev: "user_id_from_bytes C (take 32 (drop 32 bs)) = Ok (dc_device c)"
    and created: "dc_created_at_ms c = from_be64 (take 8 (drop 64 bs))"
    and name: "from_utf8 (take ?nl ?rest) = Some (dc_name c)" "check_name (dc_name c) = Ok ()"
    and sig: "dc_signature c = drop ?nl ?rest" "dc_device_signature c = None"
    by (auto simp: dc_decode_def Let_def split: if_splits)
  have ids: "dc_account c = take 32 bs" "dc_device c = take 32 (drop 32 bs)"
    using acc dev by (auto simp: user_id_from_bytes_def split: if_splits)
  have utf: "valid_text (dc_name c)" "utf8 (dc_name c) = take ?nl ?rest"
    using utf8_from_utf8 [OF name(1)] by auto
  have nl: "str_len (dc_name c) = ?nl" using rest by (simp add: str_len_def utf(2))
  have "?nl \<le> 255" using unat_u8_less [of "bs ! 72"] by simp
  have b: "be64 (from_be64 (take 8 (drop 64 bs))) = take 8 (drop 64 bs)"
  proof -
    have "length (take 8 (drop 64 bs)) = 8" using len by simp
    then show ?thesis
      using be_bytes_from_be [of "take 8 (drop 64 bs)"] from_be_less [of "take 8 (drop 64 bs)"]
      by (simp add: be64_def from_be64_def unat_of_nat)
  qed
  have "bs = take 32 bs @ take 32 (drop 32 bs) @ take 8 (drop 64 bs) @ [bs ! 72] @ drop 73 bs"
  proof -
    have "drop 72 bs = bs ! 72 # drop 73 bs" using Cons_nth_drop_Suc [of 72 bs] len by simp
    moreover have "drop 64 bs = take 8 (drop 64 bs) @ drop 72 bs"
      using append_take_drop_id [of 8 "drop 64 bs"] by simp
    moreover have "drop 32 bs = take 32 (drop 32 bs) @ drop 64 bs"
      using append_take_drop_id [of 32 "drop 32 bs"] by simp
    ultimately show ?thesis using append_take_drop_id [of 32 bs] by simp
  qed
  moreover have "drop 73 bs = utf8 (dc_name c) @ dc_signature c"
    unfolding utf(2) sig(1) by (rule append_take_drop_id [symmetric])
  moreover have "of_nat (str_len (dc_name c)) = bs ! 72" by (simp add: nl)
  ultimately have "dc_encode c = bs"
    using \<open>?nl \<le> 255\<close> by (simp add: dc_encode_def dc_signed_bytes_def Let_def nl ids created b)
  moreover have "dc_valid C c"
    using acc dev ids utf name len rest sig
    by (simp add: dc_valid_def user_id_from_bytes_def split: if_splits)
  ultimately show ?thesis using sig(2) by simp
qed

interpretation certificates: codec dc_encode "dc_decode C" "dc_valid C" "\<lambda>c. c\<lparr>dc_device_signature := None\<rparr>" for C
  by unfold_locales (rule dc_decode_encode)

section \<open>Properties\<close>

text \<open>
  C20. Functional correctness of publishing. A bundle an identity builds from its own prekey
  secrets, a list of well-formed capability names and certificates it issued for at most
  eight different devices is accepted by every reader's check, and what it lists is what was
  given, in ascending device order.
\<close>

theorem built_bundle_verifies:
  assumes "signature_laws C" "kem_lengths C"
    and "p = \<lparr>pk_signed = pks_signed_by C s i, pk_one_time = ot,
              pq_signed = map_option (\<lambda>q. pqs_signed_by C q i) q,
              pq_one_time = map (\<lambda>q. pqs_signed_by C q i) qs\<rparr>"
    and "\<forall>c\<in>set caps. is_capability_name c"
    and "\<forall>d\<in>set ds. \<exists>device name t. certify_device C i device name t = Ok d"
    and "distinct (map dc_device ds)" "length ds \<le> 8"
  shows "\<exists>b. with_devices C i ds (with_caps C i caps (key_bundle_with C i p)) = Ok b \<and>
    bundle_verify C b = Ok () \<and> kb_caps b = caps \<and> kb_devices b = sort_key dc_device ds \<and>
    kb_prekeys b = Some p"
proof -
  let ?me = "identity_user_id C i" and ?ds = "sort_key dc_device ds"
  let ?b = "with_caps C i caps (key_bundle_with C i p)"
  have list: "check_device_list C ?me ?ds = Ok ()"
    using assms(5-7) sorted_distinct_ascending certified_device_verifies [OF assms(1)]
    by (fastforce simp: check_device_list_Ok_iff out_of_order_iff MAX_DEVICES_def)
  have fields: "kb_user_id ?b = ?me" "kb_dh_public ?b = identity_dh_public C i"
    "kb_signature ?b = identity_sign C i BUNDLE_DOMAIN (identity_dh_public C i)"
    "kb_prekeys ?b = Some p" "kb_caps ?b = caps" "kb_device_of ?b = None"
    "caps \<noteq> [] \<Longrightarrow> kb_caps_signature ?b =
      Some (identity_sign C i BUNDLE_CAPS_DOMAIN (caps_signed_bytes (identity_dh_public C i) caps))"
    by (simp_all add: with_caps_def key_bundle_with_def identity_key_bundle_def Let_def)
  have pk: "prekeys_verify C p ?me = Ok ()"
    unfolding assms(3) by (rule prekeys_verify_signed [OF assms(1,2)])
  have caps: "list_all is_capability_name caps" using assms(4) by (simp add: list_all_iff)
  show ?thesis
  proof (cases "ds = []")
    case True
    then have "with_devices C i ds ?b = Ok (?b\<lparr>kb_devices := [], kb_devices_signature := None\<rparr>)"
      by (simp add: with_devices_def)
    with True show ?thesis
      using assms(1) pk caps by (auto simp: bundle_verify_def fields)
  next
    case False
    then have ne: "?ds \<noteq> []" by (metis length_0_conv length_sort)
    let ?b' = "?b\<lparr>kb_devices_signature := Some (identity_sign C i DEVICE_LIST_DOMAIN
        (device_list_signed_bytes (identity_dh_public C i) ?ds)), kb_devices := ?ds\<rparr>"
    have "with_devices C i ds ?b = Ok ?b'"
      using ne list by (simp add: with_devices_def Let_def fields)
    moreover have "bundle_verify C ?b' = Ok ()"
      using assms(1) pk caps list ne by (auto simp: bundle_verify_def fields)
    ultimately show ?thesis by (simp add: fields)
  qed
qed

text \<open>A concrete identity with one prekey, one capability and one device.\<close>

definition demo_identity :: "u8 \<Rightarrow> identity" where
  "demo_identity n = \<lparr>signing = [n], dh_current = [n], dh_previous = None\<rparr>"

definition demo_certificate :: device_certificate where
  "demo_certificate =
    (case certify_device demo_crypto (demo_identity 1) (identity_user_id demo_crypto (demo_identity 2)) (lit ''pc'') 7 of
       Ok c \<Rightarrow> c | _ \<Rightarrow> undefined)"

lemma demo_ids: "identity_user_id demo_crypto (demo_identity n) = n # replicate 31 0"
  by (simp add: identity_user_id_def demo_identity_def demo_crypto_def fit_def eval_nat_numeral)

lemma demo_certified: "certify_device demo_crypto (demo_identity 1)
    (identity_user_id demo_crypto (demo_identity 2)) (lit ''pc'') 7 = Ok demo_certificate"
proof -
  have "check_new_name (lit ''pc'') = Ok ()"
    by (simp add: check_new_name_def check_name_def lit_def str_len_def utf8_def utf8_nat_def utf8_char_def
        MAX_DEVICE_NAME_BYTES_def is_control_def is_invisible_def)
  then show ?thesis by (simp add: demo_certificate_def certify_device_def Let_def demo_ids)
qed

theorem built_bundle_verifies_witness:
  "\<exists>b. with_devices demo_crypto (demo_identity 1) [demo_certificate]
      (with_caps demo_crypto (demo_identity 1) [PQ_RATCHET]
        (key_bundle_with demo_crypto (demo_identity 1)
          \<lparr>pk_signed = pks_signed_by demo_crypto \<lparr>pks_id = 1, pks_secret = [3], pks_created_at_ms = 5\<rparr> (demo_identity 1),
           pk_one_time = [], pq_signed = None, pq_one_time = []\<rparr>)) = Ok b \<and>
    bundle_verify demo_crypto b = Ok ()"
proof -
  have cap: "is_capability_name PQ_RATCHET"
    by (simp add: is_capability_name_def PQ_RATCHET_def lit_def utf8_def utf8_nat_def utf8_char_def
        is_ascii_lowercase_def is_ascii_digit_def)
  show ?thesis
    using built_bundle_verifies [OF signature_laws_demo demo_crypto_laws(8) refl, where i = "demo_identity 1"
        and s = "\<lparr>pks_id = 1, pks_secret = [3], pks_created_at_ms = 5\<rparr>" and ot = "[]" and q = None
        and qs = "[]" and caps = "[PQ_RATCHET]" and ds = "[demo_certificate]"] cap demo_certified
    by auto
qed

text \<open>
  C27. Safety. The bytes signed for a capability list determine the list: two lists of
  well-formed names with equal signed bytes under 32-byte keys are the same list of the same
  bundle key, so a relay cannot re-cut a signed list into other capabilities.
\<close>

theorem caps_signature_unambiguous:
  assumes "\<forall>c\<in>set caps \<union> set caps'. is_capability_name c \<and> valid_text c"
    and "length dh = 32" "length dh' = 32"
    and "caps_signed_bytes dh caps = caps_signed_bytes dh' caps'"
  shows "dh = dh' \<and> caps = caps'"
proof -
  have eq: "dh = dh'" "join_with [10] (map utf8 caps) = join_with [10] (map utf8 caps')"
    using assms(2-4) by (auto simp: caps_signed_bytes_def)
  have "map utf8 caps = map utf8 caps'"
    by (rule join_with_inj [OF _ eq(2)]) (use assms(1) capability_name_bytes in auto)
  then have "caps = caps'"
    using assms(1) by (intro map_inj_on [of utf8 caps caps'] inj_onI) (auto intro: utf8_inj)
  with eq show ?thesis by simp
qed

theorem caps_signature_unambiguous_witness:
  "caps_signed_bytes (replicate 32 1) [lit ''a'', lit ''b''] \<noteq> caps_signed_bytes (replicate 32 1) [lit ''ab'']"
proof
  assume eq: "caps_signed_bytes (replicate 32 1) [lit ''a'', lit ''b''] = caps_signed_bytes (replicate 32 1) [lit ''ab'']"
  have "\<forall>c\<in>set [lit ''a'', lit ''b''] \<union> set [lit ''ab'']. is_capability_name c \<and> valid_text c"
    by (simp add: is_capability_name_def lit_def utf8_def utf8_nat_def utf8_char_def
        is_ascii_lowercase_def valid_text_def scalar_def)
  from caps_signature_unambiguous [OF this _ _ eq] show False by simp
qed

text \<open>
  C28. Round trip. A device certificate written for the MLS leaf reads back as itself without
  the device's own signature, and the reader accepts only what the writer writes: bytes that
  decode are the encoding of what they decode to, so there is one encoding per certificate.
\<close>

theorem device_certificate_roundtrip:
  "(dc_valid C c \<longrightarrow> dc_decode C (dc_encode c) = Ok (c\<lparr>dc_device_signature := None\<rparr>)) \<and>
   (dc_decode C bs = Ok d \<longrightarrow> dc_encode d = bs \<and> dc_valid C d)"
  using certificates.dec_enc dc_encode_decode by blast

theorem device_certificate_roundtrip_witness:
  "dc_decode demo_crypto (dc_encode demo_certificate) = Ok demo_certificate"
proof -
  have "is_canonical_y (n # replicate 31 0)" for n
  proof -
    have "canonical_from (Suc 31) ((n # replicate 31 0)[31 := 0]) field_prime_bytes"
      unfolding canonical_from.simps by (simp add: field_prime_bytes_def)
    then show ?thesis by (simp add: is_canonical_y_def)
  qed
  then have pts: "user_id_from_bytes demo_crypto (n # replicate 31 0) = Ok (n # replicate 31 0)" for n
    by (simp add: user_id_from_bytes_def demo_crypto_def)
  have "dc_valid demo_crypto demo_certificate \<and> dc_device_signature demo_certificate = None"
    using certify_device_fields [OF demo_certified]
    by (auto simp: dc_valid_def demo_ids pts valid_text_def scalar_def lit_def)
  moreover from this have "demo_certificate\<lparr>dc_device_signature := None\<rparr> = demo_certificate" by simp
  ultimately show ?thesis using device_certificate_roundtrip [of demo_crypto demo_certificate "[]" demo_certificate] by simp
qed

text \<open>
  C29. Round trip and error behaviour of provisioning. What is sealed for a device opens
  under the same key for that device, and the size bound is the same on both sides: a
  plaintext over the limit is refused before sealing, and no sealed message is too large to
  open.
\<close>

theorem provision_roundtrip:
  assumes "aead_inverts C" "aead_tag C"
  shows "case seal_provision_with_rng C key device m r of
      Ok p \<Rightarrow> open_provision C key device p = Ok m \<and> length m \<le> MAX_PROVISION_BYTES
    | Err e \<Rightarrow> e = TooLarge (length m) \<and> length m > MAX_PROVISION_BYTES \<or>
        xchacha_encrypt C key (fst (fill_bytes 24 r)) (provision_aad device) m = None
    | Panic \<Rightarrow> False"
proof (cases "xchacha_encrypt C key (fst (fill_bytes 24 r)) (provision_aad device) m")
  case None
  then show ?thesis by (simp add: seal_provision_with_rng_def Let_def)
next
  case (Some c)
  with aead_invertsD [OF assms(1) Some] aead_tagD [OF assms(2) Some] show ?thesis
    by (simp add: seal_provision_with_rng_def open_provision_def Let_def)
qed

theorem provision_roundtrip_witness:
  "\<exists>p. seal_provision_with_rng demo_crypto [1] [2] [3, 4] (sconst 0) = Ok p \<and>
     open_provision demo_crypto [1] [2] p = Ok [3, 4]"
  using provision_roundtrip [OF demo_crypto_laws(5,6), where key = "[1]" and device = "[2]" and m = "[3, 4]" and r = "sconst 0"]
  by (auto simp: seal_provision_with_rng_def Let_def demo_crypto_def MAX_PROVISION_BYTES_def)

end
