(* ===== verification/EnvelopeTypes.thy ===== *)
theory EnvelopeTypes
  imports Identity
begin

text \<open>
  The sealed envelope of \<^verbatim>\<open>silver-protocol/src/envelope.rs\<close> as the relay and both endpoints
  see it, and its JSON form. serde_json is a library, so writing and reading JSON are
  parameters; \<open>json_reads_back\<close> is what the code relies on.
\<close>

record envelope =
  env_id :: rstr
  env_to :: user_id
  ephemeral_public :: dh_public
  env_nonce :: bytes
  ciphertext :: bytes

definition MAX_BODY_BYTES :: nat where "MAX_BODY_BYTES = 32 * 1024"
definition MAX_CIPHERTEXT_BYTES :: nat where "MAX_CIPHERTEXT_BYTES = MAX_BODY_BYTES + 96 + 16 + 1024"

record 'a json =
  to_json :: "'a \<Rightarrow> bytes"
  of_json :: "bytes \<Rightarrow> 'a option"

definition json_reads_back :: "'a json \<Rightarrow> bool" where
  "json_reads_back J \<longleftrightarrow> (\<forall>x. of_json J (to_json J x) = Some x)"

lemma json_reads_backD [simp]: "json_reads_back J \<Longrightarrow> of_json J (to_json J x) = Some x"
  by (simp add: json_reads_back_def)

lemma to_json_inj [simp]: "json_reads_back J \<Longrightarrow> to_json J x = to_json J y \<longleftrightarrow> x = y"
  by (metis json_reads_backD option.inject)

text \<open>
  A concrete reader and writer for which the law holds: a value as a list of lists of
  numbers, each number in unary, 2 after each number and 3 after each list.
\<close>

definition put_fields :: "nat list list \<Rightarrow> bytes" where
  "put_fields xss = concat (map (\<lambda>xs. concat (map (\<lambda>n. replicate n 1 @ [2]) xs) @ [3]) xss)"

fun get_fields :: "bytes \<Rightarrow> nat \<Rightarrow> nat list \<Rightarrow> nat list list \<Rightarrow> nat list list option" where
  "get_fields [] n xs xss = (if n = 0 \<and> xs = [] then Some (rev xss) else None)"
| "get_fields (b # bs) n xs xss =
    (if b = 1 then get_fields bs (Suc n) xs xss
     else if b = 2 then get_fields bs 0 (n # xs) xss
     else if b = 3 then get_fields bs 0 [] (rev xs # xss)
     else None)"

lemma get_fields_unary: "get_fields (replicate m 1 @ bs) n xs xss = get_fields bs (n + m) xs xss"
  by (induction m arbitrary: n) auto

lemma get_fields_list:
  "get_fields (concat (map (\<lambda>n. replicate n 1 @ [2]) ys) @ bs) 0 xs xss = get_fields bs 0 (rev ys @ xs) xss"
  by (induction ys arbitrary: xs) (auto simp: get_fields_unary)

lemma get_fields_put: "get_fields (put_fields yss) 0 [] xss = Some (rev xss @ yss)"
  by (induction yss arbitrary: xss) (auto simp: put_fields_def get_fields_list)

definition demo_json :: "('a \<Rightarrow> nat list list) \<Rightarrow> (nat list list \<Rightarrow> 'a) \<Rightarrow> 'a json" where
  "demo_json to from = \<lparr>to_json = put_fields \<circ> to,
     of_json = (\<lambda>bs. map_option from (get_fields bs 0 [] []))\<rparr>"

lemma demo_json_reads_back: "(\<And>x. from (to x) = x) \<Longrightarrow> json_reads_back (demo_json to from)"
  by (simp add: json_reads_back_def demo_json_def get_fields_put)

definition demo_envelope_json :: "envelope json" where
  "demo_envelope_json = demo_json
    (\<lambda>e. [env_id e, map unat (env_to e), map unat (ephemeral_public e), map unat (env_nonce e),
          map unat (ciphertext e)])
    (\<lambda>xs. \<lparr>env_id = xs ! 0, env_to = map of_nat (xs ! 1), ephemeral_public = map of_nat (xs ! 2),
            env_nonce = map of_nat (xs ! 3), ciphertext = map of_nat (xs ! 4)\<rparr>)"

lemma demo_envelope_reads_back: "json_reads_back demo_envelope_json"
  unfolding demo_envelope_json_def by (rule demo_json_reads_back) (simp add: comp_def)

end
