(* ===== verification/RelayMailbox.thy ===== *)
theory RelayMailbox
  imports EnvelopeTypes
begin

text \<open>
  The mailboxes of \<^verbatim>\<open>silver-relay/src/store.rs\<close>: the tables MAILBOX, BY_ID and USAGE and
  the counters NEXT_SEQ and MAILBOX_BYTES, with \<open>enqueue\<close>, \<open>queued_from\<close>, \<open>ack\<close>,
  \<open>expire\<close> and the mailbox part of \<open>remove_user_data\<close>.

  An operation is one write transaction: it returns the new tables, or an error or a panic,
  in which case the transaction is dropped and the tables stay as they were. A MAILBOX
  value is the bytes the code stores: eight bytes of arrival time, then the envelope's JSON.

  The abstract view is \<open>letters_of J s u\<close>, the envelopes waiting for \<open>u\<close> with the time
  each arrived, oldest first.
  The operations are shown to append to it, to take one envelope out of it by id, and to
  filter it by age; the counters are shown to be the exact counts and sums of what is
  stored, in every reachable state.
\<close>

section \<open>State\<close>

record mailbox_state =
  mailbox :: "(bytes \<times> nat, bytes) table"
  by_id :: "(rstr, bytes \<times> nat) table"
  usage :: "(bytes, nat \<times> nat) table"
  next_seq :: nat
  mailbox_bytes :: nat

record limits =
  max_messages :: nat
  max_bytes :: nat
  max_total_bytes :: nat

definition default_limits :: limits where
  "default_limits = \<lparr>max_messages = 1000, max_bytes = 32 * 1024 * 1024,
                     max_total_bytes = 4 * 1024 * 1024 * 1024\<rparr>"

datatype enqueue_outcome = Stored | Duplicate | MailboxFull | StorageFull

datatype store_error = Corrupt string

definition empty_mailbox :: mailbox_state where
  "empty_mailbox = \<lparr>mailbox = RBT.empty, by_id = RBT.empty, usage = RBT.empty,
                    next_seq = 0, mailbox_bytes = 0\<rparr>"

section \<open>Operations\<close>

definition decode_entry :: "envelope json \<Rightarrow> bytes \<Rightarrow> (u64 \<times> envelope, store_error) res" where
  "decode_entry J bs =
    (if length bs < 8 then Err (Corrupt ''mailbox entry shorter than its timestamp'')
     else and_then (ok_or (of_json J (drop 8 bs)) (Corrupt ''json''))
            (\<lambda>e. Ok (from_be64 (take 8 bs), e)))"

definition usage_of :: "mailbox_state \<Rightarrow> bytes \<Rightarrow> nat \<times> nat" where
  "usage_of s user = (case tget (usage s) user of None \<Rightarrow> (0, 0) | Some u \<Rightarrow> u)"

definition enqueue ::
  "envelope json \<Rightarrow> envelope \<Rightarrow> u64 \<Rightarrow> limits \<Rightarrow> mailbox_state \<Rightarrow>
   (enqueue_outcome \<times> mailbox_state, store_error) res" where
  "enqueue J e now_ms limits s =
    (let value = be64 now_ms @ to_json J e; size = length value; user = env_to e in
     if tget (by_id s) (env_id e) \<noteq> None then Ok (Duplicate, s)
     else
       let (count, bytes) = usage_of s user;
           total = mailbox_bytes s;
           over_count = (max_messages limits > 0 \<and> count \<ge> max_messages limits);
           over_bytes = (max_bytes limits > 0 \<and> sat_add64 bytes size > max_bytes limits)
       in if over_count \<or> over_bytes then Ok (MailboxFull, s)
          else if max_total_bytes limits > 0 \<and> sat_add64 total size > max_total_bytes limits
          then Ok (StorageFull, s)
          else
            let seq = next_seq s in
            (case (add64 seq 1, add64 total size, add64 count 1, add64 bytes size) of
               (Some seq', Some total', Some count', Some bytes') \<Rightarrow>
                 Ok (Stored,
                     s\<lparr>next_seq := seq',
                       mailbox_bytes := total',
                       mailbox := tput (user, seq) value (mailbox s),
                       by_id := tput (env_id e) (user, seq) (by_id s),
                       usage := tput user (count', bytes') (usage s)\<rparr>)
             | _ \<Rightarrow> Panic))"

definition queued_from ::
  "envelope json \<Rightarrow> bytes \<Rightarrow> nat \<Rightarrow> nat \<Rightarrow> mailbox_state \<Rightarrow>
   ((nat \<times> envelope) list, store_error) res" where
  "queued_from J user from limit s =
    try_map (\<lambda>((_, seq), v). and_then (decode_entry J v) (\<lambda>(_, e). Ok (seq, e)))
      (take limit (trange (\<lambda>(o', seq). o' = user \<and> from \<le> seq) (mailbox s)))"

definition usize_max :: nat where "usize_max = 2 ^ 64 - 1"

definition queued :: "envelope json \<Rightarrow> bytes \<Rightarrow> mailbox_state \<Rightarrow> (envelope list, store_error) res" where
  "queued J user s = and_then (queued_from J user 0 usize_max s) (\<lambda>xs. Ok (map snd xs))"

definition queued_count :: "bytes \<Rightarrow> mailbox_state \<Rightarrow> nat" where
  "queued_count user s = fst (usage_of s user)"

definition take_from :: "nat \<Rightarrow> mailbox_state \<Rightarrow> mailbox_state" where
  "take_from amount s = s\<lparr>mailbox_bytes := mailbox_bytes s - amount\<rparr>"

definition adjust_usage :: "bytes \<Rightarrow> nat \<Rightarrow> nat \<Rightarrow> mailbox_state \<Rightarrow> mailbox_state" where
  "adjust_usage owner fewer_messages fewer_bytes s =
    (let (count, bytes) = usage_of s owner;
         next = (count - fewer_messages, bytes - fewer_bytes)
     in s\<lparr>usage := (if fst next = 0 then tdel owner (usage s) else tput owner next (usage s))\<rparr>)"

definition ack :: "bytes \<Rightarrow> rstr \<Rightarrow> mailbox_state \<Rightarrow> bool \<times> mailbox_state" where
  "ack user i s =
    (case tget (by_id s) i of
       Some (owner, seq) \<Rightarrow>
         if owner = user then
           let size = (case tget (mailbox s) (owner, seq) of None \<Rightarrow> 0 | Some v \<Rightarrow> length v);
               s1 = s\<lparr>by_id := tdel i (by_id s), mailbox := tdel (owner, seq) (mailbox s)\<rparr>;
               s2 = adjust_usage owner 1 size s1
           in (True, take_from size s2)
         else (False, s)
     | None \<Rightarrow> (False, s))"

text \<open>\<open>expire\<close>: the victims are listed first, then each is removed, all in one transaction.\<close>

definition expire_victims ::
  "envelope json \<Rightarrow> u64 \<Rightarrow> mailbox_state \<Rightarrow> ((bytes \<times> nat \<times> rstr) list, store_error) res" where
  "expire_victims J cutoff_ms s =
    and_then (try_map (\<lambda>((owner, seq), v).
        and_then (decode_entry J v) (\<lambda>(at, e). Ok (at, owner, seq, env_id e)))
      (RBT.entries (mailbox s)))
     (\<lambda>xs. Ok (map snd (filter (\<lambda>(at, _). at < cutoff_ms) xs)))"

fun expire_loop :: "(bytes \<times> nat \<times> rstr) list \<Rightarrow> nat \<times> mailbox_state \<Rightarrow> nat \<times> mailbox_state" where
  "expire_loop [] (removed, s) = (removed, s)"
| "expire_loop ((owner, seq, i) # vs) (removed, s) =
    (case tget (mailbox s) (owner, seq) of
       None \<Rightarrow> expire_loop vs (removed, s)
     | Some gone \<Rightarrow>
         let size = length gone;
             s1 = s\<lparr>mailbox := tdel (owner, seq) (mailbox s)\<rparr>;
             s2 = (if tget (by_id s1) i = Some (owner, seq)
                   then s1\<lparr>by_id := tdel i (by_id s1)\<rparr> else s1);
             s3 = take_from size (adjust_usage owner 1 size s2)
         in expire_loop vs (removed + 1, s3))"

definition expire ::
  "envelope json \<Rightarrow> u64 \<Rightarrow> mailbox_state \<Rightarrow> (nat \<times> mailbox_state, store_error) res" where
  "expire J cutoff_ms s =
    and_then (expire_victims J cutoff_ms s) (\<lambda>vs. Ok (expire_loop vs (0, s)))"

text \<open>The mailbox part of \<open>remove_user_data\<close>: the messages and bytes removed, and the state.\<close>

definition user_entries ::
  "envelope json \<Rightarrow> bytes \<Rightarrow> mailbox_state \<Rightarrow> ((nat \<times> rstr \<times> nat) list, store_error) res" where
  "user_entries J user s =
    try_map (\<lambda>((_, seq), v). and_then (decode_entry J v) (\<lambda>(_, e). Ok (seq, env_id e, length v)))
      (trange (\<lambda>(o', _). o' = user) (mailbox s))"

fun remove_loop :: "bytes \<Rightarrow> (nat \<times> rstr \<times> nat) list \<Rightarrow> mailbox_state \<Rightarrow> mailbox_state" where
  "remove_loop user [] s = s"
| "remove_loop user ((seq, i, sz) # es) s =
     remove_loop user es
       (s\<lparr>mailbox := tdel (user, seq) (mailbox s), by_id := tdel i (by_id s)\<rparr>)"

definition remove_user_mail ::
  "envelope json \<Rightarrow> bytes \<Rightarrow> mailbox_state \<Rightarrow> ((nat \<times> nat) \<times> mailbox_state, store_error) res" where
  "remove_user_mail J user s =
    and_then (user_entries J user s)
      (\<lambda>es. let freed = sum_list (map (snd \<circ> snd) es);
                 s1 = take_from freed (remove_loop user es s)
             in Ok ((length es, freed), s1\<lparr>usage := tdel user (usage s1)\<rparr>))"

section \<open>The abstract view\<close>

definition letter :: "envelope json \<Rightarrow> bytes \<Rightarrow> (u64 \<times> envelope) list" where
  "letter J v = (case decode_entry J v of Ok x \<Rightarrow> [x] | _ \<Rightarrow> [])"

definition owned :: "bytes \<Rightarrow> bytes \<times> nat \<Rightarrow> bool" where
  "owned user k = (fst k = user)"

definition letters_of :: "envelope json \<Rightarrow> mailbox_state \<Rightarrow> bytes \<Rightarrow> (u64 \<times> envelope) list" where
  "letters_of J s user = concat (map (\<lambda>(_, v). letter J v) (trange (owned user) (mailbox s)))"

definition held_count :: "mailbox_state \<Rightarrow> bytes \<Rightarrow> nat" where
  "held_count s user = tsum (\<lambda>k v. if owned user k then 1 else 0) (mailbox s)"

definition held_bytes :: "mailbox_state \<Rightarrow> bytes \<Rightarrow> nat" where
  "held_bytes s user = tsum (\<lambda>k v. if owned user k then length v else 0) (mailbox s)"

definition entry_ok :: "envelope json \<Rightarrow> mailbox_state \<Rightarrow> bytes \<times> nat \<Rightarrow> bytes \<Rightarrow> bool" where
  "entry_ok J s k v \<longleftrightarrow>
     (\<exists>at e. v = be64 at @ to_json J e \<and> env_to e = fst k \<and> snd k < next_seq s \<and>
        tget (by_id s) (env_id e) = Some k)"

definition mailbox_inv :: "envelope json \<Rightarrow> mailbox_state \<Rightarrow> bool" where
  "mailbox_inv J s \<longleftrightarrow>
     (\<forall>k v. tget (mailbox s) k = Some v \<longrightarrow> entry_ok J s k v) \<and>
     (\<forall>i k. tget (by_id s) i = Some k \<longrightarrow>
        (\<exists>at e. tget (mailbox s) k = Some (be64 at @ to_json J e) \<and> env_id e = i)) \<and>
     (\<forall>u. tget (usage s) u =
        (if held_count s u = 0 then None else Some (held_count s u, held_bytes s u))) \<and>
     mailbox_bytes s = tsum (\<lambda>_ v. length v) (mailbox s) \<and> mailbox_bytes s \<le> u64_max"

section \<open>Entries\<close>

lemma decode_entry_stored [simp]:
  "json_reads_back J \<Longrightarrow> decode_entry J (be64 at @ to_json J e) = Ok (at, e)"
  by (simp add: decode_entry_def)

lemma letter_stored [simp]:
  "json_reads_back J \<Longrightarrow> letter J (be64 at @ to_json J e) = [(at, e)]"
  by (simp add: letter_def)

lemma mailbox_inv_entry:
  assumes "mailbox_inv J s" "tget (mailbox s) k = Some v"
  obtains at e where "v = be64 at @ to_json J e" "env_to e = fst k" "snd k < next_seq s"
    "tget (by_id s) (env_id e) = Some k"
  using assms unfolding mailbox_inv_def entry_ok_def by blast

lemma mailbox_inv_by_id:
  assumes "mailbox_inv J s" "tget (by_id s) i = Some k"
  obtains at e where "tget (mailbox s) k = Some (be64 at @ to_json J e)" "env_id e = i"
  using assms unfolding mailbox_inv_def by blast

lemma mailbox_inv_usage:
  "mailbox_inv J s \<Longrightarrow>
    tget (usage s) u = (if held_count s u = 0 then None else Some (held_count s u, held_bytes s u))"
  by (simp add: mailbox_inv_def)

lemma usage_of_held: "mailbox_inv J s \<Longrightarrow> usage_of s u = (held_count s u, held_bytes s u)"
proof -
  assume inv: "mailbox_inv J s"
  have "held_bytes s u = 0" if "held_count s u = 0"
    using that by (auto simp: held_count_def held_bytes_def tsum_eq_0_iff split: if_splits)
  with inv show ?thesis by (auto simp: usage_of_def mailbox_inv_def)
qed

lemma held_empty [simp]: "held_count empty_mailbox u = 0" "held_bytes empty_mailbox u = 0"
  by (simp_all add: held_count_def held_bytes_def empty_mailbox_def)

lemma held_count_trange: "held_count s u = length (trange (owned u) (mailbox s))"
  by (simp add: held_count_def tsum_trange case_prod_unfold sum_list_triv)

lemma held_bytes_trange: "held_bytes s u = (\<Sum>(k, v)\<leftarrow>trange (owned u) (mailbox s). length v)"
  by (simp add: held_bytes_def tsum_trange)

lemma mailbox_inv_empty: "mailbox_inv J empty_mailbox"
  by (simp add: mailbox_inv_def) (simp add: empty_mailbox_def)

section \<open>Storing\<close>

definition over_limit :: "limits \<Rightarrow> nat \<times> nat \<Rightarrow> nat \<Rightarrow> bool" where
  "over_limit l u sz \<longleftrightarrow>
     max_messages l > 0 \<and> fst u \<ge> max_messages l \<or>
     max_bytes l > 0 \<and> sat_add64 (snd u) sz > max_bytes l"

definition over_total :: "limits \<Rightarrow> nat \<Rightarrow> nat \<Rightarrow> bool" where
  "over_total l held sz \<longleftrightarrow> max_total_bytes l > 0 \<and> sat_add64 held sz > max_total_bytes l"

definition counters_fit :: "mailbox_state \<Rightarrow> bytes \<Rightarrow> nat \<Rightarrow> bool" where
  "counters_fit s u sz \<longleftrightarrow>
     next_seq s + 1 \<le> u64_max \<and> mailbox_bytes s + sz \<le> u64_max \<and>
     fst (usage_of s u) + 1 \<le> u64_max \<and> snd (usage_of s u) + sz \<le> u64_max"

definition put_entry :: "envelope json \<Rightarrow> envelope \<Rightarrow> u64 \<Rightarrow> mailbox_state \<Rightarrow> mailbox_state" where
  "put_entry J e now s =
    (let v = be64 now @ to_json J e; u = env_to e in
     s\<lparr>next_seq := next_seq s + 1,
       mailbox_bytes := mailbox_bytes s + length v,
       mailbox := tput (u, next_seq s) v (mailbox s),
       by_id := tput (env_id e) (u, next_seq s) (by_id s),
       usage := tput u (fst (usage_of s u) + 1, snd (usage_of s u) + length v) (usage s)\<rparr>)"

lemma enqueue_eq:
  "enqueue J e now l s =
    (let sz = length (be64 now @ to_json J e) in
     if tget (by_id s) (env_id e) \<noteq> None then Ok (Duplicate, s)
     else if over_limit l (usage_of s (env_to e)) sz then Ok (MailboxFull, s)
     else if over_total l (mailbox_bytes s) sz then Ok (StorageFull, s)
     else if counters_fit s (env_to e) sz then Ok (Stored, put_entry J e now s)
     else Panic)"
  unfolding enqueue_def over_limit_def over_total_def counters_fit_def put_entry_def add64_def
    Let_def case_prod_beta
  by (simp split del: if_split) (simp split: if_split)

lemma enqueue_Stored:
  "enqueue J e now l s = Ok (Stored, s') \<Longrightarrow>
    tget (by_id s) (env_id e) = None \<and> s' = put_entry J e now s \<and>
    counters_fit s (env_to e) (length (be64 now @ to_json J e))"
  by (cases "tget (by_id s) (env_id e)") (auto simp: enqueue_eq Let_def split: if_splits)

lemma enqueue_unchanged:
  "enqueue J e now l s = Ok (r, s') \<Longrightarrow> r \<noteq> Stored \<Longrightarrow> s' = s"
  by (auto simp: enqueue_eq Let_def split: if_splits)

lemma fresh_key:
  assumes "mailbox_inv J s"
  shows "tget (mailbox s) (u, next_seq s) = None"
proof (rule ccontr)
  assume "tget (mailbox s) (u, next_seq s) \<noteq> None"
  then obtain v where "tget (mailbox s) (u, next_seq s) = Some v" by auto
  with assms show False by (auto elim: mailbox_inv_entry)
qed

lemma held_put:
  assumes "tget (mailbox s) k = None"
  shows "held_count (s\<lparr>mailbox := tput k v (mailbox s)\<rparr>) u =
      held_count s u + (if owned u k then 1 else 0)"
    and "held_bytes (s\<lparr>mailbox := tput k v (mailbox s)\<rparr>) u =
      held_bytes s u + (if owned u k then length v else 0)"
  using assms by (simp_all add: held_count_def held_bytes_def tsum_insert)

lemma held_cong:
  "mailbox s = mailbox t \<Longrightarrow> held_count s = held_count t"
  "mailbox s = mailbox t \<Longrightarrow> held_bytes s = held_bytes t"
  by (simp_all add: held_count_def held_bytes_def fun_eq_iff)

lemma mailbox_inv_enqueue:
  assumes J: "json_reads_back J" and inv: "mailbox_inv J s"
    and st: "enqueue J e now l s = Ok (r, s')"
  shows "mailbox_inv J s'"
proof (cases "r = Stored")
  case False
  with st inv show ?thesis using enqueue_unchanged by blast
next
  case True
  let ?v = "be64 now @ to_json J e" and ?k = "(env_to e, next_seq s)"
  have id: "tget (by_id s) (env_id e) = None" and st': "s' = put_entry J e now s"
    and fit: "counters_fit s (env_to e) (length ?v)"
    using enqueue_Stored [OF st [unfolded True]] by auto
  note s' = st' [unfolded put_entry_def Let_def]
  have fresh: "tget (mailbox s) ?k = None" using inv by (rule fresh_key)
  have m': "mailbox s' = mailbox (s\<lparr>mailbox := tput ?k ?v (mailbox s)\<rparr>)" by (simp add: s')
  have hc: "held_count s' u = held_count s u + (if owned u ?k then 1 else 0)"
    and hb: "held_bytes s' u = held_bytes s u + (if owned u ?k then length ?v else 0)" for u
    using held_cong [OF m'] held_put [OF fresh] by (simp_all add: fun_eq_iff)
  have "entry_ok J s' k v" if "tget (mailbox s') k = Some v" for k v
  proof (cases "k = ?k")
    case True
    with that show ?thesis by (auto simp: s' entry_ok_def)
  next
    case False
    with that have "tget (mailbox s) k = Some v" by (simp add: s')
    then obtain at e' where "v = be64 at @ to_json J e'" "env_to e' = fst k" "snd k < next_seq s"
      "tget (by_id s) (env_id e') = Some k"
      using inv by (auto elim: mailbox_inv_entry)
    with id show ?thesis by (auto simp: s' entry_ok_def)
  qed
  moreover have "\<exists>at e. tget (mailbox s') k = Some (be64 at @ to_json J e) \<and> env_id e = i"
    if "tget (by_id s') i = Some k" for i k
  proof (cases "i = env_id e")
    case True
    with that show ?thesis by (auto simp: s')
  next
    case False
    with that have "tget (by_id s) i = Some k" by (simp add: s')
    with inv obtain at e' where "tget (mailbox s) k = Some (be64 at @ to_json J e')" "env_id e' = i"
      by (rule mailbox_inv_by_id)
    with fresh show ?thesis by (auto simp: s')
  qed
  moreover have "tget (usage s') u =
      (if held_count s' u = 0 then None else Some (held_count s' u, held_bytes s' u))" for u
    unfolding hc hb
    by (simp add: s' owned_def usage_of_held [OF inv] mailbox_inv_usage [OF inv])
  moreover have "mailbox_bytes s' = tsum (\<lambda>_ v. length v) (mailbox s') \<and> mailbox_bytes s' \<le> u64_max"
    using inv fresh fit by (simp add: s' tsum_insert mailbox_inv_def counters_fit_def)
  ultimately show ?thesis unfolding mailbox_inv_def by blast
qed

section \<open>Removing one entry\<close>

text \<open>
  What \<open>ack\<close> and each round of \<open>expire\<close> do to the tables, once the index is known to
  point at the entry.
\<close>

definition drop_entry :: "bytes \<times> nat \<Rightarrow> rstr \<Rightarrow> nat \<Rightarrow> mailbox_state \<Rightarrow> mailbox_state" where
  "drop_entry k i sz s =
     take_from sz (adjust_usage (fst k) 1 sz
       (s\<lparr>by_id := tdel i (by_id s), mailbox := tdel k (mailbox s)\<rparr>))"

lemma drop_entry_fields [simp]:
  "mailbox (drop_entry k i sz s) = tdel k (mailbox s)"
  "by_id (drop_entry k i sz s) = tdel i (by_id s)"
  "next_seq (drop_entry k i sz s) = next_seq s"
  "mailbox_bytes (drop_entry k i sz s) = mailbox_bytes s - sz"
  by (simp_all add: drop_entry_def take_from_def adjust_usage_def Let_def case_prod_beta)

lemma usage_drop_entry:
  "tget (usage (drop_entry k i sz s)) u =
    (if u = fst k then
       (let (count, bytes) = usage_of s u in
        if count - 1 = 0 then None else Some (count - 1, bytes - sz))
     else tget (usage s) u)"
  by (cases "usage_of s (fst k)")
    (auto simp: drop_entry_def take_from_def adjust_usage_def usage_of_def)

lemma held_drop_entry:
  assumes "tget (mailbox s) k = Some v"
  shows "held_count s u = held_count (drop_entry k i sz s) u + (if owned u k then 1 else 0)"
    and "held_bytes s u = held_bytes (drop_entry k i sz s) u + (if owned u k then length v else 0)"
  unfolding held_count_def held_bytes_def drop_entry_fields
  by (rule tsum_delete [OF assms])+

lemma mailbox_inv_drop_entry:
  assumes J: "json_reads_back J" and inv: "mailbox_inv J s" and v: "tget (mailbox s) k = Some v"
    and i: "tget (by_id s) i = Some k"
  shows "mailbox_inv J (drop_entry k i (length v) s)"
proof -
  let ?s = "drop_entry k i (length v) s"
  have hc: "held_count s u = held_count ?s u + (if owned u k then 1 else 0)"
    and hb: "held_bytes s u = held_bytes ?s u + (if owned u k then length v else 0)" for u
    using held_drop_entry [OF v] by blast+
  have "entry_ok J ?s k' v'" if k': "tget (mailbox ?s) k' = Some v'" for k' v'
  proof -
    from k' have "tget (mailbox s) k' = Some v'" "k' \<noteq> k" by (auto split: if_splits)
    then obtain at e where e: "v' = be64 at @ to_json J e" "env_to e = fst k'"
        "snd k' < next_seq s" "tget (by_id s) (env_id e) = Some k'"
      using inv by (auto elim: mailbox_inv_entry)
    moreover from e i \<open>k' \<noteq> k\<close> have "env_id e \<noteq> i" by auto
    ultimately show ?thesis unfolding entry_ok_def by (intro exI [of _ at] exI [of _ e]) simp
  qed
  moreover have "\<exists>at e. tget (mailbox ?s) k' = Some (be64 at @ to_json J e) \<and> env_id e = i'"
    if i': "tget (by_id ?s) i' = Some k'" for i' k'
  proof -
    from i' have b: "tget (by_id s) i' = Some k'" "i' \<noteq> i" by (auto split: if_splits)
    then obtain at e where v': "tget (mailbox s) k' = Some (be64 at @ to_json J e)" "env_id e = i'"
      using inv by (auto elim: mailbox_inv_by_id)
    obtain at' e' where "tget (mailbox s) k = Some (be64 at' @ to_json J e')" "env_id e' = i"
      using inv i by (rule mailbox_inv_by_id)
    with v' b J have "k' \<noteq> k" by (auto dest: json_reads_backD)
    with v' show ?thesis by auto
  qed
  moreover have "tget (usage ?s) u =
      (if held_count ?s u = 0 then None else Some (held_count ?s u, held_bytes ?s u))" for u
  proof (cases "u = fst k")
    case True
    with hc [of u] hb [of u] usage_of_held [OF inv, of u] show ?thesis
      by (simp add: usage_drop_entry owned_def)
  next
    case False
    with hc [of u] hb [of u] show ?thesis
      by (simp add: usage_drop_entry owned_def mailbox_inv_usage [OF inv])
  qed
  moreover have "mailbox_bytes ?s = tsum (\<lambda>_ v. length v) (mailbox ?s) \<and> mailbox_bytes ?s \<le> u64_max"
    using inv tsum_delete [OF v, of "\<lambda>_ v. length v"] by (simp add: mailbox_inv_def)
  ultimately show ?thesis unfolding mailbox_inv_def by blast
qed

lemma ack_eq:
  assumes inv: "mailbox_inv J s"
  shows "ack user i s =
    (case tget (by_id s) i of
       Some k \<Rightarrow> if fst k = user then (True, drop_entry k i (length (the (tget (mailbox s) k))) s)
                 else (False, s)
     | None \<Rightarrow> (False, s))"
proof (cases "tget (by_id s) i")
  case None
  then show ?thesis by (simp add: ack_def)
next
  case (Some k)
  with inv obtain at e where "tget (mailbox s) k = Some (be64 at @ to_json J e)"
    by (rule mailbox_inv_by_id)
  with Some show ?thesis by (cases k) (auto simp: ack_def drop_entry_def Let_def)
qed

lemma mailbox_inv_ack:
  assumes "json_reads_back J" "mailbox_inv J s"
  shows "mailbox_inv J (snd (ack user i s))"
proof (cases "tget (by_id s) i")
  case None
  with assms show ?thesis by (simp add: ack_eq)
next
  case (Some k)
  with assms(2) obtain at e where v: "tget (mailbox s) k = Some (be64 at @ to_json J e)"
    by (rule mailbox_inv_by_id)
  with assms Some show ?thesis
    using mailbox_inv_drop_entry [OF assms v Some] by (simp add: ack_eq)
qed

section \<open>Letters\<close>

lemma letters_filter:
  assumes "\<And>k v. (k, v) \<in> set xs \<Longrightarrow> \<exists>x. letter J v = [x] \<and> (Q (k, v) \<longleftrightarrow> R x)"
  shows "concat (map (\<lambda>(_, v). letter J v) (filter Q xs)) =
    filter R (concat (map (\<lambda>(_, v). letter J v) xs))"
  using assms
proof (induction xs)
  case (Cons p xs)
  obtain k v where p: "p = (k, v)" by (cases p)
  obtain x where "letter J v = [x]" "Q (k, v) \<longleftrightarrow> R x"
    using Cons.prems [of k v] p by auto
  with Cons show ?case by (auto simp: p)
qed simp

lemma letters_of_subset:
  assumes J: "json_reads_back J" and inv: "mailbox_inv J s"
    and t: "\<And>k v. tget (mailbox s') k = Some v \<longleftrightarrow> tget (mailbox s) k = Some v \<and> Q k v"
    and R: "\<And>k at e. tget (mailbox s) k = Some (be64 at @ to_json J e) \<Longrightarrow> fst k = user \<Longrightarrow>
      Q k (be64 at @ to_json J e) \<longleftrightarrow> R (at, e)"
  shows "letters_of J s' user = filter R (letters_of J s user)"
  unfolding letters_of_def trange_filter [of "mailbox s'" "mailbox s" Q, OF t]
proof (rule letters_filter)
  fix k v assume "(k, v) \<in> set (trange (owned user) (mailbox s))"
  then have kv: "tget (mailbox s) k = Some v" "fst k = user" by (auto simp: owned_def)
  then obtain at e where "v = be64 at @ to_json J e" using inv by (auto elim: mailbox_inv_entry)
  with kv R J show "\<exists>x. letter J v = [x] \<and> ((case (k, v) of (k, v) \<Rightarrow> Q k v) \<longleftrightarrow> R x)" by auto
qed

lemma letters_put_entry:
  assumes "json_reads_back J" "mailbox_inv J s"
  shows "letters_of J (put_entry J e now s) u =
    letters_of J s u @ (if u = env_to e then [(now, e)] else [])"
proof (cases "u = env_to e")
  case True
  have "k' < (env_to e, next_seq s)"
    if "tget (mailbox s) k' = Some v'" "owned (env_to e) k'" for k' v'
    using that assms(2) by (auto simp: owned_def less_prod_def elim: mailbox_inv_entry)
  then have "trange (owned u) (tput (env_to e, next_seq s) v (mailbox s)) =
      trange (owned u) (mailbox s) @ [((env_to e, next_seq s), v)]" for v
    using True fresh_key [OF assms(2)] by (intro trange_put_last) (auto simp: owned_def)
  with assms True show ?thesis by (simp add: letters_of_def put_entry_def Let_def)
next
  case False
  with assms show ?thesis
    by (simp add: letters_of_def put_entry_def Let_def trange_put_other owned_def)
qed

lemma letters_of_iff:
  assumes "json_reads_back J" "mailbox_inv J s"
  shows "(at, e) \<in> set (letters_of J s u) \<longleftrightarrow>
    (\<exists>q. tget (mailbox s) (u, q) = Some (be64 at @ to_json J e))"
proof
  assume "(at, e) \<in> set (letters_of J s u)"
  then obtain q v where v: "tget (mailbox s) (u, q) = Some v" "(at, e) \<in> set (letter J v)"
    by (auto simp: letters_of_def owned_def)
  with assms show "\<exists>q. tget (mailbox s) (u, q) = Some (be64 at @ to_json J e)"
    by (elim mailbox_inv_entry) auto
next
  assume "\<exists>q. tget (mailbox s) (u, q) = Some (be64 at @ to_json J e)"
  then obtain q where "((u, q), be64 at @ to_json J e) \<in> set (trange (owned u) (mailbox s))"
    by (auto simp: owned_def)
  then show "(at, e) \<in> set (letters_of J s u)"
    unfolding letters_of_def set_concat set_map using assms(1)
    by (intro UN_I [of "letter J (be64 at @ to_json J e)"]) (force simp del: set_trange, simp)
qed

lemma by_id_letters:
  assumes "json_reads_back J" "mailbox_inv J s"
  shows "tget (by_id s) i = None \<longleftrightarrow> (\<forall>u at e. (at, e) \<in> set (letters_of J s u) \<longrightarrow> env_id e \<noteq> i)"
proof
  assume none: "tget (by_id s) i = None"
  show "\<forall>u at e. (at, e) \<in> set (letters_of J s u) \<longrightarrow> env_id e \<noteq> i"
  proof (intro allI impI)
    fix u at e assume "(at, e) \<in> set (letters_of J s u)"
    with assms obtain q where "tget (mailbox s) (u, q) = Some (be64 at @ to_json J e)"
      by (auto simp: letters_of_iff)
    with assms(2) show "env_id e \<noteq> i"
      using none assms(1) by (elim mailbox_inv_entry) auto
  qed
next
  assume all: "\<forall>u at e. (at, e) \<in> set (letters_of J s u) \<longrightarrow> env_id e \<noteq> i"
  show "tget (by_id s) i = None"
  proof (rule ccontr)
    assume "tget (by_id s) i \<noteq> None"
    then obtain k where "tget (by_id s) i = Some k" by auto
    with assms(2) obtain at e where "tget (mailbox s) k = Some (be64 at @ to_json J e)" "env_id e = i"
      by (rule mailbox_inv_by_id)
    with all assms show False by (cases k) (auto simp: letters_of_iff)
  qed
qed

lemma letters_ack:
  assumes J: "json_reads_back J" and inv: "mailbox_inv J s"
  shows "letters_of J (snd (ack user i s)) u =
    (if u = user then filter (\<lambda>(at, e). env_id e \<noteq> i) (letters_of J s u) else letters_of J s u)"
proof -
  have "letters_of J (snd (ack user i s)) u =
      filter (\<lambda>(at, e). u = user \<longrightarrow> env_id e \<noteq> i) (letters_of J s u)"
  proof (rule letters_of_subset [OF J inv,
        where Q = "\<lambda>k v. \<not> (tget (by_id s) i = Some k \<and> fst k = user)"])
    show "tget (mailbox (snd (ack user i s))) k = Some v \<longleftrightarrow>
        tget (mailbox s) k = Some v \<and> \<not> (tget (by_id s) i = Some k \<and> fst k = user)" for k v
      by (cases "tget (by_id s) i") (auto simp: ack_eq [OF inv])
  next
    fix k at e assume k: "tget (mailbox s) k = Some (be64 at @ to_json J e)" "fst k = u"
    from inv k(1) have "tget (by_id s) (env_id e) = Some k"
      using J by (elim mailbox_inv_entry) auto
    moreover have "env_id e = i" if "tget (by_id s) i = Some k"
      using inv that k(1) J by (elim mailbox_inv_by_id) auto
    ultimately show "\<not> (tget (by_id s) i = Some k \<and> fst k = user) \<longleftrightarrow>
        (case (at, e) of (at, e) \<Rightarrow> u = user \<longrightarrow> env_id e \<noteq> i)"
      using k by auto
  qed
  then show ?thesis by (auto intro: filter_cong)
qed

section \<open>Expiry\<close>

lemma by_id_entry:
  assumes "json_reads_back J" "mailbox_inv J s" "tget (mailbox s) k = Some (be64 at @ to_json J e)"
  shows "tget (by_id s) (env_id e) = Some k"
  using assms by (elim mailbox_inv_entry) auto

lemma expire_loop_step:
  assumes "json_reads_back J" "mailbox_inv J s"
    and "tget (mailbox s) (owner, seq) = Some (be64 at @ to_json J e)"
  shows "expire_loop ((owner, seq, env_id e) # vs) (n, s) =
    expire_loop vs (n + 1,
      drop_entry (owner, seq) (env_id e) (length (be64 at @ to_json J e)) s)"
proof -
  have swap: "s\<lparr>mailbox := m, by_id := b\<rparr> = s\<lparr>by_id := b, mailbox := m\<rparr>" for m b
    by simp
  show ?thesis
    using assms by (simp add: by_id_entry [OF assms] drop_entry_def Let_def swap)
qed

definition victim_key :: "bytes \<times> nat \<times> rstr \<Rightarrow> bytes \<times> nat" where
  "victim_key v = (fst v, fst (snd v))"

lemma expire_loop_spec:
  assumes "json_reads_back J" "mailbox_inv J s" "distinct (map victim_key vs)"
    and "\<forall>v\<in>set vs. \<exists>at e. tget (mailbox s) (victim_key v) = Some (be64 at @ to_json J e) \<and>
      snd (snd v) = env_id e"
  shows "mailbox_inv J (snd (expire_loop vs (n, s))) \<and>
    fst (expire_loop vs (n, s)) = n + length vs \<and>
    (\<forall>k. tget (mailbox (snd (expire_loop vs (n, s)))) k =
      (if k \<in> victim_key ` set vs then None else tget (mailbox s) k))"
  using assms(2-)
proof (induction vs arbitrary: n s)
  case (Cons v vs)
  obtain owner seq i where v: "v = (owner, seq, i)" by (cases v)
  from Cons.prems obtain at e
    where e: "tget (mailbox s) (owner, seq) = Some (be64 at @ to_json J e)" "i = env_id e"
    by (auto simp: v victim_key_def)
  let ?s = "drop_entry (owner, seq) i (length (be64 at @ to_json J e)) s"
  have "mailbox_inv J ?s"
    unfolding e(2) using assms(1) Cons.prems(1) e(1)
    by (rule mailbox_inv_drop_entry) (rule by_id_entry [OF assms(1) Cons.prems(1) e(1)])
  moreover have "\<forall>w\<in>set vs. \<exists>at e. tget (mailbox ?s) (victim_key w) = Some (be64 at @ to_json J e) \<and>
      snd (snd w) = env_id e"
    using Cons.prems by (force simp: v victim_key_def)
  ultimately have "mailbox_inv J (snd (expire_loop vs (n + 1, ?s))) \<and>
    fst (expire_loop vs (n + 1, ?s)) = n + 1 + length vs \<and>
    (\<forall>k. tget (mailbox (snd (expire_loop vs (n + 1, ?s)))) k =
      (if k \<in> victim_key ` set vs then None else tget (mailbox ?s) k))"
    using Cons.prems by (intro Cons.IH) auto
  moreover have "expire_loop (v # vs) (n, s) = expire_loop vs (n + 1, ?s)"
    unfolding v e(2) using assms(1) Cons.prems(1) e(1) by (rule expire_loop_step)
  ultimately show ?case by (auto simp: v victim_key_def)
qed simp

definition old_entry :: "envelope json \<Rightarrow> u64 \<Rightarrow> (bytes \<times> nat) \<times> bytes \<Rightarrow> bool" where
  "old_entry J cutoff p \<longleftrightarrow> (\<exists>(at, e) \<in> set (letter J (snd p)). at < cutoff)"

lemma expire_victims_Ok:
  assumes "json_reads_back J" "mailbox_inv J s"
  shows "expire_victims J cutoff s =
    Ok (map (\<lambda>((owner, seq), v). (owner, seq, env_id (snd (hd (letter J v)))))
      (filter (old_entry J cutoff) (RBT.entries (mailbox s))))"
proof -
  have dec: "\<exists>at e. v = be64 at @ to_json J e" if "(k, v) \<in> set (RBT.entries (mailbox s))" for k v
  proof -
    from that have "tget (mailbox s) k = Some v" by (simp add: entries_iff)
    from mailbox_inv_entry [OF assms(2) this] show ?thesis by blast
  qed
  have "try_map (\<lambda>((owner, seq), v).
        and_then (decode_entry J v) (\<lambda>(at, e). Ok (at, owner, seq, env_id e)))
      (RBT.entries (mailbox s)) =
    Ok (map (\<lambda>((owner, seq), v). (fst (hd (letter J v)), owner, seq, env_id (snd (hd (letter J v)))))
      (RBT.entries (mailbox s)))"
    using dec assms(1) by (intro try_map_map) fastforce
  moreover have "filter ((\<lambda>(at, _). at < cutoff) \<circ>
        (\<lambda>((owner, seq), v). (fst (hd (letter J v)), owner, seq, env_id (snd (hd (letter J v))))))
      (RBT.entries (mailbox s)) = filter (old_entry J cutoff) (RBT.entries (mailbox s))"
    using dec assms(1) by (intro filter_cong refl) (fastforce simp: old_entry_def)
  ultimately show ?thesis
    by (simp add: expire_victims_def filter_map comp_def case_prod_beta)
qed

lemma expire_spec:
  assumes J: "json_reads_back J" and inv: "mailbox_inv J s"
  obtains n s' where "expire J cutoff s = Ok (n, s')" "mailbox_inv J s'"
    "n = length (filter (old_entry J cutoff) (RBT.entries (mailbox s)))"
    "\<And>k v. tget (mailbox s') k = Some v \<longleftrightarrow> tget (mailbox s) k = Some v \<and> \<not> old_entry J cutoff (k, v)"
proof -
  let ?old = "filter (old_entry J cutoff) (RBT.entries (mailbox s))"
  let ?vs = "map (\<lambda>((owner, seq), v). (owner, seq, env_id (snd (hd (letter J v))))) ?old"
  have keys: "map victim_key ?vs = map fst ?old"
    by (auto simp: victim_key_def case_prod_beta)
  have "distinct (map fst ?old)"
    using sorted_filter_keys [OF sorted_keys_entries] strict_sorted_iff by blast
  then have d: "distinct (map victim_key ?vs)" unfolding keys .
  have all: "\<forall>w\<in>set ?vs. \<exists>at e. tget (mailbox s) (victim_key w) = Some (be64 at @ to_json J e) \<and>
      snd (snd w) = env_id e"
  proof
    fix w assume "w \<in> set ?vs"
    then obtain k v where w: "tget (mailbox s) k = Some v"
        "w = (fst k, snd k, env_id (snd (hd (letter J v))))"
      by (auto simp: entries_iff)
    obtain at e where "v = be64 at @ to_json J e" using inv w(1) by (rule mailbox_inv_entry)
    with w J show "\<exists>at e. tget (mailbox s) (victim_key w) = Some (be64 at @ to_json J e) \<and>
        snd (snd w) = env_id e"
      by (auto simp: victim_key_def)
  qed
  have mem: "k \<in> victim_key ` set ?vs \<longleftrightarrow> (\<exists>v. tget (mailbox s) k = Some v \<and> old_entry J cutoff (k, v))"
    for k
  proof -
    have "victim_key ` set ?vs = fst ` set ?old"
      using arg_cong [OF keys, of set] by (simp only: set_map)
    also have "\<dots> = {k. \<exists>v. tget (mailbox s) k = Some v \<and> old_entry J cutoff (k, v)}"
      by (auto simp: image_iff entries_iff)
    finally show ?thesis by simp
  qed
  note spec = expire_loop_spec [OF J inv d all, of 0]
  let ?r = "expire_loop ?vs (0, s)"
  have tab: "tget (mailbox (snd ?r)) k = (if \<exists>v. tget (mailbox s) k = Some v \<and> old_entry J cutoff (k, v)
      then None else tget (mailbox s) k)" for k
    using spec unfolding mem by blast
  show thesis
  proof (rule that)
    show "expire J cutoff s = Ok (fst ?r, snd ?r)"
      by (simp add: expire_def expire_victims_Ok [OF J inv])
    show "mailbox_inv J (snd ?r)" using spec by blast
    show "fst ?r = length ?old" using spec by simp
    show "tget (mailbox (snd ?r)) k = Some v \<longleftrightarrow>
        tget (mailbox s) k = Some v \<and> \<not> old_entry J cutoff (k, v)" for k v
      unfolding tab by auto
  qed
qed

lemma letters_expire:
  assumes J: "json_reads_back J" and inv: "mailbox_inv J s" and "expire J cutoff s = Ok (n, s')"
  shows "letters_of J s' u = filter (\<lambda>(at, e). \<not> at < cutoff) (letters_of J s u)"
proof -
  have "tget (mailbox s') k = Some v \<longleftrightarrow> tget (mailbox s) k = Some v \<and> \<not> old_entry J cutoff (k, v)"
    for k v
    using assms(3) by (rule_tac expire_spec [OF J inv, of cutoff]) simp
  then show ?thesis
    by (rule letters_of_subset [OF J inv, where Q = "\<lambda>k v. \<not> old_entry J cutoff (k, v)"])
      (simp add: old_entry_def J)
qed

lemma mailbox_inv_expire:
  assumes "json_reads_back J" "mailbox_inv J s" "expire J cutoff s = Ok (n, s')"
  shows "mailbox_inv J s'"
  using assms(3) by (rule_tac expire_spec [OF assms(1,2), of cutoff]) simp

section \<open>Removing a user\<close>

lemma remove_loop_fields [simp]:
  "next_seq (remove_loop user es s) = next_seq s"
  "mailbox_bytes (remove_loop user es s) = mailbox_bytes s"
  "usage (remove_loop user es s) = usage s"
  by (induction user es s rule: remove_loop.induct) auto

lemma remove_loop_mailbox:
  "tget (mailbox (remove_loop user es s)) k =
    (if k \<in> (\<lambda>e. (user, fst e)) ` set es then None else tget (mailbox s) k)"
  by (induction user es s rule: remove_loop.induct) auto

lemma remove_loop_by_id:
  "tget (by_id (remove_loop user es s)) i =
    (if i \<in> (\<lambda>e. fst (snd e)) ` set es then None else tget (by_id s) i)"
  by (induction user es s rule: remove_loop.induct) auto

lemma user_entries_Ok:
  assumes "json_reads_back J" "mailbox_inv J s"
  shows "user_entries J user s =
    Ok (map (\<lambda>((_, seq), v). (seq, env_id (snd (hd (letter J v))), length v))
      (trange (owned user) (mailbox s)))"
proof -
  have dec: "\<exists>at e. v = be64 at @ to_json J e" if "(k, v) \<in> set (trange (owned user) (mailbox s))" for k v
  proof -
    from that have "tget (mailbox s) k = Some v" by simp
    from mailbox_inv_entry [OF assms(2) this] show ?thesis by blast
  qed
  have own: "(\<lambda>(o', _). o' = user) = owned user" by (auto simp: owned_def)
  show ?thesis unfolding user_entries_def own
    by (rule try_map_map) (use dec assms(1) in \<open>fastforce simp del: set_trange\<close>)
qed

lemma remove_user_mail_spec:
  assumes J: "json_reads_back J" and inv: "mailbox_inv J s"
  obtains s' where
    "remove_user_mail J user s = Ok ((held_count s user, held_bytes s user), s')"
    "next_seq s' = next_seq s"
    "mailbox_bytes s' = mailbox_bytes s - held_bytes s user"
    "usage s' = tdel user (usage s)"
    "\<And>k v. tget (mailbox s') k = Some v \<longleftrightarrow> tget (mailbox s) k = Some v \<and> \<not> owned user k"
    "\<And>i k. tget (by_id s') i = Some k \<longleftrightarrow> tget (by_id s) i = Some k \<and> \<not> owned user k"
proof -
  let ?es = "map (\<lambda>((_, seq), v). (seq, env_id (snd (hd (letter J v))), length v))
      (trange (owned user) (mailbox s))"
  let ?s = "take_from (held_bytes s user) (remove_loop user ?es s)"
  have freed: "sum_list (map (snd \<circ> snd) ?es) = held_bytes s user"
    by (simp add: held_bytes_trange comp_def case_prod_unfold)
  have count: "length ?es = held_count s user"
    by (simp add: held_count_trange)
  have mem: "k \<in> (\<lambda>e. (user, fst e)) ` set ?es \<longleftrightarrow> owned user k \<and> tget (mailbox s) k \<noteq> None" for k
    by (cases k) (force simp: owned_def)
  have ids: "i \<in> (\<lambda>e. fst (snd e)) ` set ?es \<longleftrightarrow> (\<exists>k. tget (by_id s) i = Some k \<and> owned user k)" for i
  proof
    assume "i \<in> (\<lambda>e. fst (snd e)) ` set ?es"
    then obtain k v where k: "tget (mailbox s) k = Some v" "owned user k"
        "i = env_id (snd (hd (letter J v)))"
      by auto
    obtain at e where "v = be64 at @ to_json J e" "tget (by_id s) (env_id e) = Some k"
      using inv k(1) by (rule mailbox_inv_entry)
    with k J show "\<exists>k. tget (by_id s) i = Some k \<and> owned user k" by auto
  next
    assume "\<exists>k. tget (by_id s) i = Some k \<and> owned user k"
    then obtain k where k: "tget (by_id s) i = Some k" "owned user k" by blast
    obtain at e where e: "tget (mailbox s) k = Some (be64 at @ to_json J e)" "env_id e = i"
      using inv k(1) by (rule mailbox_inv_by_id)
    then have "(k, be64 at @ to_json J e) \<in> set (trange (owned user) (mailbox s))" using k by simp
    from imageI [OF this, of "\<lambda>((_, seq), v). (seq, env_id (snd (hd (letter J v))), length v)"]
    show "i \<in> (\<lambda>e. fst (snd e)) ` set ?es"
      using J e(2) by (force simp: case_prod_beta simp del: set_trange)
  qed
  show thesis
  proof (rule that)
    show "remove_user_mail J user s =
        Ok ((held_count s user, held_bytes s user), ?s\<lparr>usage := tdel user (usage ?s)\<rparr>)"
      by (simp only: remove_user_mail_def user_entries_Ok [OF J inv] and_then.simps Let_def freed count)
    show "tget (mailbox (?s\<lparr>usage := tdel user (usage ?s)\<rparr>)) k = Some v \<longleftrightarrow>
        tget (mailbox s) k = Some v \<and> \<not> owned user k" for k v
      by (simp add: take_from_def remove_loop_mailbox mem del: set_map) auto
    show "tget (by_id (?s\<lparr>usage := tdel user (usage ?s)\<rparr>)) i = Some k \<longleftrightarrow>
        tget (by_id s) i = Some k \<and> \<not> owned user k" for i k
      by (cases k) (auto simp: take_from_def remove_loop_by_id ids simp del: set_map)
  qed (simp_all add: take_from_def)
qed

lemma mailbox_inv_remove:
  assumes J: "json_reads_back J" and inv: "mailbox_inv J s" and "remove_user_mail J user s = Ok (r, s')"
  shows "mailbox_inv J s'"
proof -
  obtain s1 where ok: "remove_user_mail J user s = Ok ((held_count s user, held_bytes s user), s1)"
    and seq: "next_seq s1 = next_seq s"
    and bytes: "mailbox_bytes s1 = mailbox_bytes s - held_bytes s user"
    and usage: "usage s1 = tdel user (usage s)"
    and mb: "\<And>k v. tget (mailbox s1) k = Some v \<longleftrightarrow> tget (mailbox s) k = Some v \<and> \<not> owned user k"
    and id: "\<And>i k. tget (by_id s1) i = Some k \<longleftrightarrow> tget (by_id s) i = Some k \<and> \<not> owned user k"
    by (rule remove_user_mail_spec [OF J inv, of user]) blast
  have s': "s' = s1" using assms(3) ok by simp
  have tr: "trange (owned u) (mailbox s1) = (if u = user then [] else trange (owned u) (mailbox s))" for u
    unfolding trange_filter [of "mailbox s1" "mailbox s" "\<lambda>k _. \<not> owned user k", OF mb]
    by (auto simp: filter_empty_conv filter_id_conv owned_def)
  have "entry_ok J s1 k v" if "tget (mailbox s1) k = Some v" for k v
  proof -
    from that have k: "tget (mailbox s) k = Some v" "\<not> owned user k" using mb by auto
    from inv k(1) show ?thesis
      by (rule mailbox_inv_entry) (use k id seq in \<open>auto simp: entry_ok_def\<close>)
  qed
  moreover have "\<exists>at e. tget (mailbox s1) k = Some (be64 at @ to_json J e) \<and> env_id e = i"
    if "tget (by_id s1) i = Some k" for i k
  proof -
    from that have k: "tget (by_id s) i = Some k" "\<not> owned user k" using id by auto
    from inv k(1) show ?thesis
      by (rule mailbox_inv_by_id) (use k mb in blast)
  qed
  moreover have "tget (usage s1) u =
      (if held_count s1 u = 0 then None else Some (held_count s1 u, held_bytes s1 u))" for u
    using mailbox_inv_usage [OF inv, of u] by (simp add: usage held_count_trange held_bytes_trange tr)
  moreover have "mailbox_bytes s1 = tsum (\<lambda>_. length) (mailbox s1) \<and> mailbox_bytes s1 \<le> u64_max"
    using inv tsum_split [OF mb, of "\<lambda>_. length"] bytes by (simp add: mailbox_inv_def held_bytes_def)
  ultimately show ?thesis unfolding s' mailbox_inv_def by blast
qed

lemma letters_remove:
  assumes J: "json_reads_back J" and inv: "mailbox_inv J s" and "remove_user_mail J user s = Ok (r, s')"
  shows "letters_of J s' u = (if u = user then [] else letters_of J s u)"
proof -
  have "tget (mailbox s') k = Some v \<longleftrightarrow> tget (mailbox s) k = Some v \<and> \<not> owned user k" for k v
    using assms(3) by (rule_tac remove_user_mail_spec [OF J inv, of user]) simp
  then have "letters_of J s' u = filter (\<lambda>_. u \<noteq> user) (letters_of J s u)"
    by (rule letters_of_subset [OF J inv, where Q = "\<lambda>k v. \<not> owned user k"])
      (auto simp: owned_def)
  then show ?thesis by simp
qed

section \<open>Counts and reading\<close>

definition letters_bytes :: "envelope json \<Rightarrow> (u64 \<times> envelope) list \<Rightarrow> nat" where
  "letters_bytes J xs = (\<Sum>(at, e)\<leftarrow>xs. length (be64 at @ to_json J e))"

lemma letters_counts:
  assumes J: "json_reads_back J" and "\<forall>p\<in>set xs. \<exists>at e. snd p = be64 at @ to_json J e"
  shows "length (concat (map (\<lambda>(_, v). letter J v) xs)) = length xs \<and>
    letters_bytes J (concat (map (\<lambda>(_, v). letter J v) xs)) = (\<Sum>(k, v)\<leftarrow>xs. length v) \<and>
    try_map (\<lambda>((_, seq), v). and_then (decode_entry J v) (\<lambda>(_, e). Ok (seq, e))) xs =
      Ok (zip (map (snd \<circ> fst) xs) (map snd (concat (map (\<lambda>(_, v). letter J v) xs))))"
  using assms(2)
proof (induction xs)
  case (Cons p xs)
  obtain o' q v where p: "p = ((o', q), v)" by (metis surj_pair)
  obtain at e where "v = be64 at @ to_json J e" using Cons.prems p by auto
  with Cons J show ?case by (simp add: p letters_bytes_def)
qed (simp add: letters_bytes_def)

lemma mailbox_trange_decodes:
  assumes "mailbox_inv J s"
  shows "\<forall>p\<in>set (trange P (mailbox s)). \<exists>at e. snd p = be64 at @ to_json J e"
proof
  fix p assume "p \<in> set (trange P (mailbox s))"
  then have "tget (mailbox s) (fst p) = Some (snd p)" by auto
  from mailbox_inv_entry [OF assms this] show "\<exists>at e. snd p = be64 at @ to_json J e" by blast
qed

lemmas mailbox_counts = letters_counts [OF _ mailbox_trange_decodes]

lemma held_letters:
  assumes "json_reads_back J" "mailbox_inv J s"
  shows "held_count s u = length (letters_of J s u)"
    and "held_bytes s u = letters_bytes J (letters_of J s u)"
  using mailbox_counts [OF assms, of "owned u"]
  by (simp_all add: held_count_trange held_bytes_trange letters_of_def)

lemma held_count_fits: "mailbox_inv J s \<Longrightarrow> held_count s u \<le> u64_max"
proof -
  assume inv: "mailbox_inv J s"
  have "held_count s u \<le> tsum (\<lambda>_. length) (mailbox s)"
    unfolding held_count_def
  proof (rule tsum_mono_dom)
    fix k v assume "tget (mailbox s) k = Some v"
    from mailbox_inv_entry [OF inv this] show "(if owned u k then 1 else 0) \<le> length v" by force
  qed
  with inv show ?thesis by (simp add: mailbox_inv_def)
qed

lemma queued_letters:
  assumes J: "json_reads_back J" and inv: "mailbox_inv J s"
  shows "queued J u s = Ok (map snd (letters_of J s u))"
proof -
  let ?xs = "trange (owned u) (mailbox s)"
  have own: "(\<lambda>(o', seq). o' = u \<and> 0 \<le> seq) = owned u" by (auto simp: owned_def)
  have all: "take usize_max ?xs = ?xs"
    using held_count_fits [OF inv, of u] by (simp add: held_count_trange usize_max_def u64_max_def)
  note counts = mailbox_counts [OF J inv, of "owned u"]
  have "queued_from J u 0 usize_max s =
      Ok (zip (map (snd \<circ> fst) ?xs) (map snd (letters_of J s u)))"
    unfolding queued_from_def own all letters_of_def using counts by blast
  with counts show ?thesis
    by (simp add: queued_def letters_of_def)
qed

section \<open>Histories\<close>

datatype mailbox_op =
    Enqueue envelope u64
  | Ack user_id rstr
  | Expire u64
  | RemoveUser user_id

text \<open>A transaction that fails or panics leaves the tables as they were.\<close>

definition mailbox_step ::
  "envelope json \<Rightarrow> limits \<Rightarrow> mailbox_state \<Rightarrow> mailbox_op \<Rightarrow> mailbox_state" where
  "mailbox_step J l s x =
    (case x of
       Enqueue e now \<Rightarrow> (case enqueue J e now l s of Ok (_, s') \<Rightarrow> s' | _ \<Rightarrow> s)
     | Ack user i \<Rightarrow> snd (ack user i s)
     | Expire cutoff \<Rightarrow> (case expire J cutoff s of Ok (_, s') \<Rightarrow> s' | _ \<Rightarrow> s)
     | RemoveUser user \<Rightarrow> (case remove_user_mail J user s of Ok (_, s') \<Rightarrow> s' | _ \<Rightarrow> s))"

text \<open>What a step did, as its caller sees it, and what the specification makes of that.\<close>

datatype mailbox_event =
    Delivered envelope u64
  | Refused
  | Acked user_id rstr
  | Expired u64
  | Forgotten user_id

definition mailbox_event :: "envelope json \<Rightarrow> limits \<Rightarrow> mailbox_state \<Rightarrow> mailbox_op \<Rightarrow> mailbox_event" where
  "mailbox_event J l s x =
    (case x of
       Enqueue e now \<Rightarrow>
         (case enqueue J e now l s of Ok (Stored, _) \<Rightarrow> Delivered e now | _ \<Rightarrow> Refused)
     | Ack user i \<Rightarrow> Acked user i
     | Expire cutoff \<Rightarrow> Expired cutoff
     | RemoveUser user \<Rightarrow> Forgotten user)"

definition spec_mail ::
  "(user_id \<Rightarrow> (u64 \<times> envelope) list) \<Rightarrow> mailbox_event \<Rightarrow> user_id \<Rightarrow> (u64 \<times> envelope) list" where
  "spec_mail m ev =
    (case ev of
       Delivered e now \<Rightarrow> m(env_to e := m (env_to e) @ [(now, e)])
     | Refused \<Rightarrow> m
     | Acked user i \<Rightarrow> m(user := filter (\<lambda>(at, e). env_id e \<noteq> i) (m user))
     | Expired cutoff \<Rightarrow> (\<lambda>u. filter (\<lambda>(at, e). \<not> at < cutoff) (m u))
     | Forgotten user \<Rightarrow> m(user := []))"

lemma mailbox_inv_step:
  assumes "json_reads_back J" "mailbox_inv J s"
  shows "mailbox_inv J (mailbox_step J l s x)"
proof (cases x)
  case (Enqueue e now)
  with assms show ?thesis
    by (auto simp: mailbox_step_def split: res.split dest: mailbox_inv_enqueue [OF assms])
next
  case (Expire cutoff)
  with assms show ?thesis
    by (auto simp: mailbox_step_def split: res.split dest: mailbox_inv_expire [OF assms])
next
  case (RemoveUser user)
  with assms show ?thesis
    by (auto simp: mailbox_step_def split: res.split dest: mailbox_inv_remove [OF assms])
qed (simp add: mailbox_step_def mailbox_inv_ack [OF assms])

lemma expire_total:
  assumes "json_reads_back J" "mailbox_inv J s"
  shows "\<exists>n s'. expire J cutoff s = Ok (n, s')"
  by (rule expire_spec [OF assms, of cutoff]) blast

lemma remove_total:
  assumes "json_reads_back J" "mailbox_inv J s"
  shows "\<exists>r s'. remove_user_mail J user s = Ok (r, s')"
  by (rule remove_user_mail_spec [OF assms, of user]) blast

lemma letters_step:
  assumes "json_reads_back J" "mailbox_inv J s"
  shows "letters_of J (mailbox_step J l s x) = spec_mail (letters_of J s) (mailbox_event J l s x)"
proof (cases x)
  case (Enqueue e now)
  then show ?thesis
    using letters_put_entry [OF assms] enqueue_Stored [of J e now l s] enqueue_unchanged [of J e now l s]
    by (fastforce simp: mailbox_step_def mailbox_event_def spec_mail_def fun_eq_iff
        split: res.split enqueue_outcome.split)
next
  case (Expire cutoff)
  with expire_total [OF assms, of cutoff] show ?thesis
    by (auto simp: mailbox_step_def mailbox_event_def spec_mail_def letters_expire [OF assms])
next
  case (RemoveUser user)
  with remove_total [OF assms, of user] show ?thesis
    by (auto simp: mailbox_step_def mailbox_event_def spec_mail_def letters_remove [OF assms])
qed (auto simp: mailbox_step_def mailbox_event_def spec_mail_def letters_ack [OF assms])

interpretation mail: refinement "json_reads_back J" "mailbox_step J l" empty_mailbox "mailbox_inv J"
  "mailbox_event J l" "letters_of J" spec_mail for J l
  by unfold_locales (auto simp: mailbox_inv_empty mailbox_inv_step letters_step)

lemma letters_empty [simp]: "letters_of J empty_mailbox = (\<lambda>_. [])"
  by (rule ext) (simp add: letters_of_def empty_mailbox_def trange_def entries_iff)

section \<open>Limits\<close>

definition within_limits :: "envelope json \<Rightarrow> limits \<Rightarrow> mailbox_state \<Rightarrow> bool" where
  "within_limits J l s \<longleftrightarrow>
     (\<forall>u. (max_messages l > 0 \<longrightarrow> length (letters_of J s u) \<le> max_messages l) \<and>
          (max_bytes l > 0 \<longrightarrow> letters_bytes J (letters_of J s u) \<le> max_bytes l)) \<and>
     (max_total_bytes l > 0 \<longrightarrow> mailbox_bytes s \<le> max_total_bytes l)"

lemma letters_bytes_filter: "letters_bytes J (filter R xs) \<le> letters_bytes J xs"
  by (induction xs) (auto simp: letters_bytes_def)

lemma expire_loop_bytes: "mailbox_bytes (snd (expire_loop vs p)) \<le> mailbox_bytes (snd p)"
proof (induction vs p rule: expire_loop.induct)
  case (2 owner seq i vs removed s)
  then show ?case
    by (fastforce simp: Let_def take_from_def adjust_usage_def case_prod_beta
        split: option.split intro: le_trans)
qed simp

lemma mailbox_bytes_shrinks:
  assumes "json_reads_back J" "mailbox_inv J s" "\<And>e now. x \<noteq> Enqueue e now"
  shows "mailbox_bytes (mailbox_step J l s x) \<le> mailbox_bytes s"
proof (cases x)
  case (Ack user i)
  then show ?thesis
    by (auto simp: mailbox_step_def ack_eq [OF assms(2)] split: option.split)
next
  case (Expire cutoff)
  then show ?thesis
    using expire_loop_bytes [of _ "(0, s)"]
    by (auto simp: mailbox_step_def expire_def expire_victims_Ok [OF assms(1,2)] split: prod.split)
      (metis snd_conv)
next
  case (RemoveUser user)
  then show ?thesis
    by (rule_tac remove_user_mail_spec [OF assms(1,2), of user]) (simp add: mailbox_step_def)
qed (use assms in simp)

lemma letters_shrink:
  assumes "json_reads_back J" "mailbox_inv J s" "\<And>e now. x \<noteq> Enqueue e now"
  shows "\<exists>R. letters_of J (mailbox_step J l s x) u = filter R (letters_of J s u)"
proof -
  have "\<exists>R. m u = filter R (m u)" for m :: "user_id \<Rightarrow> (u64 \<times> envelope) list"
    by (rule exI [of _ "\<lambda>_. True"]) simp
  moreover have "\<exists>R. [] = filter R (m u)" for m :: "user_id \<Rightarrow> (u64 \<times> envelope) list"
    by (rule exI [of _ "\<lambda>_. False"]) simp
  moreover have "\<nexists>e now. x = Enqueue e now" using assms(3) by blast
  ultimately show ?thesis
    unfolding letters_step [OF assms(1,2)]
    by (cases x) (auto simp: mailbox_event_def spec_mail_def)
qed

lemma within_limits_step:
  assumes "json_reads_back J" "mailbox_inv J s" "within_limits J l s"
  shows "within_limits J l (mailbox_step J l s x)"
proof (cases "\<exists>e now s'. x = Enqueue e now \<and> enqueue J e now l s = Ok (Stored, s')")
  case True
  then obtain e now s' where x: "x = Enqueue e now" "enqueue J e now l s = Ok (Stored, s')" by blast
  let ?sz = "length (be64 now @ to_json J e)"
  have s': "s' = put_entry J e now s" and fit: "counters_fit s (env_to e) ?sz"
    and "\<not> over_limit l (usage_of s (env_to e)) ?sz" "\<not> over_total l (mailbox_bytes s) ?sz"
    using x(2) by (auto simp: enqueue_eq Let_def split: if_splits)
  then show ?thesis
    using assms(3) letters_put_entry [OF assms(1,2), of e now]
    by (auto simp: within_limits_def mailbox_step_def x over_limit_def over_total_def counters_fit_def
        usage_of_held [OF assms(2)] held_letters [OF assms(1,2)] sat_add64_def letters_bytes_def
        put_entry_def Let_def)
next
  case False
  show ?thesis
  proof (cases "\<exists>e now. x = Enqueue e now")
    case True
    with False assms(3) show ?thesis
      by (auto simp: mailbox_step_def split: res.split) (metis enqueue_unchanged)
  next
    case False
    then have noenq: "\<And>e now. x \<noteq> Enqueue e now" by blast
    have "length (letters_of J (mailbox_step J l s x) u) \<le> length (letters_of J s u) \<and>
        letters_bytes J (letters_of J (mailbox_step J l s x) u) \<le> letters_bytes J (letters_of J s u)" for u
      using letters_shrink [OF assms(1,2) noenq, of l u] letters_bytes_filter
      by (metis length_filter_le)
    with mailbox_bytes_shrinks [OF assms(1,2) noenq, of l] assms(3) show ?thesis
      unfolding within_limits_def by (meson le_trans)
  qed
qed

interpretation mail_limits: run_invariant "json_reads_back J" "mailbox_step J l" empty_mailbox
  "\<lambda>s. mailbox_inv J s \<and> within_limits J l s" for J l
proof unfold_locales
  show "mailbox_inv J empty_mailbox \<and> within_limits J l empty_mailbox"
    by (simp add: mailbox_inv_empty within_limits_def letters_bytes_def) (simp add: empty_mailbox_def)
qed (simp add: mailbox_inv_step within_limits_step)

text \<open>A concrete history: one envelope stored under the default limits.\<close>

definition demo_letter :: "nat \<Rightarrow> u8 \<Rightarrow> envelope" where
  "demo_letter i to = \<lparr>env_id = [i], env_to = [to], ephemeral_public = [], env_nonce = [], ciphertext = [7]\<rparr>"

abbreviation demo_mail :: mailbox_state where
  "demo_mail \<equiv> run (mailbox_step demo_envelope_json default_limits) empty_mailbox [Enqueue (demo_letter 2 5) 10]"

lemma demo_letter_size: "length (to_json demo_envelope_json (demo_letter 2 5)) = 22"
  by (simp add: demo_envelope_json_def demo_json_def put_fields_def demo_letter_def)

lemma demo_mail_eq: "demo_mail = put_entry demo_envelope_json (demo_letter 2 5) 10 empty_mailbox"
proof -
  have "\<not> over_limit default_limits (0, 0) 30" "\<not> over_total default_limits 0 30"
    by (simp_all add: over_limit_def over_total_def default_limits_def sat_add64_def)
  moreover have "usage_of empty_mailbox u = (0, 0)" "mailbox_bytes empty_mailbox = 0"
      "next_seq empty_mailbox = 0" "tget (by_id empty_mailbox) i = None" for u i
    by (simp_all add: empty_mailbox_def usage_of_def)
  ultimately show ?thesis
    by (simp add: mailbox_step_def enqueue_eq Let_def demo_letter_size counters_fit_def u64_max_def)
qed

lemma demo_mail_letters: "letters_of demo_envelope_json demo_mail [5] = [(10, demo_letter 2 5)]"
  unfolding demo_mail_eq
  by (simp add: letters_put_entry demo_envelope_reads_back mailbox_inv_empty) (simp add: demo_letter_def)

section \<open>Properties\<close>

text \<open>
  C5. Refinement. Over any history of operations the relay's mailboxes are the abstract
  mailboxes of the events it reported: a stored envelope is appended to its recipient's
  queue, an acknowledgement takes out exactly the envelopes of that id from that user's own
  queue, expiry filters every queue by age, removing a user empties that queue, and nothing
  else changes any queue.
\<close>

theorem mailbox_refines_queues:
  assumes "json_reads_back J"
  shows "letters_of J (run (mailbox_step J l) empty_mailbox xs) =
    run spec_mail (\<lambda>_. []) (trace (mailbox_step J l) (mailbox_event J l) empty_mailbox xs)"
  using mail.view_run [OF assms] by simp

theorem mailbox_refines_queues_witness:
  "letters_of demo_envelope_json
     (run (mailbox_step demo_envelope_json default_limits) empty_mailbox
       [Enqueue (demo_letter 2 5) 10, Enqueue (demo_letter 3 5) 11, Ack [5] [2]]) =
   run spec_mail (\<lambda>_. []) (trace (mailbox_step demo_envelope_json default_limits)
     (mailbox_event demo_envelope_json default_limits) empty_mailbox
       [Enqueue (demo_letter 2 5) 10, Enqueue (demo_letter 3 5) 11, Ack [5] [2]])"
  by (rule mailbox_refines_queues [OF demo_envelope_reads_back])

text \<open>
  C16. Invariant. In every state a history reaches, the counters and the index agree with
  what is stored: a user's USAGE row is the number and the total size of the entries waiting
  for that user, MAILBOX_BYTES is the size of all entries, and an id is in BY_ID exactly
  when some user holds an envelope with that id.
\<close>

theorem mailbox_accounting_exact:
  assumes "json_reads_back J" and "s = run (mailbox_step J l) empty_mailbox xs"
  shows "usage_of s u = (length (letters_of J s u), letters_bytes J (letters_of J s u)) \<and>
    mailbox_bytes s = tsum (\<lambda>_ v. length v) (mailbox s) \<and>
    (tget (by_id s) i \<noteq> None \<longleftrightarrow> (\<exists>u at e. (at, e) \<in> set (letters_of J s u) \<and> env_id e = i))"
proof -
  have inv: "mailbox_inv J s" using mail.inv_reachable [OF assms(1)] assms(2) by simp
  moreover have "mailbox_bytes s = tsum (\<lambda>_ v. length v) (mailbox s)"
    using inv by (simp add: mailbox_inv_def)
  moreover have "tget (by_id s) i \<noteq> None \<longleftrightarrow> (\<exists>u at e. (at, e) \<in> set (letters_of J s u) \<and> env_id e = i)"
    unfolding by_id_letters [OF assms(1) inv, of i] by blast
  ultimately show ?thesis using assms(1) by (simp add: usage_of_held held_letters)
qed

theorem mailbox_accounting_exact_witness:
  "usage_of demo_mail [5] = (1, 30) \<and> tget (by_id demo_mail) [2] \<noteq> None"
proof -
  have "(\<exists>u at e. (at, e) \<in> set (letters_of demo_envelope_json demo_mail u) \<and> env_id e = [2])"
    by (rule exI [of _ "[5]"], rule exI [of _ 10], rule exI [of _ "demo_letter 2 5"]) (simp add: demo_mail_letters del: run.simps, simp add: demo_letter_def)
  with mailbox_accounting_exact [OF demo_envelope_reads_back refl, of default_limits
      "[Enqueue (demo_letter 2 5) 10]" "[5]" "[2]"]
  show ?thesis by (simp add: demo_mail_letters letters_bytes_def demo_letter_size del: run.simps)
qed

text \<open>
  C17. Bounds. Under one configuration no history takes a mailbox past the message or byte
  limit per user, or the whole store past its byte limit, where the limits are set
  (non-zero).
\<close>

theorem mailbox_limits_hold:
  assumes "json_reads_back J" and "s = run (mailbox_step J l) empty_mailbox xs"
  shows "(max_messages l > 0 \<longrightarrow> length (letters_of J s u) \<le> max_messages l) \<and>
    (max_bytes l > 0 \<longrightarrow> letters_bytes J (letters_of J s u) \<le> max_bytes l) \<and>
    (max_total_bytes l > 0 \<longrightarrow> mailbox_bytes s \<le> max_total_bytes l)"
  using mail_limits.inv_reachable [OF assms(1), of l xs] assms(2) by (simp add: within_limits_def)

theorem mailbox_limits_hold_witness:
  "length (letters_of demo_envelope_json demo_mail [5]) \<le> 1000 \<and> mailbox_bytes demo_mail \<le> 4294967296"
  using mailbox_limits_hold [OF demo_envelope_reads_back refl, of default_limits
      "[Enqueue (demo_letter 2 5) 10]" "[5]"]
  by (simp add: default_limits_def del: run.simps)

text \<open>
  C21. Functional behaviour. In every reachable state reading a user's queue succeeds and
  gives exactly the waiting envelopes, oldest first. Storing one answers Duplicate exactly
  when anyone holds its id; otherwise MailboxFull exactly when the recipient's count or bytes
  would pass a set limit; otherwise StorageFull exactly when the relay's total would; all
  three change nothing. Otherwise the envelope is stored at the end of its recipient's queue
  and no other queue changes, unless one of the 64-bit counters would overflow, which panics.
\<close>

theorem mailbox_answers:
  assumes "json_reads_back J" and "s = run (mailbox_step J l) empty_mailbox xs"
    and "sz = length (be64 now @ to_json J e)" and "u = env_to e"
    and "held \<longleftrightarrow> (\<exists>v at f. (at, f) \<in> set (letters_of J s v) \<and> env_id f = env_id e)"
    and "mailbox_full \<longleftrightarrow>
      max_messages l > 0 \<and> length (letters_of J s u) \<ge> max_messages l \<or>
      max_bytes l > 0 \<and> sat_add64 (letters_bytes J (letters_of J s u)) sz > max_bytes l"
    and "storage_full \<longleftrightarrow> max_total_bytes l > 0 \<and> sat_add64 (mailbox_bytes s) sz > max_total_bytes l"
    and "overflow \<longleftrightarrow> next_seq s \<ge> u64_max \<or> mailbox_bytes s + sz > u64_max \<or>
      length (letters_of J s u) \<ge> u64_max \<or> letters_bytes J (letters_of J s u) + sz > u64_max"
  shows "queued J v s = Ok (map snd (letters_of J s v)) \<and>
    (if held then enqueue J e now l s = Ok (Duplicate, s)
     else if mailbox_full then enqueue J e now l s = Ok (MailboxFull, s)
     else if storage_full then enqueue J e now l s = Ok (StorageFull, s)
     else if overflow then enqueue J e now l s = Panic
     else \<exists>s'. enqueue J e now l s = Ok (Stored, s') \<and>
       queued J u s' = Ok (map snd (letters_of J s u) @ [e]) \<and>
       (\<forall>w. w \<noteq> u \<longrightarrow> queued J w s' = queued J w s))"
proof -
  have inv: "mailbox_inv J s" using mail.inv_reachable [OF assms(1)] assms(2) by simp
  note usage = usage_of_held [OF inv] held_letters [OF assms(1) inv]
  have dup: "held \<longleftrightarrow> tget (by_id s) (env_id e) \<noteq> None"
    unfolding assms(5) by_id_letters [OF assms(1) inv] by blast
  have full: "mailbox_full \<longleftrightarrow> over_limit l (usage_of s (env_to e)) sz"
    unfolding assms(4,6) by (simp add: over_limit_def usage)
  have fit: "overflow \<longleftrightarrow> \<not> counters_fit s (env_to e) sz"
    unfolding assms(4,8) by (auto simp: counters_fit_def usage not_le)
  have stored: "queued J u (put_entry J e now s) = Ok (map snd (letters_of J s u) @ [e]) \<and>
      (\<forall>w. w \<noteq> u \<longrightarrow> queued J w (put_entry J e now s) = queued J w s)"
    if "enqueue J e now l s = Ok (Stored, put_entry J e now s)"
    using queued_letters [OF assms(1) mailbox_inv_enqueue [OF assms(1) inv that]] queued_letters [OF assms(1) inv]
      letters_put_entry [OF assms(1) inv, of e now] assms(4) by simp
  show ?thesis
    using queued_letters [OF assms(1) inv] stored unfolding dup full fit assms(7) over_total_def [symmetric]
    by (simp add: enqueue_eq Let_def assms(3))
qed

theorem mailbox_answers_witness:
  "queued demo_envelope_json [5] demo_mail = Ok [demo_letter 2 5] \<and>
   enqueue demo_envelope_json (demo_letter 2 5) 12 default_limits demo_mail = Ok (Duplicate, demo_mail)"
proof -
  have "\<exists>v at f. (at, f) \<in> set (letters_of demo_envelope_json demo_mail v) \<and> env_id f = env_id (demo_letter 2 5)"
    by (rule exI [of _ "[5]"]) (simp add: demo_mail_letters del: run.simps)
  then show ?thesis
    using mailbox_answers [OF demo_envelope_reads_back refl refl refl refl refl refl refl, where l = default_limits
      and xs = "[Enqueue (demo_letter 2 5) 10]" and now = 12 and e = "demo_letter 2 5" and v = "[5]"]
    by (simp add: demo_mail_letters del: run.simps split: if_splits)
qed

end
