(* ===== verification/RelayDeposit.thy ===== *)
theory RelayDeposit
  imports EnvelopeTypes Bundles
begin

text \<open>
  The deposits of \<^verbatim>\<open>silver-relay/src/store.rs\<close> a peer draws one-time material from: X25519
  one-time prekeys and ML-KEM one-time prekeys (\<open>replace_deposit\<close>, \<open>take_from_deposit\<close>,
  \<open>deposit_status\<close>, shared by both pairs of tables), and MLS key packages with their
  last-resort package. Each operation is one write transaction.

  A table value the code keeps as JSON of a typed value is that value here: the store reads
  back only what it wrote itself.
\<close>

section \<open>One-time prekeys\<close>

record deposit =
  deposited :: "(bytes \<times> u32, bytes) table"
  used_keys :: "(bytes \<times> u32, unit) table"

definition empty_deposit :: deposit where
  "empty_deposit = \<lparr>deposited = RBT.empty, used_keys = RBT.empty\<rparr>"

definition user_ids :: "bytes \<Rightarrow> (bytes \<times> u32, 'v) table \<Rightarrow> u32 list" where
  "user_ids user t = map (\<lambda>(k, _). snd k) (trange (\<lambda>k. fst k = user) t)"

fun insert_listed :: "bytes \<Rightarrow> (u32 \<times> bytes) list \<Rightarrow> deposit \<Rightarrow> deposit" where
  "insert_listed user [] d = d"
| "insert_listed user ((i, encoded) # keys) d =
    (if tget (used_keys d) (user, i) \<noteq> None \<or> tget (deposited d) (user, i) \<noteq> None
     then insert_listed user keys d
     else insert_listed user keys (d\<lparr>deposited := tput (user, i) encoded (deposited d)\<rparr>))"

definition replace_deposit :: "bytes \<Rightarrow> (u32 \<times> bytes) list \<Rightarrow> deposit \<Rightarrow> deposit" where
  "replace_deposit user keys d =
    (let listed = map fst keys;
         stale = filter (\<lambda>i. i \<notin> set listed) (user_ids user (deposited d));
         stale_used = filter (\<lambda>i. i \<notin> set listed) (user_ids user (used_keys d));
         d1 = d\<lparr>deposited := tdel_all (map (Pair user) stale) (deposited d)\<rparr>;
         d2 = d1\<lparr>used_keys := tdel_all (map (Pair user) stale_used) (used_keys d1)\<rparr>
     in insert_listed user keys d2)"

definition take_from_deposit :: "bytes \<Rightarrow> deposit \<Rightarrow> (u32 \<times> bytes) option \<times> deposit" where
  "take_from_deposit user d =
    (case trange (\<lambda>k. fst k = user) (deposited d) of
       [] \<Rightarrow> (None, d)
     | ((_, i), encoded) # _ \<Rightarrow>
         (Some (i, encoded),
          d\<lparr>deposited := tdel (user, i) (deposited d), used_keys := tput (user, i) () (used_keys d)\<rparr>))"

text \<open>The count is a \<open>u32\<close> raised by one per entry, which panics when it would wrap.\<close>

definition deposit_status :: "bytes \<Rightarrow> deposit \<Rightarrow> (nat \<times> u32 list, string) res" where
  "deposit_status user d =
    (let remaining = length (user_ids user (deposited d)) in
     if remaining < 2 ^ 32 then Ok (remaining, user_ids user (used_keys d)) else Panic)"

definition set_one_time_prekeys :: "bytes \<Rightarrow> one_time_prekey list \<Rightarrow> deposit \<Rightarrow> deposit" where
  "set_one_time_prekeys user keys d = replace_deposit user (map (\<lambda>k. (otk_id k, otk_public k)) keys) d"

text \<open>The key is taken and committed before its length is looked at.\<close>

definition take_one_time_prekey ::
  "bytes \<Rightarrow> deposit \<Rightarrow> (one_time_prekey option, string) res \<times> deposit" where
  "take_one_time_prekey user d =
    (case take_from_deposit user d of
       (None, d') \<Rightarrow> (Ok None, d')
     | (Some (i, public), d') \<Rightarrow>
         (if length public = 32 then Ok (Some \<lparr>otk_id = i, otk_public = public\<rparr>)
          else Err ''stored one-time prekey has the wrong length'', d'))"

text \<open>The part of \<open>remove_user_data\<close> that empties a user's deposit and forgets which keys went out.\<close>

definition clear_deposit :: "user_id \<Rightarrow> deposit \<Rightarrow> nat \<times> deposit" where
  "clear_deposit user d =
    (let ids = user_ids user (deposited d); used = user_ids user (used_keys d)
     in (length ids, d\<lparr>deposited := tdel_all (map (Pair user) ids) (deposited d),
                        used_keys := tdel_all (map (Pair user) used) (used_keys d)\<rparr>))"

section \<open>Key packages\<close>

record key_package =
  kp_ref :: bytes
  kp_expires_at_ms :: nat
  kp_data :: bytes

record package_store =
  packages :: "(bytes \<times> nat, key_package) table"
  packages_used :: "(bytes \<times> bytes, unit) table"
  last_resorts :: "(bytes, key_package) table"
  next_key_package :: nat

definition empty_packages :: package_store where
  "empty_packages = \<lparr>packages = RBT.empty, packages_used = RBT.empty, last_resorts = RBT.empty,
                     next_key_package = 0\<rparr>"

definition user_packages :: "bytes \<Rightarrow> package_store \<Rightarrow> ((bytes \<times> nat) \<times> key_package) list" where
  "user_packages user s = trange (\<lambda>k. fst k = user) (packages s)"

text \<open>The insertion loop, over the refs already \<open>present\<close>; NEXT\_KEY\_PACKAGE is a checked \<open>u64\<close>.\<close>

fun insert_packages ::
  "bytes \<Rightarrow> key_package list \<Rightarrow> bytes list \<Rightarrow> package_store \<Rightarrow> (package_store, string) res" where
  "insert_packages user [] present s = Ok s"
| "insert_packages user (p # ps) present s =
    (if kp_ref p \<in> set present \<or> tget (packages_used s) (user, kp_ref p) \<noteq> None
     then insert_packages user ps present s
     else case add64 (next_key_package s) 1 of
       None \<Rightarrow> Panic
     | Some seq' \<Rightarrow>
         insert_packages user ps (kp_ref p # present)
           (s\<lparr>packages := tput (user, next_key_package s) p (packages s), next_key_package := seq'\<rparr>))"

definition set_key_packages ::
  "bytes \<Rightarrow> key_package list \<Rightarrow> key_package option \<Rightarrow> package_store \<Rightarrow> (package_store, string) res" where
  "set_key_packages user ps last_resort s =
    (let listed = map kp_ref ps;
         mine = user_packages user s;
         present = filter (\<lambda>r. r \<in> set listed) (map (\<lambda>(_, p). kp_ref p) mine);
         stale = map fst (filter (\<lambda>(_, p). kp_ref p \<notin> set listed) mine);
         used = map (\<lambda>(k, _). snd k) (trange (\<lambda>k. fst k = user) (packages_used s));
         stale_used = filter (\<lambda>r. \<not> (length r = 32 \<and> r \<in> set listed)) used;
         s1 = s\<lparr>packages := tdel_all stale (packages s),
                packages_used := tdel_all (map (Pair user) stale_used) (packages_used s)\<rparr>
     in and_then (insert_packages user ps present s1)
       (\<lambda>s2. Ok (case last_resort of
           Some p \<Rightarrow> s2\<lparr>last_resorts := tput user p (last_resorts s2)\<rparr>
         | None \<Rightarrow> s2\<lparr>last_resorts := tdel user (last_resorts s2)\<rparr>)))"

definition last_resort_in :: "bytes \<Rightarrow> nat \<Rightarrow> package_store \<Rightarrow> key_package option \<times> package_store" where
  "last_resort_in user now_ms s =
    (case tget (last_resorts s) user of
       None \<Rightarrow> (None, s)
     | Some p \<Rightarrow>
         if kp_expires_at_ms p \<le> now_ms then (None, s\<lparr>last_resorts := tdel user (last_resorts s)\<rparr>)
         else (Some p, s))"

definition expired_package :: "nat \<Rightarrow> ((bytes \<times> nat) \<times> key_package) \<Rightarrow> bool" where
  "expired_package now_ms e \<longleftrightarrow> kp_expires_at_ms (snd e) \<le> now_ms"

definition take_key_package ::
  "bytes \<Rightarrow> nat \<Rightarrow> package_store \<Rightarrow> (key_package \<times> bool) option \<times> package_store" where
  "take_key_package user now_ms s =
    (let mine = user_packages user s;
         expired = map fst (takeWhile (expired_package now_ms) mine);
         s1 = s\<lparr>packages := tdel_all expired (packages s)\<rparr>
     in case dropWhile (expired_package now_ms) mine of
          ((_, seq), p) # _ \<Rightarrow>
            (Some (p, False),
             s1\<lparr>packages := tdel (user, seq) (packages s1),
                packages_used := tput (user, kp_ref p) () (packages_used s1)\<rparr>)
        | [] \<Rightarrow> (case last_resort_in user now_ms s1 of (p, s2) \<Rightarrow> (map_option (\<lambda>p. (p, True)) p, s2)))"

definition key_package_status :: "bytes \<Rightarrow> package_store \<Rightarrow> (nat \<times> bytes list, string) res" where
  "key_package_status user s =
    (let remaining = length (user_packages user s);
         used = map (\<lambda>(k, _). snd k) (trange (\<lambda>k. fst k = user) (packages_used s))
     in if remaining < 2 ^ 32 then Ok (remaining, filter (\<lambda>r. length r = 32) used) else Panic)"

definition expire_key_packages :: "nat \<Rightarrow> package_store \<Rightarrow> nat \<times> package_store" where
  "expire_key_packages now_ms s =
    (let victims = map fst (filter (expired_package now_ms) (RBT.entries (packages s)));
         last_victims = map fst (filter (\<lambda>(_, p). kp_expires_at_ms p \<le> now_ms) (RBT.entries (last_resorts s)))
     in (length victims + length last_victims,
         s\<lparr>packages := tdel_all victims (packages s),
           last_resorts := tdel_all last_victims (last_resorts s)\<rparr>))"

text \<open>The part of \<open>remove_user_data\<close> that drops a user's key packages.\<close>

definition clear_packages :: "user_id \<Rightarrow> package_store \<Rightarrow> nat \<times> package_store" where
  "clear_packages user s =
    (let seqs = map fst (user_packages user s);
         refs = map fst (trange (\<lambda>k. fst k = user) (packages_used s))
     in (length seqs + of_bool (tget (last_resorts s) user \<noteq> None),
         s\<lparr>packages := tdel_all seqs (packages s), packages_used := tdel_all refs (packages_used s),
           last_resorts := tdel user (last_resorts s)\<rparr>))"

section \<open>What the prekey operations do to the tables\<close>

lemma set_user_ids [simp]: "set (user_ids user t) = {i. tget t (user, i) \<noteq> None}"
  by (force simp: user_ids_def)

lemma insert_listed_used [simp]: "used_keys (insert_listed user keys d) = used_keys d"
  by (induction user keys d rule: insert_listed.induct) auto

lemma insert_listed_deposited:
  "tget (deposited (insert_listed user keys d)) (u, i) =
    (if u = user \<and> tget (deposited d) (u, i) = None \<and> tget (used_keys d) (u, i) = None
     then map_of keys i else tget (deposited d) (u, i))"
  by (induction user keys d rule: insert_listed.induct) auto

lemma tget_stale:
  "tget (tdel_all (map (Pair user) (filter (\<lambda>i. i \<notin> A) (user_ids user t))) t) (u, i) =
    (if u = user \<and> i \<notin> A then None else tget t (u, i))"
  by (auto simp: image_iff)

definition listed_ids :: "(u32 \<times> bytes) list \<Rightarrow> u32 set" where
  "listed_ids keys = fst ` set keys"

lemma replace_deposit_used:
  "tget (used_keys (replace_deposit user keys d)) (u, i) =
    (if u = user \<and> i \<notin> listed_ids keys then None else tget (used_keys d) (u, i))"
  by (simp add: replace_deposit_def Let_def tget_stale listed_ids_def del: tget_tdel_all set_map)
    (auto simp: image_iff)

lemma replace_deposit_deposited:
  "tget (deposited (replace_deposit user keys d)) (u, i) =
    (if u \<noteq> user then tget (deposited d) (u, i)
     else if i \<notin> listed_ids keys then None
     else if tget (deposited d) (u, i) \<noteq> None then tget (deposited d) (u, i)
     else if tget (used_keys d) (u, i) \<noteq> None then None
     else map_of keys i)"
  unfolding replace_deposit_def Let_def insert_listed_deposited
  by (auto simp: tget_stale listed_ids_def map_of_eq_None_iff simp del: tget_tdel_all)

lemma take_from_deposit_cases:
  obtains (none) "take_from_deposit user d = (None, d)" "\<And>i. tget (deposited d) (user, i) = None"
  | (took) i v where "take_from_deposit user d = (Some (i, v),
        d\<lparr>deposited := tdel (user, i) (deposited d), used_keys := tput (user, i) () (used_keys d)\<rparr>)"
      "tget (deposited d) (user, i) = Some v"
      "\<And>j. tget (deposited d) (user, j) \<noteq> None \<Longrightarrow> i \<le> j"
proof (cases "trange (\<lambda>k. fst k = user) (deposited d)")
  case Nil
  then show ?thesis by (intro none) (auto simp: take_from_deposit_def trange_Nil)
next
  case (Cons e es)
  obtain u i v where e: "e = ((u, i), v)" by (metis surj_pair)
  have mem: "e \<in> set (trange (\<lambda>k. fst k = user) (deposited d))" using Cons by (metis list.set_intros(1))
  then have v: "tget (deposited d) (user, i) = Some v" and u: "u = user" by (auto simp: e)
  have "i \<le> j" if j: "tget (deposited d) (user, j) \<noteq> None" for j
  proof -
    from j obtain w where "((user, j), w) \<in> set (e # es)" unfolding Cons [symmetric] by auto
    moreover have "sorted_wrt (<) (map fst (e # es))" unfolding Cons [symmetric] by (rule sorted_trange)
    ultimately show ?thesis by (auto simp: e u)
  qed
  with Cons e u v show ?thesis by (intro took) (auto simp: take_from_deposit_def)
qed

lemma clear_deposit_rows:
  "clear_deposit v d = (n, d') \<Longrightarrow>
    tget (deposited d') (u, i) = (if u = v then None else tget (deposited d) (u, i)) \<and>
    tget (used_keys d') (u, i) = (if u = v then None else tget (used_keys d) (u, i))"
  by (auto simp: clear_deposit_def Let_def image_iff)

section \<open>At most once\<close>

datatype deposit_op = Replace bytes "(u32 \<times> bytes) list" | Take bytes | ClearDeposit bytes

definition deposit_step :: "deposit \<Rightarrow> deposit_op \<Rightarrow> deposit" where
  "deposit_step d x =
    (case x of
       Replace user keys \<Rightarrow> replace_deposit user keys d
     | Take user \<Rightarrow> snd (take_from_deposit user d)
     | ClearDeposit user \<Rightarrow> snd (clear_deposit user d))"

definition deposit_hands :: "deposit \<Rightarrow> deposit_op \<Rightarrow> (bytes \<times> u32) option" where
  "deposit_hands d x =
    (case x of
       Take user \<Rightarrow> map_option (\<lambda>(i, _). (user, i)) (fst (take_from_deposit user d))
     | _ \<Rightarrow> None)"

definition deposit_keeps :: "deposit_op \<Rightarrow> bytes \<times> u32 \<Rightarrow> bool" where
  "deposit_keeps x k =
    (case x of
       Replace user keys \<Rightarrow> fst k = user \<longrightarrow> snd k \<in> fst ` set keys
     | Take _ \<Rightarrow> True
     | ClearDeposit user \<Rightarrow> fst k \<noteq> user)"

definition deposit_inv :: "deposit \<Rightarrow> bool" where
  "deposit_inv d \<longleftrightarrow> (\<forall>k. tget (deposited d) k \<noteq> None \<longrightarrow> tget (used_keys d) k = None)"

lemma deposit_inv_replace:
  assumes "deposit_inv d"
  shows "deposit_inv (replace_deposit user keys d)"
  unfolding deposit_inv_def
proof
  fix k
  show "tget (deposited (replace_deposit user keys d)) k \<noteq> None \<longrightarrow>
      tget (used_keys (replace_deposit user keys d)) k = None"
    using assms by (cases k) (auto simp: deposit_inv_def replace_deposit_used replace_deposit_deposited)
qed

lemma deposit_inv_step: "deposit_inv d \<Longrightarrow> deposit_inv (deposit_step d x)"
proof (cases x)
  case (Take user)
  assume "deposit_inv d"
  with Take show ?thesis
    by (cases rule: take_from_deposit_cases [of user d]) (auto simp: deposit_step_def deposit_inv_def)
next
  case (ClearDeposit user)
  assume "deposit_inv d"
  with ClearDeposit show ?thesis
    using clear_deposit_rows [of user d "fst (clear_deposit user d)" "snd (clear_deposit user d)"]
    by (simp add: deposit_step_def deposit_inv_def)
qed (simp add: deposit_step_def deposit_inv_replace)

interpretation deposits: one_time True deposit_step empty_deposit deposit_inv deposit_hands
  "\<lambda>d k. tget (used_keys d) k \<noteq> None" "\<lambda>k d x. deposit_keeps x k"
proof unfold_locales
  show "deposit_inv empty_deposit" by (simp add: deposit_inv_def empty_deposit_def)
next
  fix d x k assume inv: "deposit_inv d" and h: "deposit_hands d x = Some k"
  then obtain user where x: "x = Take user" by (cases x) (auto simp: deposit_hands_def)
  show "\<not> tget (used_keys d) k \<noteq> None"
    using inv h unfolding x
    by (cases rule: take_from_deposit_cases [of user d]) (auto simp: deposit_hands_def deposit_inv_def)
  show "tget (used_keys (deposit_step d x)) k \<noteq> None"
    using h unfolding x
    by (cases rule: take_from_deposit_cases [of user d]) (auto simp: deposit_hands_def deposit_step_def)
next
  fix d :: deposit and x k assume spent: "tget (used_keys d) k \<noteq> None" and keeps: "deposit_keeps x k"
  obtain u i where k: "k = (u, i)" by (cases k)
  show "tget (used_keys (deposit_step d x)) k \<noteq> None"
  proof (cases x)
    case (Replace user keys)
    with spent keeps show ?thesis
      by (auto simp: k deposit_step_def deposit_keeps_def replace_deposit_used listed_ids_def)
  next
    case (Take user)
    with spent show ?thesis
      by (cases rule: take_from_deposit_cases [of user d]) (auto simp: deposit_step_def)
  next
    case (ClearDeposit user)
    with spent keeps show ?thesis
      using clear_deposit_rows [of user d "fst (clear_deposit user d)" "snd (clear_deposit user d)"]
      by (simp add: k deposit_step_def deposit_keeps_def)
  qed
qed (simp_all add: deposit_inv_step)

section \<open>Key packages at most once\<close>

definition package_inv :: "package_store \<Rightarrow> bool" where
  "package_inv s \<longleftrightarrow>
     (\<forall>u q p. tget (packages s) (u, q) = Some p \<longrightarrow>
        q < next_key_package s \<and> tget (packages_used s) (u, kp_ref p) = None) \<and>
     (\<forall>u q q' p p'. tget (packages s) (u, q) = Some p \<longrightarrow> tget (packages s) (u, q') = Some p' \<longrightarrow>
        kp_ref p = kp_ref p' \<longrightarrow> q = q')"

lemma package_inv_subset:
  assumes "package_inv s" "next_key_package s' = next_key_package s"
    "\<And>u q p. tget (packages s') (u, q) = Some p \<Longrightarrow> tget (packages s) (u, q) = Some p \<and>
        tget (packages_used s') (u, kp_ref p) = None"
  shows "package_inv s'"
  unfolding package_inv_def
proof (intro conjI allI impI)
  fix u q p assume "tget (packages s') (u, q) = Some p"
  with assms(3) have "tget (packages s) (u, q) = Some p" "tget (packages_used s') (u, kp_ref p) = None"
    by blast+
  with assms(1,2) show "q < next_key_package s'" "tget (packages_used s') (u, kp_ref p) = None"
    by (auto simp: package_inv_def)
next
  fix u q q' p p'
  assume "tget (packages s') (u, q) = Some p" "tget (packages s') (u, q') = Some p'" "kp_ref p = kp_ref p'"
  with assms show "q = q'" unfolding package_inv_def by metis
qed

lemma insert_packages_inv:
  assumes "package_inv s" "insert_packages user ps present s = Ok s'"
    and "\<And>q p. tget (packages s) (user, q) = Some p \<Longrightarrow> kp_ref p \<in> set present"
  shows "package_inv s' \<and> packages_used s' = packages_used s"
  using assms
proof (induction user ps present s rule: insert_packages.induct)
  case (2 user p ps present s)
  show ?case
  proof (cases "kp_ref p \<in> set present \<or> tget (packages_used s) (user, kp_ref p) \<noteq> None")
    case True
    with 2 show ?thesis by auto
  next
    case False
    let ?s = "s\<lparr>packages := tput (user, next_key_package s) p (packages s),
        next_key_package := next_key_package s + 1\<rparr>"
    from False 2(4) have add: "add64 (next_key_package s) 1 = Some (next_key_package s + 1)"
      and ok: "insert_packages user ps (kp_ref p # present) ?s = Ok s'"
      by (auto split: option.splits)
    have "package_inv ?s"
      using 2(3,5) False unfolding package_inv_def
      by (auto split: if_splits) (metis less_SucI)+
    moreover have "kp_ref p' \<in> set (kp_ref p # present)" if "tget (packages ?s) (user, q) = Some p'" for q p'
      using that 2(5) by (auto split: if_splits)
    ultimately show ?thesis using 2(2) [OF False add _ ok] by simp
  qed
qed simp

lemma set_key_packages_inv:
  assumes inv: "package_inv s" and ok: "set_key_packages user ps lr s = Ok s'"
  shows "package_inv s' \<and> (\<forall>u r. tget (packages_used s') (u, r) =
    (if u = user \<and> \<not> (length r = 32 \<and> r \<in> kp_ref ` set ps) then None else tget (packages_used s) (u, r)))"
proof -
  let ?mine = "user_packages user s"
  let ?stale = "map fst (filter (\<lambda>(_, p). kp_ref p \<notin> set (map kp_ref ps)) ?mine)"
  let ?used = "map (\<lambda>(k, _). snd k) (trange (\<lambda>k. fst k = user) (packages_used s))"
  let ?su = "map (Pair user) (filter (\<lambda>r. \<not> (length r = 32 \<and> r \<in> set (map kp_ref ps))) ?used)"
  let ?present = "filter (\<lambda>r. r \<in> set (map kp_ref ps)) (map (\<lambda>(_, p). kp_ref p) ?mine)"
  let ?s1 = "s\<lparr>packages := tdel_all ?stale (packages s),
      packages_used := tdel_all ?su (packages_used s)\<rparr>"
  from ok obtain s2 where s2: "insert_packages user ps ?present ?s1 = Ok s2"
    and s': "packages s' = packages s2" "packages_used s' = packages_used s2"
      "next_key_package s' = next_key_package s2"
    by (cases "insert_packages user ps ?present ?s1 :: (package_store, string) res")
      (auto simp: set_key_packages_def Let_def split: option.splits)
  have used1: "tget (packages_used ?s1) (u, r) =
      (if u = user \<and> \<not> (length r = 32 \<and> r \<in> kp_ref ` set ps) then None else tget (packages_used s) (u, r))" for u r
    by (force simp: image_iff)
  have inv1: "package_inv ?s1"
    using inv by (rule package_inv_subset) (use inv used1 in \<open>auto simp: package_inv_def split: if_splits\<close>)
  have present: "kp_ref p \<in> set ?present" if p: "tget (packages ?s1) (user, q) = Some p" for q p
  proof -
    have mem: "((user, q), p) \<in> set ?mine" using p by (auto simp: user_packages_def split: if_splits)
    with p have "kp_ref p \<in> kp_ref ` set ps" by (force split: if_splits)
    with mem show ?thesis by force
  qed
  have res: "package_inv s2 \<and> packages_used s2 = packages_used ?s1"
    using inv1 s2 present by (rule insert_packages_inv)
  then have "package_inv s'" unfolding package_inv_def s' by blast
  with used1 show ?thesis unfolding s' conjunct2 [OF res] by blast
qed

lemma last_resort_in_fields [simp]:
  "packages (snd (last_resort_in user now s)) = packages s"
  "packages_used (snd (last_resort_in user now s)) = packages_used s"
  "next_key_package (snd (last_resort_in user now s)) = next_key_package s"
  by (auto simp: last_resort_in_def split: option.split)

lemma take_key_package_cases:
  obtains (none) "take_key_package user now s =
      (map_option (\<lambda>p. (p, True)) (fst (last_resort_in user now
         (s\<lparr>packages := tdel_all (map fst (user_packages user s)) (packages s)\<rparr>))),
       snd (last_resort_in user now
         (s\<lparr>packages := tdel_all (map fst (user_packages user s)) (packages s)\<rparr>)))"
      "\<forall>e\<in>set (user_packages user s). expired_package now e"
  | (took) es seq p rest where "user_packages user s = es @ ((user, seq), p) # rest"
      "\<forall>e\<in>set es. expired_package now e" "\<not> expired_package now ((user, seq), p)"
      "take_key_package user now s = (Some (p, False),
        s\<lparr>packages := tdel (user, seq) (tdel_all (map fst es) (packages s)),
          packages_used := tput (user, kp_ref p) () (packages_used s)\<rparr>)"
proof (cases "dropWhile (expired_package now) (user_packages user s)")
  case Nil
  then have all: "\<forall>e\<in>set (user_packages user s). expired_package now e" by (simp add: dropWhile_eq_Nil_conv)
  then have tw: "takeWhile (expired_package now) (user_packages user s) = user_packages user s"
    by (simp add: takeWhile_eq_all_conv)
  show ?thesis
    using all by (intro none) (simp_all only: take_key_package_def Let_def Nil tw list.case case_prod_beta)
next
  case (Cons e rest)
  obtain u seq p where e: "e = ((u, seq), p)" by (metis surj_pair)
  have split: "user_packages user s =
      takeWhile (expired_package now) (user_packages user s) @ e # rest"
    using Cons takeWhile_dropWhile_id by metis
  then have "e \<in> set (user_packages user s)" by (metis in_set_conv_decomp)
  then have u: "u = user" by (simp add: user_packages_def e)
  have "\<not> expired_package now e" using Cons by (metis hd_dropWhile list.distinct(1) list.sel(1))
  then show ?thesis
    using Cons split unfolding e u
    by (intro took) (auto simp: take_key_package_def Let_def dest: set_takeWhileD)
qed

lemma clear_packages_rows:
  "clear_packages v s = (n, s') \<Longrightarrow>
    tget (packages s') (u, i) = (if u = v then None else tget (packages s) (u, i)) \<and>
    tget (packages_used s') (u, j) = (if u = v then None else tget (packages_used s) (u, j)) \<and>
    tget (last_resorts s') u = (if u = v then None else tget (last_resorts s) u)"
  by (auto simp: clear_packages_def user_packages_def Let_def image_iff)

datatype package_op =
    SetPackages bytes "key_package list" "key_package option"
  | TakePackage bytes nat
  | LastResort bytes nat
  | ExpirePackages nat
  | ClearPackages bytes

definition package_step :: "package_store \<Rightarrow> package_op \<Rightarrow> package_store" where
  "package_step s x =
    (case x of
       SetPackages user ps lr \<Rightarrow> (case set_key_packages user ps lr s of Ok s' \<Rightarrow> s' | _ \<Rightarrow> s)
     | TakePackage user now \<Rightarrow> snd (take_key_package user now s)
     | LastResort user now \<Rightarrow> snd (last_resort_in user now s)
     | ExpirePackages now \<Rightarrow> snd (expire_key_packages now s)
     | ClearPackages user \<Rightarrow> snd (clear_packages user s))"

text \<open>A package handed out for good; the last-resort one stays and is flagged.\<close>

definition package_hands :: "package_store \<Rightarrow> package_op \<Rightarrow> (bytes \<times> bytes) option" where
  "package_hands s x =
    (case x of
       TakePackage user now \<Rightarrow>
         (case fst (take_key_package user now s) of Some (p, False) \<Rightarrow> Some (user, kp_ref p) | _ \<Rightarrow> None)
     | _ \<Rightarrow> None)"

definition package_keeps :: "package_op \<Rightarrow> bytes \<times> bytes \<Rightarrow> bool" where
  "package_keeps x k =
    (case x of
       SetPackages user ps lr \<Rightarrow> fst k = user \<longrightarrow> length (snd k) = 32 \<and> snd k \<in> kp_ref ` set ps
     | ClearPackages user \<Rightarrow> fst k \<noteq> user
     | _ \<Rightarrow> True)"

lemma package_mine: "e \<in> set (user_packages user s) \<longleftrightarrow> tget (packages s) (fst e) = Some (snd e) \<and> fst (fst e) = user"
  by (cases e) (auto simp: user_packages_def)

lemma user_packages_rows:
  "tget (tdel_all (map fst (user_packages user s)) (packages s)) (u, q) =
    (if u = user then None else tget (packages s) (u, q))"
  by (cases "tget (packages s) (u, q)") (auto simp: user_packages_def image_iff)

lemma took_rows:
  assumes split: "user_packages user s = es @ ((user, seq), p) # rest"
  shows "tget (packages s) (user, seq) = Some p"
    and "tget (packages s) (user, q) = Some p' \<Longrightarrow> q < seq \<Longrightarrow> ((user, q), p') \<in> set es"
    and "(u, q) \<in> fst ` set es \<longleftrightarrow> u = user \<and> q < seq \<and> tget (packages s) (u, q) \<noteq> None"
proof -
  have sorted: "sorted_wrt (<) (map fst (user_packages user s))"
    unfolding user_packages_def by (rule sorted_trange)
  have "((user, seq), p) \<in> set (user_packages user s)" using split by simp
  then show "tget (packages s) (user, seq) = Some p" by (simp add: package_mine)
  have older: "((user, q), p') \<in> set es" if "tget (packages s) (user, q) = Some p'" "q < seq" for q p'
  proof -
    have "((user, q), p') \<in> set (user_packages user s)" using that by (simp add: package_mine)
    then show ?thesis using split sorted that(2) by (auto simp: sorted_wrt_append)
  qed
  then show "tget (packages s) (user, q) = Some p' \<Longrightarrow> q < seq \<Longrightarrow> ((user, q), p') \<in> set es" .
  have "u = user \<and> q < seq \<and> tget (packages s) (u, q) \<noteq> None" if "((u, q), p') \<in> set es" for p'
  proof -
    have "((u, q), p') \<in> set (user_packages user s)" using that split by simp
    then have "u = user \<and> tget (packages s) (u, q) = Some p'" by (auto simp: package_mine)
    then show ?thesis using split sorted that by (auto simp: sorted_wrt_append)
  qed
  with older show "(u, q) \<in> fst ` set es \<longleftrightarrow> u = user \<and> q < seq \<and> tget (packages s) (u, q) \<noteq> None"
    by (force simp: image_iff)
qed

lemma package_inv_take:
  assumes "package_inv s"
  shows "package_inv (snd (take_key_package user now s))"
proof (cases rule: take_key_package_cases [of user now s])
  case none
  from assms show ?thesis
    by (rule package_inv_subset) (use none(1) assms in \<open>auto simp: package_inv_def split: if_splits\<close>)
next
  case (took es seq p rest)
  then have "((user, seq), p) \<in> set (user_packages user s)" by simp
  then have p: "tget (packages s) (user, seq) = Some p" by (simp add: package_mine)
  have uniq: "q = seq" if "tget (packages s) (user, q) = Some p'" "kp_ref p' = kp_ref p" for q p'
    using assms that p unfolding package_inv_def by metis
  from assms show ?thesis
  proof (rule package_inv_subset)
    show "next_key_package (snd (take_key_package user now s)) = next_key_package s" using took(4) by simp
  next
    fix u q p' assume "tget (packages (snd (take_key_package user now s))) (u, q) = Some p'"
    then have "tget (packages s) (u, q) = Some p'" "(u, q) \<noteq> (user, seq)"
      using took(4) by (auto split: if_splits)
    moreover from this have "(u, kp_ref p') \<noteq> (user, kp_ref p)" using uniq by auto
    ultimately show "tget (packages s) (u, q) = Some p' \<and>
        tget (packages_used (snd (take_key_package user now s))) (u, kp_ref p') = None"
      using took(4) assms by (auto simp: package_inv_def)
  qed
qed

lemma package_inv_step: "package_inv s \<Longrightarrow> package_inv (package_step s x)"
proof (cases x)
  case (SetPackages user ps lr)
  assume "package_inv s"
  with SetPackages show ?thesis
    by (auto simp: package_step_def set_key_packages_inv split: res.split)
next
  case (ExpirePackages now)
  assume inv: "package_inv s"
  then show ?thesis
    by (rule package_inv_subset)
      (use inv in \<open>auto simp: ExpirePackages package_step_def expire_key_packages_def Let_def package_inv_def
        split: if_splits\<close>)
next
  case (LastResort user now)
  assume "package_inv s"
  with LastResort show ?thesis by (simp add: package_step_def package_inv_def)
next
  case (ClearPackages user)
  assume inv: "package_inv s"
  then show ?thesis
    by (rule package_inv_subset)
      (use inv in \<open>auto simp: ClearPackages package_step_def clear_packages_def Let_def package_inv_def
        split: if_splits\<close>)
qed (simp add: package_step_def package_inv_take)

interpretation key_packages: one_time True package_step empty_packages package_inv package_hands
  "\<lambda>s k. tget (packages_used s) k \<noteq> None" "\<lambda>k s x. package_keeps x k"
proof unfold_locales
  show "package_inv empty_packages" by (simp add: package_inv_def empty_packages_def)
next
  fix s x k assume inv: "package_inv s" and h: "package_hands s x = Some k"
  then obtain user now where x: "x = TakePackage user now" by (cases x) (auto simp: package_hands_def)
  have both: "tget (packages_used s) k = None \<and> tget (packages_used (package_step s x)) k \<noteq> None"
  proof (cases rule: take_key_package_cases [of user now s])
    case none
    with h show ?thesis by (auto simp: x package_hands_def split: option.splits)
  next
    case (took es seq p rest)
    then have "((user, seq), p) \<in> set (user_packages user s)" by simp
    then have "tget (packages s) (user, seq) = Some p" by (simp add: package_mine)
    moreover have "k = (user, kp_ref p)" using h took(4) by (simp add: x package_hands_def)
    ultimately show ?thesis
      using inv took(4) by (auto simp: x package_step_def package_inv_def)
  qed
  then show "\<not> tget (packages_used s) k \<noteq> None" by simp
  from both show "tget (packages_used (package_step s x)) k \<noteq> None" by simp
next
  fix s :: package_store and x k
  assume inv: "package_inv s" and spent: "tget (packages_used s) k \<noteq> None" and keeps: "package_keeps x k"
  show "tget (packages_used (package_step s x)) k \<noteq> None"
  proof (cases x)
    case (SetPackages user ps lr)
    with spent keeps show ?thesis
      using set_key_packages_inv [OF inv, of user ps lr]
      by (cases k; cases "set_key_packages user ps lr s") (auto simp: package_step_def package_keeps_def)
  next
    case (TakePackage user now)
    with spent show ?thesis
      by (cases rule: take_key_package_cases [of user now s]) (auto simp: package_step_def)
  next
    case (ClearPackages user)
    with spent keeps show ?thesis
      using clear_packages_rows [of user s "fst (clear_packages user s)" "snd (clear_packages user s)"]
      by (cases k) (simp add: package_step_def package_keeps_def)
  qed (use spent in \<open>auto simp: package_step_def expire_key_packages_def Let_def\<close>)
qed (simp_all add: package_inv_step)

section \<open>Properties\<close>

text \<open>
  C11. Safety. Once the relay has handed out a one-time prekey (X25519 or ML-KEM: both use
  these operations), it never hands the same id of that user out again through any later
  replacements, takes and removals, as long as two things hold of what follows: every later
  list of that user still names the id, and the relay does not remove that user's data (an
  operator's removal or a revocation, which forgets which ids went out). Before the key goes
  out the history is arbitrary.
\<close>

theorem prekey_handed_out_once:
  assumes "\<forall>x\<in>set ys. deposit_keeps x k"
  shows "count_list (trace deposit_step deposit_hands (run deposit_step empty_deposit xs) ys) (Some k) \<le> 1"
  using deposits.handed_once [OF TrueI, of k xs ys] assms by (simp add: image_iff)

theorem prekey_handed_out_once_witness:
  "count_list (trace deposit_step deposit_hands empty_deposit
     [Replace [1] [(7, [9])], Take [1], Replace [1] [(7, [9])], Take [1]]) (Some ([1], 7)) \<le> 1"
  using prekey_handed_out_once [where k = "([1], 7)" and xs = "[]"
      and ys = "[Replace [1] [(7, [9])], Take [1], Replace [1] [(7, [9])], Take [1]]"]
  by (simp add: deposit_keeps_def)

text \<open>
  C22. Functional behaviour of replacing a deposit, from any state: another user's keys and
  marks are untouched; an id no longer listed is forgotten, key and mark alike; an id on
  deposit keeps the key it had; an id handed out stays out; any other listed id gets the
  first key listed for it.
\<close>

theorem replace_deposit_exact:
  "tget (used_keys (replace_deposit user keys d)) (u, i) =
     (if u = user \<and> i \<notin> fst ` set keys then None else tget (used_keys d) (u, i)) \<and>
   tget (deposited (replace_deposit user keys d)) (u, i) =
     (if u \<noteq> user then tget (deposited d) (u, i)
      else if i \<notin> fst ` set keys then None
      else case tget (deposited d) (u, i) of
        Some v \<Rightarrow> Some v
      | None \<Rightarrow> if tget (used_keys d) (u, i) \<noteq> None then None else map_of keys i)"
  by (auto simp: replace_deposit_used replace_deposit_deposited listed_ids_def split: option.split)



text \<open>
  C23. Functional behaviour of handing out a key package, with what it leaves in every table.
  The package given is the oldest of the user's that has not expired; it and the expired ones
  before it leave the deposit, and its ref is marked as used. When every package of the user
  has expired they all leave the deposit and the last-resort one is given, and kept, if there
  is one that has not expired. Nothing is given only when every package has expired and there
  is no last-resort package or it has expired too; then that one is dropped as well. Nothing
  of another user is touched, and no number is reissued.
\<close>

theorem take_key_package_oldest:
  "case take_key_package user now s of
     (Some (p, False), s') \<Rightarrow>
       \<exists>seq. tget (packages s) (user, seq) = Some p \<and> now < kp_expires_at_ms p \<and>
         (\<forall>q p'. tget (packages s) (user, q) = Some p' \<and> q < seq \<longrightarrow> kp_expires_at_ms p' \<le> now) \<and>
         (\<forall>u q. tget (packages s') (u, q) = (if u = user \<and> q \<le> seq then None else tget (packages s) (u, q))) \<and>
         (\<forall>k. tget (packages_used s') k = (if k = (user, kp_ref p) then Some () else tget (packages_used s) k)) \<and>
         last_resorts s' = last_resorts s \<and> next_key_package s' = next_key_package s
   | (Some (p, True), s') \<Rightarrow>
       (\<forall>q p'. tget (packages s) (user, q) = Some p' \<longrightarrow> kp_expires_at_ms p' \<le> now) \<and>
       tget (last_resorts s) user = Some p \<and> now < kp_expires_at_ms p \<and>
       (\<forall>u q. tget (packages s') (u, q) = (if u = user then None else tget (packages s) (u, q))) \<and>
       packages_used s' = packages_used s \<and> last_resorts s' = last_resorts s \<and>
       next_key_package s' = next_key_package s
   | (None, s') \<Rightarrow>
       (\<forall>q p'. tget (packages s) (user, q) = Some p' \<longrightarrow> kp_expires_at_ms p' \<le> now) \<and>
       (\<forall>p. tget (last_resorts s) user = Some p \<longrightarrow> kp_expires_at_ms p \<le> now) \<and>
       (\<forall>u q. tget (packages s') (u, q) = (if u = user then None else tget (packages s) (u, q))) \<and>
       packages_used s' = packages_used s \<and>
       (\<forall>u. tget (last_resorts s') u = (if u = user then None else tget (last_resorts s) u)) \<and>
       next_key_package s' = next_key_package s"
proof (cases rule: take_key_package_cases [of user now s])
  case none
  let ?s1 = "s\<lparr>packages := tdel_all (map fst (user_packages user s)) (packages s)\<rparr>"
  have all: "kp_expires_at_ms p' \<le> now" if "tget (packages s) (user, q) = Some p'" for q p'
    using that none(2) package_mine [of "((user, q), p')" user s] by (auto simp: expired_package_def)
  have rows: "tget (packages ?s1) (u, q) = (if u = user then None else tget (packages s) (u, q))" for u q
    using user_packages_rows [of user s u q] by simp
  show ?thesis
    using none(1) all rows
    by (cases "tget (last_resorts s) user") (auto simp: last_resort_in_def not_le)
next
  case (took es seq p rest)
  note sp = took_rows [OF took(1)]
  have "tget (packages (snd (take_key_package user now s))) (u, q) =
      (if u = user \<and> q \<le> seq then None else tget (packages s) (u, q))" for u q
    using took(4) sp(3) [of u q] by (auto simp: le_less)
  moreover have "kp_expires_at_ms p' \<le> now" if "tget (packages s) (user, q) = Some p'" "q < seq" for q p'
    using that sp(2) [of q p'] took(2) by (auto simp: expired_package_def)
  ultimately show ?thesis
    using took(3,4) sp(1) by (auto simp: expired_package_def not_le intro!: exI [of _ seq])
qed

theorem take_key_package_oldest_witness:
  "fst (take_key_package [1] 5 (empty_packages\<lparr>last_resorts :=
      tput [1] \<lparr>kp_ref = [2], kp_expires_at_ms = 9, kp_data = []\<rparr> RBT.empty\<rparr>)) \<noteq> None"
proof -
  let ?s = "empty_packages\<lparr>last_resorts := tput [1] \<lparr>kp_ref = [2], kp_expires_at_ms = 9, kp_data = []\<rparr> RBT.empty\<rparr>"
  show ?thesis
    using take_key_package_oldest [where user = "[1]" and now = 5 and s = ?s]
    by (auto split: prod.splits option.splits bool.splits)
qed

end
