(* ===== verification/RelaySequencer.thy ===== *)
theory RelaySequencer
  imports EnvelopeTypes
begin

text \<open>
  The group epoch sequencer of \<^verbatim>\<open>silver-relay/src/store.rs\<close>: one entry per MLS group, moved on
  by whoever holds the current epoch's token (\<open>group_commit\<close>), created or raised by
  \<open>group_create\<close>, retired and finally dropped by \<open>expire_groups\<close>. Shown here: at most one
  commit per epoch is accepted while an entry stands, and an entry changes hands only by
  its token.
\<close>

section \<open>State and operations\<close>

record group_entry =
  epoch :: nat
  next_hash :: bytes
  created_at_ms :: nat
  updated_at_ms :: nat
  retired_at_ms :: "nat option"

type_synonym groups = "(bytes, group_entry) table"

datatype sequenced = Stands nat | Stale nat | Exists nat | NotFound | Forbidden

definition token_hash :: "crypto \<Rightarrow> bytes \<Rightarrow> bytes" where
  "token_hash C token = sha256 C token"

definition group_create :: "bytes \<Rightarrow> nat \<Rightarrow> bytes \<Rightarrow> nat \<Rightarrow> groups \<Rightarrow> sequenced \<times> groups" where
  "group_create g ep next now_ms t =
    (case tget t g of
       Some entry \<Rightarrow>
         let same = (epoch entry = ep \<and> next_hash entry = next) in
         if same \<and> retired_at_ms entry \<noteq> None then
           (Stands ep, tput g (entry\<lparr>retired_at_ms := None, updated_at_ms := now_ms\<rparr>) t)
         else if same then (Stands ep, t)
         else (Exists (epoch entry), t)
     | None \<Rightarrow>
         (Stands ep, tput g \<lparr>epoch = ep, next_hash = next, created_at_ms = now_ms,
                                 updated_at_ms = now_ms, retired_at_ms = None\<rparr> t))"

definition group_commit ::
  "crypto \<Rightarrow> bytes \<Rightarrow> nat \<Rightarrow> bytes \<Rightarrow> bytes \<Rightarrow> nat \<Rightarrow> groups \<Rightarrow> sequenced \<times> groups" where
  "group_commit C g ep token next now_ms t =
    (case tget t g of
       None \<Rightarrow> (NotFound, t)
     | Some entry \<Rightarrow>
         if epoch entry \<noteq> ep then (Stale (epoch entry), t)
         else if token_hash C token \<noteq> next_hash entry then (Forbidden, t)
         else if epoch entry = u64_max then (Stale (epoch entry), t)
         else (Stands (epoch entry + 1),
               tput g (entry\<lparr>epoch := epoch entry + 1, next_hash := next,
                                 updated_at_ms := now_ms, retired_at_ms := None\<rparr>) t))"

definition group_epoch :: "bytes \<Rightarrow> groups \<Rightarrow> nat option" where
  "group_epoch g t = map_option epoch (tget t g)"

definition group_count :: "groups \<Rightarrow> nat" where
  "group_count t = length (filter (\<lambda>(_, e). retired_at_ms e = None) (RBT.entries t))"

record group_sweep =
  retired :: nat
  dropped :: nat

definition is_retiring :: "nat \<Rightarrow> group_entry \<Rightarrow> bool" where
  "is_retiring idle_cutoff_ms e \<longleftrightarrow> retired_at_ms e = None \<and> updated_at_ms e < idle_cutoff_ms"

definition is_dropping :: "nat \<Rightarrow> group_entry \<Rightarrow> bool" where
  "is_dropping grace_cutoff_ms e \<longleftrightarrow>
     (case retired_at_ms e of None \<Rightarrow> False | Some at \<Rightarrow> at < grace_cutoff_ms)"

definition expire_groups :: "nat \<Rightarrow> nat \<Rightarrow> nat \<Rightarrow> groups \<Rightarrow> group_sweep \<times> groups" where
  "expire_groups now_ms idle_cutoff_ms grace_cutoff_ms t =
    (let retiring = filter (\<lambda>(_, e). is_retiring idle_cutoff_ms e) (RBT.entries t);
         dropping = map fst (filter (\<lambda>(_, e). is_dropping grace_cutoff_ms e) (RBT.entries t));
         t1 = tput_all (map (\<lambda>(g, e). (g, e\<lparr>retired_at_ms := Some now_ms\<rparr>)) retiring) t
     in (\<lparr>retired = length retiring, dropped = length dropping\<rparr>, tdel_all dropping t1))"

section \<open>What a sweep leaves\<close>

lemma is_retiring_not_dropping: "is_retiring i e \<Longrightarrow> \<not> is_dropping g e"
  by (simp add: is_retiring_def is_dropping_def)

lemma expire_groups_lookup:
  "tget (snd (expire_groups now idle grace t)) g =
    (case tget t g of
       None \<Rightarrow> None
     | Some e \<Rightarrow>
         if is_dropping grace e then None
         else if is_retiring idle e then Some (e\<lparr>retired_at_ms := Some now\<rparr>)
         else Some e)"
proof -
  have "map fst (map (\<lambda>(g, e). (g, e\<lparr>retired_at_ms := Some now\<rparr>))
      (filter (\<lambda>(_, e). is_retiring idle e) (RBT.entries t))) =
    map fst (filter (\<lambda>(_, e). is_retiring idle e) (RBT.entries t))" by auto
  then have d: "distinct (map fst (map (\<lambda>(g, e). (g, e\<lparr>retired_at_ms := Some now\<rparr>))
      (filter (\<lambda>(_, e). is_retiring idle e) (RBT.entries t))))"
    using RBT.distinct_entries [of t] by (simp only: distinct_map_filter)
  have drop: "g \<in> set (map fst (filter (\<lambda>(_, e). is_dropping grace e) (RBT.entries t))) \<longleftrightarrow>
      (\<exists>e. tget t g = Some e \<and> is_dropping grace e)"
    by (force simp: entries_iff)
  show ?thesis
    unfolding expire_groups_def Let_def snd_conv tget_tdel_all drop tget_tput_all [OF d] map_of_filter_entries
    by (auto split: option.split)
qed

section \<open>Histories\<close>

datatype group_op =
    Create bytes nat bytes nat
  | Commit bytes nat bytes bytes nat
  | Sweep nat nat nat

definition group_step :: "crypto \<Rightarrow> groups \<Rightarrow> group_op \<Rightarrow> groups" where
  "group_step C t x =
    (case x of
       Create g ep nx now \<Rightarrow> snd (group_create g ep nx now t)
     | Commit g ep token nx now \<Rightarrow> snd (group_commit C g ep token nx now t)
     | Sweep now idle grace \<Rightarrow> snd (expire_groups now idle grace t))"

text \<open>The group and epoch a step accepts a commit for.\<close>

definition accepts :: "crypto \<Rightarrow> groups \<Rightarrow> group_op \<Rightarrow> (bytes \<times> nat) option" where
  "accepts C t x =
    (case x of
       Commit g ep token nx now \<Rightarrow>
         (case fst (group_commit C g ep token nx now t) of Stands _ \<Rightarrow> Some (g, ep) | _ \<Rightarrow> None)
     | _ \<Rightarrow> None)"

text \<open>A step that does not drop the group's entry.\<close>

definition stands_through :: "bytes \<Rightarrow> groups \<Rightarrow> group_op \<Rightarrow> bool" where
  "stands_through g t x \<longleftrightarrow>
    (case x of Sweep now idle grace \<Rightarrow> \<not> (\<exists>e. tget t g = Some e \<and> is_dropping grace e) | _ \<Rightarrow> True)"

definition past :: "groups \<Rightarrow> bytes \<times> nat \<Rightarrow> bool" where
  "past t k \<longleftrightarrow> (\<exists>e. tget t (fst k) = Some e \<and> snd k < epoch e)"

lemma group_step_epoch:
  assumes "tget t g = Some e" "stands_through g t x"
  shows "\<exists>e'. tget (group_step C t x) g = Some e' \<and>
    (epoch e' = epoch e \<and> next_hash e' = next_hash e \<or>
     epoch e' = epoch e + 1 \<and> (\<exists>token nx now. x = Commit g (epoch e) token nx now \<and>
       token_hash C token = next_hash e \<and> next_hash e' = nx))"
  using assms
  by (cases x)
    (auto simp: group_step_def group_create_def group_commit_def expire_groups_lookup stands_through_def
      Let_def split: option.splits if_splits)

interpretation sequencer: one_time True "group_step C" RBT.empty "\<lambda>_. True" "accepts C" past
  "\<lambda>k. stands_through (fst k)" for C
proof unfold_locales
  fix t :: groups and x k assume "accepts C t x = Some k"
  then show "\<not> past t k" "past (group_step C t x) k"
    by (auto simp: accepts_def past_def group_step_def group_commit_def
        split: group_op.splits option.splits if_splits)
next
  fix t :: groups and x k assume "past t k" "stands_through (fst k) t x"
  then show "past (group_step C t x) k"
    using group_step_epoch [of t "fst k" _ x C] by (fastforce simp: past_def)
qed simp_all

lemma untouched_without_token:
  assumes "tget t g = Some e" "False \<notin> set (trace (group_step C) (stands_through g) t xs)"
    and "\<forall>x\<in>set xs. \<forall>ep token nx now. x = Commit g ep token nx now \<longrightarrow> token_hash C token \<noteq> next_hash e"
  shows "\<exists>e'. tget (run (group_step C) t xs) g = Some e' \<and> epoch e' = epoch e \<and> next_hash e' = next_hash e"
  using assms
proof (induction xs arbitrary: t e)
  case (Cons x xs)
  from Cons.prems(2) have "stands_through g t x" by simp
  from group_step_epoch [OF Cons.prems(1) this, of C] Cons.prems(3)
  obtain e' where e': "tget (group_step C t x) g = Some e'" "epoch e' = epoch e" "next_hash e' = next_hash e"
    by auto
  from Cons.IH [OF e'(1)] Cons.prems(2,3) e' show ?case by auto
qed simp

section \<open>Properties\<close>

text \<open>
  C13. Safety. While a group's entry stands, the sequencer accepts at most one commit for
  each epoch of the group, so all members agree on which commit made the next epoch.
\<close>

theorem one_commit_per_epoch:
  assumes "False \<notin> set (trace (group_step C) (stands_through g) (run (group_step C) RBT.empty xs) ys)"
  shows "count_list (trace (group_step C) (accepts C) (run (group_step C) RBT.empty xs) ys) (Some (g, ep)) \<le> 1"
  using sequencer.handed_once [OF TrueI, of C "(g, ep)" xs ys] assms by simp

theorem one_commit_per_epoch_witness:
  "count_list (trace (group_step demo_crypto) (accepts demo_crypto) (run (group_step demo_crypto) RBT.empty
      [Create [1] 0 (sha256 demo_crypto [7]) 0])
      [Commit [1] 0 [7] [8] 5, Commit [1] 0 [7] [9] 6]) (Some ([1], 0)) \<le> 1"
  by (rule one_commit_per_epoch) (simp add: stands_through_def)

text \<open>
  C19. Safety. While no sweep drops the entry, nobody takes a group over: as long as no commit
  presents a token hashing to what the entry holds, every history of creates, commits and such
  sweeps leaves the group at its epoch with the same token hash, retired or raised.
\<close>

theorem group_moves_only_by_token:
  assumes "tget t g = Some e" "False \<notin> set (trace (group_step C) (stands_through g) t xs)"
    and "\<forall>x\<in>set xs. \<forall>ep token nx now. x = Commit g ep token nx now \<longrightarrow> sha256 C token \<noteq> next_hash e"
  shows "\<exists>e'. tget (run (group_step C) t xs) g = Some e' \<and> epoch e' = epoch e \<and> next_hash e' = next_hash e"
  using untouched_without_token [OF assms(1,2)] assms(3) by (simp add: token_hash_def)

theorem group_moves_only_by_token_witness:
  "\<exists>e'. tget (run (group_step demo_crypto)
      (snd (group_create [1] 4 (sha256 demo_crypto [7]) 0 RBT.empty))
      [Create [1] 9 [3] 1, Commit [2] 4 [5] [6] 2]) [1] = Some e' \<and>
    epoch e' = 4 \<and> next_hash e' = sha256 demo_crypto [7]"
proof -
  have "tget (snd (group_create [1] 4 (sha256 demo_crypto [7]) 0 RBT.empty)) [1] =
      Some \<lparr>epoch = 4, next_hash = sha256 demo_crypto [7], created_at_ms = 0, updated_at_ms = 0,
        retired_at_ms = None\<rparr>"
    by (simp add: group_create_def)
  from group_moves_only_by_token [OF this, of demo_crypto "[Create [1] 9 [3] 1, Commit [2] 4 [5] [6] 2]"]
  show ?thesis by (simp add: stands_through_def)
qed



end
