(* ===== verification/RelayBlobs.thy ===== *)
theory RelayBlobs
  imports EnvelopeTypes
begin

text \<open>
  Encrypted file storage of \<^verbatim>\<open>silver-relay/src/store.rs\<close>: the tables BLOBS and BLOB\_CHUNKS and
  the counter BLOB\_BYTES, with \<open>put_blob_chunk\<close> and \<open>expire_blobs\<close>. A sweep lists the blobs to
  drop in a read transaction and drops them in a write transaction later; chunks may be stored
  in between, so the two are separate steps. Shown here: a blob's own counts are exact
  throughout, BLOB\_BYTES is off by exactly what was stored for a listed blob between the two
  transactions, a blob is reported complete exactly when every chunk is there, and the caps
  hold.
\<close>

section \<open>State and operations\<close>

record blob_meta =
  bm_total :: nat
  received :: nat
  bm_bytes :: nat
  bm_created_at_ms :: nat

definition is_complete :: "blob_meta \<Rightarrow> bool" where
  "is_complete m \<longleftrightarrow> received m = bm_total m"

record blob_limits =
  max_blob_bytes :: nat
  max_total_blob_bytes :: nat

definition default_blob_limits :: blob_limits where
  "default_blob_limits = \<lparr>max_blob_bytes = 16 * 1024 * 1024 + 256 * 16,
                          max_total_blob_bytes = 1024 * 1024 * 1024\<rparr>"

datatype blob_put = BlobStored bool | BlobDuplicate | BlobMismatch | BlobTooLarge | BlobStorageFull

record blob_store =
  blobs :: "(rstr, blob_meta) table"
  blob_chunks :: "(rstr \<times> nat, bytes) table"
  blob_bytes :: nat

definition empty_blobs :: blob_store where
  "empty_blobs = \<lparr>blobs = RBT.empty, blob_chunks = RBT.empty, blob_bytes = 0\<rparr>"

definition u32_max :: nat where "u32_max = 2 ^ 32 - 1"

text \<open>The additions are checked: on overflow the handler panics and nothing is committed.\<close>

definition put_blob_chunk ::
  "rstr \<Rightarrow> nat \<Rightarrow> nat \<Rightarrow> bytes \<Rightarrow> nat \<Rightarrow> blob_limits \<Rightarrow> blob_store \<Rightarrow> (blob_put \<times> blob_store, string) res" where
  "put_blob_chunk blob index total' data now_ms limits s =
    (let meta = (case tget (blobs s) blob of
                   Some m \<Rightarrow> m
                 | None \<Rightarrow> \<lparr>bm_total = total', received = 0, bm_bytes = 0, bm_created_at_ms = now_ms\<rparr>);
         stored = blob_bytes s
     in if bm_total meta \<noteq> total' \<or> index \<ge> total' then Ok (BlobMismatch, s)
        else if tget (blob_chunks s) (blob, index) \<noteq> None then Ok (BlobDuplicate, s)
        else case add64 (bm_bytes meta) (length data) of
          None \<Rightarrow> Panic
        | Some bytes' \<Rightarrow>
            if bytes' > max_blob_bytes limits then Ok (BlobTooLarge, s)
            else case add64 stored (length data) of
              None \<Rightarrow> Panic
            | Some stored' \<Rightarrow>
                if stored' > max_total_blob_bytes limits then Ok (BlobStorageFull, s)
                else if received meta + 1 > u32_max then Panic
                else
                  let meta' = meta\<lparr>received := received meta + 1, bm_bytes := bytes'\<rparr> in
                  Ok (BlobStored (is_complete meta'),
                      s\<lparr>blob_chunks := tput (blob, index) data (blob_chunks s),
                        blobs := tput blob meta' (blobs s),
                        blob_bytes := stored'\<rparr>))"

definition blob_meta_of :: "rstr \<Rightarrow> blob_store \<Rightarrow> blob_meta option" where
  "blob_meta_of blob s = tget (blobs s) blob"

definition blob_chunk :: "rstr \<Rightarrow> nat \<Rightarrow> blob_store \<Rightarrow> bytes option" where
  "blob_chunk blob index s = tget (blob_chunks s) (blob, index)"

fun drop_blobs :: "(rstr \<times> blob_meta) list \<Rightarrow> blob_store \<Rightarrow> blob_store" where
  "drop_blobs [] s = s"
| "drop_blobs ((blob, meta) # vs) s =
    drop_blobs vs
      (s\<lparr>blob_chunks := tdel_all (map (Pair blob) [0..<bm_total meta]) (blob_chunks s),
        blobs := tdel blob (blobs s),
        blob_bytes := blob_bytes s - bm_bytes meta\<rparr>)"

definition expired_blobs :: "nat \<Rightarrow> blob_store \<Rightarrow> (rstr \<times> blob_meta) list" where
  "expired_blobs cutoff_ms s = filter (\<lambda>(_, m). bm_created_at_ms m < cutoff_ms) (RBT.entries (blobs s))"

text \<open>The whole sweep, with what other connections do to the store \<open>between\<close> its two transactions.\<close>

definition expire_blobs :: "nat \<Rightarrow> (blob_store \<Rightarrow> blob_store) \<Rightarrow> blob_store \<Rightarrow> nat \<times> blob_store" where
  "expire_blobs cutoff_ms between s =
    (let victims = expired_blobs cutoff_ms s; s' = between s
     in if victims = [] then (0, s') else (length victims, drop_blobs victims s'))"

section \<open>The invariant\<close>

definition chunk_count :: "blob_store \<Rightarrow> rstr \<Rightarrow> nat" where
  "chunk_count s b = tsum (\<lambda>k _. if fst k = b then 1 else 0) (blob_chunks s)"

definition chunk_bytes :: "blob_store \<Rightarrow> rstr \<Rightarrow> nat" where
  "chunk_bytes s b = tsum (\<lambda>k d. if fst k = b then length d else 0) (blob_chunks s)"

definition blob_inv :: "blob_limits \<Rightarrow> blob_store \<Rightarrow> bool" where
  "blob_inv l s \<longleftrightarrow>
     (\<forall>b m. tget (blobs s) b = Some m \<longrightarrow>
        received m = chunk_count s b \<and> bm_bytes m = chunk_bytes s b \<and> bm_bytes m \<le> max_blob_bytes l) \<and>
     (\<forall>b i d. tget (blob_chunks s) (b, i) = Some d \<longrightarrow>
        (\<exists>m. tget (blobs s) b = Some m \<and> i < bm_total m)) \<and>
     tsum (\<lambda>_ d. length d) (blob_chunks s) \<le> blob_bytes s \<and>
     blob_bytes s \<le> max_total_blob_bytes l"

lemma chunk_count_card: "chunk_count s b = card {i. tget (blob_chunks s) (b, i) \<noteq> None}"
proof -
  have "chunk_count s b = (\<Sum>k\<in>dom (tget (blob_chunks s)). if fst k = b then 1 else 0)"
    by (simp add: chunk_count_def tsum_dom)
  also have "\<dots> = card {k \<in> dom (tget (blob_chunks s)). fst k = b}"
    by (simp add: sum.If_cases Int_def)
  also have "{k \<in> dom (tget (blob_chunks s)). fst k = b} = Pair b ` {i. tget (blob_chunks s) (b, i) \<noteq> None}"
    by (auto simp: image_iff)
  finally show ?thesis by (simp add: card_image inj_on_def)
qed

lemma finite_chunks: "finite {i. tget (blob_chunks s) (b, i) \<noteq> None}"
proof -
  have "{i. tget (blob_chunks s) (b, i) \<noteq> None} \<subseteq> snd ` dom (tget (blob_chunks s))"
    by (force simp: image_iff)
  then show ?thesis by (rule finite_subset) simp
qed

lemma blob_inv_meta:
  "blob_inv l s \<Longrightarrow> tget (blobs s) b = Some m \<Longrightarrow>
    received m = chunk_count s b \<and> bm_bytes m = chunk_bytes s b \<and> bm_bytes m \<le> max_blob_bytes l"
  unfolding blob_inv_def by blast

lemma blob_inv_chunk:
  "blob_inv l s \<Longrightarrow> tget (blob_chunks s) (b, i) = Some d \<Longrightarrow> \<exists>m. tget (blobs s) b = Some m \<and> i < bm_total m"
  unfolding blob_inv_def by blast

lemma blob_inv_bytes:
  "blob_inv l s \<Longrightarrow> tsum (\<lambda>_ d. length d) (blob_chunks s) \<le> blob_bytes s \<and>
    blob_bytes s \<le> max_total_blob_bytes l"
  unfolding blob_inv_def by blast

lemma chunks_unknown_blob:
  assumes "blob_inv l s" "tget (blobs s) b = None"
  shows "chunk_count s b = 0" "chunk_bytes s b = 0"
proof -
  have "tget (blob_chunks s) (b, i) = None" for i
    using blob_inv_chunk [OF assms(1), of b i] assms(2) by (cases "tget (blob_chunks s) (b, i)") auto
  then show "chunk_count s b = 0" "chunk_bytes s b = 0"
    by (auto simp: chunk_count_def chunk_bytes_def tsum_eq_0_iff)
qed

section \<open>Storing a chunk\<close>

definition announced :: "rstr \<Rightarrow> nat \<Rightarrow> nat \<Rightarrow> blob_store \<Rightarrow> blob_meta" where
  "announced blob n now s = (case tget (blobs s) blob of
     Some m \<Rightarrow> m
   | None \<Rightarrow> \<lparr>bm_total = n, received = 0, bm_bytes = 0, bm_created_at_ms = now\<rparr>)"

definition with_chunk :: "rstr \<Rightarrow> nat \<Rightarrow> bytes \<Rightarrow> blob_meta \<Rightarrow> blob_store \<Rightarrow> blob_store" where
  "with_chunk blob i data m s =
     s\<lparr>blob_chunks := tput (blob, i) data (blob_chunks s),
       blobs := tput blob (m\<lparr>received := received m + 1, bm_bytes := bm_bytes m + length data\<rparr>) (blobs s),
       blob_bytes := blob_bytes s + length data\<rparr>"

lemma put_blob_chunk_stored:
  assumes "put_blob_chunk blob i n data now l s = Ok (BlobStored c, s')"
  shows "bm_total (announced blob n now s) = n" "i < n" "tget (blob_chunks s) (blob, i) = None"
    "bm_bytes (announced blob n now s) + length data \<le> max_blob_bytes l"
    "blob_bytes s + length data \<le> max_total_blob_bytes l"
    "s' = with_chunk blob i data (announced blob n now s) s"
    "c \<longleftrightarrow> received (announced blob n now s) + 1 = n"
  using assms unfolding put_blob_chunk_def announced_def [symmetric]
  by (auto simp: Let_def with_chunk_def is_complete_def split: if_splits option.splits)

lemma put_blob_chunk_unchanged:
  assumes "put_blob_chunk blob i n data now l s = Ok (r, s')" "\<And>c. r \<noteq> BlobStored c"
  shows "s' = s"
  using assms unfolding put_blob_chunk_def announced_def [symmetric]
  by (auto simp: Let_def split: if_splits option.splits)

lemma announced_inv:
  "blob_inv l s \<Longrightarrow> received (announced b n now s) = chunk_count s b \<and> bm_bytes (announced b n now s) = chunk_bytes s b"
  by (auto simp: announced_def chunks_unknown_blob blob_inv_meta split: option.split)

lemma with_chunk_counts:
  assumes "tget (blob_chunks s) (blob, i) = None"
  shows "chunk_count (with_chunk blob i data m s) b = chunk_count s b + (if b = blob then 1 else 0)"
    "chunk_bytes (with_chunk blob i data m s) b = chunk_bytes s b + (if b = blob then length data else 0)"
  using assms by (auto simp: chunk_count_def chunk_bytes_def with_chunk_def tsum_insert)

lemma blob_inv_put:
  assumes inv: "blob_inv l s" and ok: "put_blob_chunk blob i n data now l s = Ok (r, s')"
  shows "blob_inv l s'"
proof (cases "\<exists>c. r = BlobStored c")
  case False
  with ok inv show ?thesis using put_blob_chunk_unchanged by blast
next
  case True
  then obtain c where r: "r = BlobStored c" by blast
  let ?m = "announced blob n now s"
  note st = put_blob_chunk_stored [OF ok [unfolded r]]
  note cnt = with_chunk_counts [OF st(3), of data ?m]
  show ?thesis
    unfolding blob_inv_def
  proof (intro conjI allI impI)
    fix b m assume b: "tget (blobs s') b = Some m"
    show "received m = chunk_count s' b" "bm_bytes m = chunk_bytes s' b" "bm_bytes m \<le> max_blob_bytes l"
      using b st(4) announced_inv [OF inv, of blob n now] blob_inv_meta [OF inv, of b m]
      unfolding st(6) cnt by (auto simp: with_chunk_def split: if_splits)
  next
    fix b j d assume "tget (blob_chunks s') (b, j) = Some d"
    then show "\<exists>m. tget (blobs s') b = Some m \<and> j < bm_total m"
      using st(1,2) blob_inv_chunk [OF inv, of b j d] unfolding st(6)
      by (auto simp: with_chunk_def announced_def split: if_splits option.splits)
  qed (use blob_inv_bytes [OF inv] st(3,5) in \<open>auto simp: st(6) with_chunk_def tsum_insert\<close>)
qed

section \<open>Expiry\<close>

definition drop_blob :: "rstr \<Rightarrow> blob_meta \<Rightarrow> blob_store \<Rightarrow> blob_store" where
  "drop_blob b m s = s\<lparr>blob_chunks := tdel_all (map (Pair b) [0..<bm_total m]) (blob_chunks s),
     blobs := tdel b (blobs s), blob_bytes := blob_bytes s - bm_bytes m\<rparr>"

text \<open>A record a sweep listed, and the blob's record later: only its counts have grown.\<close>

definition listed_blob :: "blob_store \<Rightarrow> rstr \<times> blob_meta \<Rightarrow> bool" where
  "listed_blob s v \<longleftrightarrow> (\<exists>m. tget (blobs s) (fst v) = Some m \<and> bm_total m = bm_total (snd v) \<and>
     bm_bytes (snd v) \<le> bm_bytes m)"

text \<open>The bytes stored for a listed blob since it was listed, and the bytes BLOB\_BYTES is over.\<close>

definition stored_since :: "blob_store \<Rightarrow> rstr \<times> blob_meta \<Rightarrow> nat" where
  "stored_since s v = (case tget (blobs s) (fst v) of Some m \<Rightarrow> bm_bytes m - bm_bytes (snd v) | None \<Rightarrow> 0)"

definition excess :: "blob_store \<Rightarrow> nat" where
  "excess s = blob_bytes s - tsum (\<lambda>_ d. length d) (blob_chunks s)"

lemma drop_blob_chunks:
  assumes "blob_inv l s" "listed_blob s (b, m)"
  shows "tget (blob_chunks (drop_blob b m s)) k = Some d \<longleftrightarrow> tget (blob_chunks s) k = Some d \<and> \<not> fst k = b"
  using assms blob_inv_chunk [OF assms(1), of b "snd k" d]
  by (cases k) (auto simp: drop_blob_def image_iff listed_blob_def)

lemma blob_inv_drop:
  assumes inv: "blob_inv l s" and m: "listed_blob s (b, m)"
  shows "blob_inv l (drop_blob b m s) \<and> excess (drop_blob b m s) = excess s + stored_since s (b, m)"
proof -
  let ?s = "drop_blob b m s"
  obtain m1 where m1: "tget (blobs s) b = Some m1" "bm_total m1 = bm_total m" "bm_bytes m \<le> bm_bytes m1"
    using m by (auto simp: listed_blob_def)
  note split = tsum_split [where Q = "\<lambda>k. fst k = b", OF drop_blob_chunks [OF inv m]]
  have count: "chunk_count ?s b' = chunk_count s b'" "chunk_bytes ?s b' = chunk_bytes s b'" if "b' \<noteq> b" for b'
    using that split [of "\<lambda>k _. if fst k = b' then 1 else 0"] split [of "\<lambda>k d. if fst k = b' then length d else 0"]
    by (auto simp: chunk_count_def chunk_bytes_def tsum_eq_0_iff)
  have gone: "tsum (\<lambda>_ d. length d) (blob_chunks s) = tsum (\<lambda>_ d. length d) (blob_chunks ?s) + bm_bytes m1"
    using split [of "\<lambda>_ d. length d"] blob_inv_meta [OF inv m1(1)] by (simp add: chunk_bytes_def)
  have bytes: "blob_bytes ?s = blob_bytes s - bm_bytes m" by (simp add: drop_blob_def)
  have "blob_inv l ?s"
    unfolding blob_inv_def
  proof (intro conjI allI impI)
    fix b' m' assume "tget (blobs ?s) b' = Some m'"
    then have b': "tget (blobs s) b' = Some m'" "b' \<noteq> b" by (auto simp: drop_blob_def split: if_splits)
    from blob_inv_meta [OF inv b'(1)] count [OF b'(2)]
    show "received m' = chunk_count ?s b'" "bm_bytes m' = chunk_bytes ?s b'" "bm_bytes m' \<le> max_blob_bytes l"
      by simp_all
  next
    fix b' i d assume "tget (blob_chunks ?s) (b', i) = Some d"
    then have b': "tget (blob_chunks s) (b', i) = Some d" "b' \<noteq> b"
      using drop_blob_chunks [OF inv m, of "(b', i)" d] by auto
    from blob_inv_chunk [OF inv b'(1)] b'(2) show "\<exists>m. tget (blobs ?s) b' = Some m \<and> i < bm_total m"
      by (auto simp: drop_blob_def)
  qed (use blob_inv_bytes [OF inv] gone m1(3) bytes in linarith)+
  moreover have "excess ?s = excess s + stored_since s (b, m)"
    using blob_inv_bytes [OF inv] gone m1 bytes by (simp add: excess_def stored_since_def)
  ultimately show ?thesis ..
qed

lemma drop_blob_others:
  assumes "fst v \<noteq> b"
  shows "listed_blob (drop_blob b m s) v = listed_blob s v" "stored_since (drop_blob b m s) v = stored_since s v"
  using assms by (simp_all add: listed_blob_def stored_since_def drop_blob_def)

lemma drop_blobs_spec:
  assumes "blob_inv l s" "distinct (map fst vs)" "list_all (listed_blob s) vs"
  shows "blob_inv l (drop_blobs vs s) \<and>
    excess (drop_blobs vs s) = excess s + sum_list (map (stored_since s) vs) \<and>
    (\<forall>b. tget (blobs (drop_blobs vs s)) b = (if b \<in> fst ` set vs then None else tget (blobs s) b)) \<and>
    (\<forall>b i. tget (blob_chunks (drop_blobs vs s)) (b, i) =
      (if b \<in> fst ` set vs then None else tget (blob_chunks s) (b, i)))"
  using assms
proof (induction vs arbitrary: s)
  case (Cons v vs)
  obtain b m where v: "v = (b, m)" by (cases v)
  from Cons.prems have m: "listed_blob s (b, m)" by (simp add: v)
  let ?s = "drop_blob b m s"
  have others: "fst w \<noteq> b" if "w \<in> set vs" for w using that Cons.prems(2) by (auto simp: v)
  have listed: "list_all (listed_blob ?s) vs"
    using Cons.prems(3) others by (auto simp: list_all_iff drop_blob_others)
  have since: "map (stored_since ?s) vs = map (stored_since s) vs"
    using others by (auto simp: drop_blob_others)
  from Cons.IH [of ?s] blob_inv_drop [OF Cons.prems(1) m] listed Cons.prems(2)
  have IH: "blob_inv l (drop_blobs vs ?s) \<and>
    excess (drop_blobs vs ?s) = excess s + stored_since s (b, m) + sum_list (map (stored_since s) vs) \<and>
    (\<forall>b. tget (blobs (drop_blobs vs ?s)) b = (if b \<in> fst ` set vs then None else tget (blobs ?s) b)) \<and>
    (\<forall>b i. tget (blob_chunks (drop_blobs vs ?s)) (b, i) =
      (if b \<in> fst ` set vs then None else tget (blob_chunks ?s) (b, i)))"
    unfolding since by (simp add: v)
  have step: "drop_blobs (v # vs) s = drop_blobs vs ?s" by (simp add: v drop_blob_def)
  have chunk: "tget (blob_chunks ?s) (b', i) = (if b' = b then None else tget (blob_chunks s) (b', i))" for b' i
    by (rule option_eqI) (simp add: drop_blob_chunks [OF Cons.prems(1) m])
  have blob: "tget (blobs ?s) b' = (if b' = b then None else tget (blobs s) b')" for b'
    by (simp add: drop_blob_def)
  show ?case
    unfolding step using IH by (simp add: v chunk blob)
qed simp

lemma expired_blobs_listed:
  "distinct (map fst (expired_blobs cutoff s))" "list_all (listed_blob s) (expired_blobs cutoff s)"
  using RBT.distinct_entries [of "blobs s"]
  by (auto simp: expired_blobs_def distinct_map_filter list_all_iff listed_blob_def entries_iff)

section \<open>Histories\<close>

text \<open>
  The store and the blobs the sweep under way has listed. One loop of the relay runs the
  sweeps, so there is one at a time.
\<close>

type_synonym blob_state = "blob_store \<times> (rstr \<times> blob_meta) list option"

datatype blob_op = PutChunk rstr nat nat bytes nat | BeginSweep nat | EndSweep

definition blob_step :: "blob_limits \<Rightarrow> blob_state \<Rightarrow> blob_op \<Rightarrow> blob_state" where
  "blob_step l st x =
    (case (x, st) of
       (PutChunk b i n data now, s, p) \<Rightarrow>
         (case put_blob_chunk b i n data now l s of Ok (_, s') \<Rightarrow> (s', p) | _ \<Rightarrow> (s, p))
     | (BeginSweep cutoff, s, None) \<Rightarrow> (s, Some (expired_blobs cutoff s))
     | (EndSweep, s, Some victims) \<Rightarrow> (drop_blobs victims s, None)
     | _ \<Rightarrow> st)"

text \<open>What a step leaves BLOB\_BYTES over: what was stored for the blobs a sweep drops since it listed them.\<close>

definition sweep_excess :: "blob_state \<Rightarrow> blob_op \<Rightarrow> nat" where
  "sweep_excess st x =
    (case (x, st) of (EndSweep, s, Some victims) \<Rightarrow> sum_list (map (stored_since s) victims) | _ \<Rightarrow> 0)"

text \<open>The steps of one sweep are \<open>expire_blobs\<close>, with the steps in between as what falls between.\<close>

lemma expire_blobs_steps:
  assumes "run (blob_step l) (s, Some (expired_blobs cutoff s)) xs = (between s, Some (expired_blobs cutoff s))"
  shows "run (blob_step l) (s, None) (BeginSweep cutoff # xs @ [EndSweep]) =
    (snd (expire_blobs cutoff between s), None)"
  using assms by (simp add: blob_step_def expire_blobs_def Let_def)

definition blob_state_inv :: "blob_limits \<Rightarrow> blob_state \<Rightarrow> bool" where
  "blob_state_inv l st \<longleftrightarrow> blob_inv l (fst st) \<and>
     (case snd st of None \<Rightarrow> True | Some vs \<Rightarrow> distinct (map fst vs) \<and> list_all (listed_blob (fst st)) vs)"

lemma put_blob_chunk_grows:
  assumes inv: "blob_inv l s" and ok: "put_blob_chunk blob i n data now l s = Ok (r, s')"
  shows "excess s' = excess s" and "listed_blob s v \<Longrightarrow> listed_blob s' v"
proof -
  have "excess s' = excess s \<and> (listed_blob s v \<longrightarrow> listed_blob s' v)"
  proof (cases "\<exists>c. r = BlobStored c")
    case False
    with ok put_blob_chunk_unchanged show ?thesis by blast
  next
    case True
    then obtain c where "r = BlobStored c" by blast
    note st = put_blob_chunk_stored [OF ok [unfolded this]]
    show ?thesis
      using st(3) blob_inv_bytes [OF inv] unfolding st(6)
      by (auto simp: excess_def listed_blob_def with_chunk_def tsum_insert announced_def)
  qed
  then show "excess s' = excess s" "listed_blob s v \<Longrightarrow> listed_blob s' v" by blast+
qed

lemma blob_step_inv:
  assumes "blob_state_inv l st"
  shows "blob_state_inv l (blob_step l st x) \<and> excess (fst (blob_step l st x)) = excess (fst st) + sweep_excess st x"
proof -
  obtain s p where st: "st = (s, p)" by (cases st)
  have inv: "blob_inv l s" using assms by (simp add: blob_state_inv_def st)
  show ?thesis
  proof (cases x)
    case (PutChunk b i n data now)
    show ?thesis
    proof (cases "\<exists>r s'. put_blob_chunk b i n data now l s = Ok (r, s')")
      case True
      then obtain r s' where ok: "put_blob_chunk b i n data now l s = Ok (r, s')" by blast
      with assms blob_inv_put [OF inv ok] put_blob_chunk_grows [OF inv ok] show ?thesis
        by (auto simp: st PutChunk blob_step_def sweep_excess_def blob_state_inv_def list_all_iff split: option.splits)
    next
      case False
      then have "blob_step l st x = st"
        by (auto simp: st PutChunk blob_step_def split: res.splits)
      with assms show ?thesis by (simp add: st PutChunk sweep_excess_def)
    qed
  next
    case (BeginSweep cutoff)
    then show ?thesis
      using assms expired_blobs_listed [where cutoff = cutoff and s = s]
      by (cases p) (auto simp: st blob_step_def sweep_excess_def blob_state_inv_def)
  next
    case EndSweep
    then show ?thesis
      using assms drop_blobs_spec [OF inv]
      by (cases p) (auto simp: st blob_step_def sweep_excess_def blob_state_inv_def)
  qed
qed

interpretation blob_store: run_invariant True "blob_step l" "(empty_blobs, None)" "blob_state_inv l" for l
proof unfold_locales
  show "blob_state_inv l (empty_blobs, None)" by (simp add: blob_state_inv_def blob_inv_def empty_blobs_def)
next
  fix st x assume "blob_state_inv l st"
  then show "blob_state_inv l (blob_step l st x)" using blob_step_inv by blast
qed

lemma blob_inv_reachable: "blob_inv l (fst (run (blob_step l) (empty_blobs, None) xs))"
  using blob_store.inv_reachable [OF TrueI, of l xs] by (simp add: blob_state_inv_def)

lemma excess_run:
  "blob_state_inv l st \<Longrightarrow>
    excess (fst (run (blob_step l) st xs)) = excess (fst st) + sum_list (trace (blob_step l) sweep_excess st xs)"
proof (induction xs arbitrary: st)
  case (Cons x xs)
  with Cons.IH [of "blob_step l st x"] blob_step_inv [OF Cons.prems, of x] show ?case by simp
qed simp

section \<open>Properties\<close>

text \<open>
  C25. Invariant and bounds, with sweeps whose two transactions other connections' chunks may
  fall between. In every reachable state a blob's record counts exactly the chunks stored for
  it and their bytes, every stored chunk belongs to a recorded blob and is below its announced
  total, and neither a blob nor the whole store is over its cap. BLOB\_BYTES is the sum over
  all chunks plus, for every sweep that ended, the bytes stored for the blobs it dropped after
  it had listed them: it is exact as long as no chunk arrives for a listed blob before the
  sweep drops it, and stays too high from then on otherwise.
\<close>

theorem blob_accounting_exact:
  assumes "s = fst (run (blob_step l) (empty_blobs, None) xs)"
  shows "blob_bytes s = tsum (\<lambda>_ d. length d) (blob_chunks s) +
      sum_list (trace (blob_step l) sweep_excess (empty_blobs, None) xs) \<and>
    blob_bytes s \<le> max_total_blob_bytes l \<and>
    (\<forall>b m. tget (blobs s) b = Some m \<longrightarrow>
      received m = card {i. blob_chunk b i s \<noteq> None} \<and>
      bm_bytes m = tsum (\<lambda>k d. if fst k = b then length d else 0) (blob_chunks s) \<and>
      bm_bytes m \<le> max_blob_bytes l) \<and>
    (\<forall>b i. blob_chunk b i s \<noteq> None \<longrightarrow> (\<exists>m. tget (blobs s) b = Some m \<and> i < bm_total m))"
proof -
  have inv: "blob_inv l s" using blob_inv_reachable assms by simp
  have "excess s = sum_list (trace (blob_step l) sweep_excess (empty_blobs, None) xs)"
    using excess_run [OF blob_store.inv_start [OF TrueI], of l xs] assms by (simp add: excess_def empty_blobs_def)
  with blob_inv_bytes [OF inv]
  have "blob_bytes s = tsum (\<lambda>_ d. length d) (blob_chunks s) +
      sum_list (trace (blob_step l) sweep_excess (empty_blobs, None) xs)"
    "blob_bytes s \<le> max_total_blob_bytes l" unfolding excess_def by linarith+
  moreover have "\<forall>b m. tget (blobs s) b = Some m \<longrightarrow>
      received m = card {i. blob_chunk b i s \<noteq> None} \<and>
      bm_bytes m = tsum (\<lambda>k d. if fst k = b then length d else 0) (blob_chunks s) \<and>
      bm_bytes m \<le> max_blob_bytes l"
    using blob_inv_meta [OF inv] unfolding chunk_count_card chunk_bytes_def blob_chunk_def by blast
  moreover have "\<forall>b i. blob_chunk b i s \<noteq> None \<longrightarrow> (\<exists>m. tget (blobs s) b = Some m \<and> i < bm_total m)"
    using blob_inv_chunk [OF inv] by (auto simp: blob_chunk_def)
  ultimately show ?thesis by blast
qed

lemma entries_single: "RBT.entries (tput k v RBT.empty) = [(k, v)]"
proof -
  let ?es = "RBT.entries (tput k v RBT.empty)"
  have set: "set ?es = {(k, v)}" by (auto simp: entries_iff split: if_splits)
  moreover have "distinct ?es" using RBT.distinct_entries [of "tput k v RBT.empty"] by (simp add: distinct_map)
  ultimately have "length ?es = 1" by (metis card_1_singleton_iff distinct_card One_nat_def)
  with set show ?thesis by (cases ?es) auto
qed

abbreviation demo_blobs :: blob_store where
  "demo_blobs \<equiv> fst (run (blob_step default_blob_limits) (empty_blobs, None) [PutChunk [1] 0 2 [7, 8] 5])"

lemma demo_blobs_eq: "demo_blobs = with_chunk [1] 0 [7, 8] \<lparr>bm_total = 2, received = 0, bm_bytes = 0, bm_created_at_ms = 5\<rparr> empty_blobs"
  by (simp add: blob_step_def put_blob_chunk_def default_blob_limits_def empty_blobs_def with_chunk_def
      u64_max_def u32_max_def add64_def Let_def)

theorem blob_accounting_exact_witness:
  "let st = run (blob_step default_blob_limits) (empty_blobs, None)
      ([PutChunk [1] 0 2 [7, 8] 5] @ [BeginSweep 6, PutChunk [1] 1 2 [9] 5, EndSweep])
   in blob_bytes (fst st) = 1 \<and> tsum (\<lambda>_ d. length d) (blob_chunks (fst st)) = 0"
proof -
  let ?l = default_blob_limits
  let ?m = "\<lparr>bm_total = 2, received = 1, bm_bytes = 2, bm_created_at_ms = 5\<rparr>"
  define s0 where "s0 = with_chunk [1] 0 [7, 8] \<lparr>bm_total = 2, received = 0, bm_bytes = 0, bm_created_at_ms = 5\<rparr> empty_blobs"
  define s1 where "s1 = with_chunk [1] 1 [9] ?m s0"
  have fields: "blobs s0 = tput [1] ?m RBT.empty" "blob_chunks s0 = tput ([1], 0) [7, 8] RBT.empty" "blob_bytes s0 = 2"
    by (simp_all add: s0_def with_chunk_def empty_blobs_def numeral_2_eq_2)
  have one: "run (blob_step ?l) (empty_blobs, None) [PutChunk [1] 0 2 [7, 8] 5] = (s0, None)"
    using demo_blobs_eq unfolding s0_def by (auto simp: blob_step_def case_prod_beta split: res.splits)
  have put: "put_blob_chunk [1] 1 2 [9] 5 ?l s0 = Ok (BlobStored True, s1)"
    by (simp add: s1_def fields put_blob_chunk_def with_chunk_def default_blob_limits_def
        u64_max_def u32_max_def add64_def Let_def is_complete_def numeral_3_eq_3)
  have listed: "expired_blobs 6 s0 = [([1], ?m)]" unfolding expired_blobs_def fields entries_single by simp
  have steps: "blob_step ?l (s0, None) (BeginSweep 6) = (s0, Some [([1], ?m)])"
    "blob_step ?l (s0, Some [([1], ?m)]) (PutChunk [1] 1 2 [9] 5) = (s1, Some [([1], ?m)])"
    "blob_step ?l (s1, Some [([1], ?m)]) EndSweep = (drop_blobs [([1], ?m)] s1, None)"
    unfolding blob_step_def listed put prod.case option.case blob_op.case res.case by (rule refl)+
  have "tget (blob_chunks (drop_blobs [([1], ?m)] s1)) k = None" for k
    by (cases k) (auto simp: s1_def with_chunk_def fields image_iff)
  then have gone: "tsum (\<lambda>_ d. length d) (blob_chunks (drop_blobs [([1], ?m)] s1)) = 0"
    by (simp add: tsum_eq_0_iff)
  have end_state: "run (blob_step ?l) (empty_blobs, None)
      ([PutChunk [1] 0 2 [7, 8] 5] @ [BeginSweep 6, PutChunk [1] 1 2 [9] 5, EndSweep]) =
      (drop_blobs [([1], ?m)] s1, None)"
    by (simp only: run_append one) (simp only: run.simps steps)
  have leak: "sum_list (trace (blob_step ?l) sweep_excess (empty_blobs, None)
      ([PutChunk [1] 0 2 [7, 8] 5] @ [BeginSweep 6, PutChunk [1] 1 2 [9] 5, EndSweep])) = 1"
    unfolding trace_append one unfolding trace.simps steps
    by (simp add: sweep_excess_def stored_since_def s1_def with_chunk_def fields)
  show ?thesis
    using blob_accounting_exact [OF refl, of ?l
        "[PutChunk [1] 0 2 [7, 8] 5] @ [BeginSweep 6, PutChunk [1] 1 2 [9] 5, EndSweep]"]
    unfolding Let_def end_state leak fst_conv gone by simp
qed

text \<open>
  C26. Functional behaviour. In every reachable state, a sweep under way or not, a chunk that is stored can be read
  back, no other chunk changes, and the answer says complete exactly when every chunk of the
  announced total is there; a chunk already present is never overwritten.
\<close>

theorem blob_complete_iff_all_chunks:
  assumes "s = fst (run (blob_step l) (empty_blobs, None) xs)"
    and "put_blob_chunk b i n data now l s = Ok (r, s')"
  shows "(\<forall>c. r = BlobStored c \<longrightarrow>
      blob_chunk b i s' = Some data \<and> (c \<longleftrightarrow> (\<forall>j<n. blob_chunk b j s' \<noteq> None))) \<and>
    (\<forall>b' j d. blob_chunk b' j s = Some d \<longrightarrow> blob_chunk b' j s' = Some d)"
proof -
  have inv: "blob_inv l s" using blob_inv_reachable assms(1) by simp
  have kept: "blob_chunk b' j s' = Some d" if "blob_chunk b' j s = Some d" for b' j d
  proof (cases "\<exists>c. r = BlobStored c")
    case True
    then obtain c where "put_blob_chunk b i n data now l s = Ok (BlobStored c, s')" using assms(2) by blast
    from put_blob_chunk_stored(3,6) [OF this] that show ?thesis
      by (auto simp: blob_chunk_def with_chunk_def)
  next
    case False
    then have "s' = s" by (intro put_blob_chunk_unchanged [OF assms(2)]) blast
    with that show ?thesis by simp
  qed
  have "blob_chunk b i s' = Some data \<and> (c \<longleftrightarrow> (\<forall>j<n. blob_chunk b j s' \<noteq> None))" if r: "r = BlobStored c" for c
  proof -
    note st = put_blob_chunk_stored [OF assms(2) [unfolded r]]
    let ?A = "{j. tget (blob_chunks s') (b, j) \<noteq> None}"
    have inv': "blob_inv l s'" using inv assms(2) by (rule blob_inv_put)
    have meta: "tget (blobs s') b = Some ((announced b n now s)\<lparr>received := received (announced b n now s) + 1,
        bm_bytes := bm_bytes (announced b n now s) + length data\<rparr>)"
      by (simp add: st(6) with_chunk_def)
    from blob_inv_meta [OF inv' meta] st(7)
    have c: "c \<longleftrightarrow> card ?A = n" by (simp add: chunk_count_card)
    have sub: "?A \<subseteq> {..<n}"
    proof
      fix j assume "j \<in> ?A"
      then obtain d where "tget (blob_chunks s') (b, j) = Some d" by auto
      from blob_inv_chunk [OF inv' this] meta st(1) show "j \<in> {..<n}" by simp
    qed
    have "card ?A = n \<longleftrightarrow> ?A = {..<n}"
      using card_subset_eq [OF finite_lessThan sub] by (metis (no_types) card_lessThan)
    also have "\<dots> \<longleftrightarrow> (\<forall>j<n. blob_chunk b j s' \<noteq> None)"
      using sub by (auto simp: blob_chunk_def simp del: not_None_eq)
    finally have "c \<longleftrightarrow> (\<forall>j<n. blob_chunk b j s' \<noteq> None)" using c by simp
    moreover have "blob_chunk b i s' = Some data" by (simp add: st(6) with_chunk_def blob_chunk_def)
    ultimately show ?thesis by simp
  qed
  with kept show ?thesis by blast
qed

theorem blob_complete_iff_all_chunks_witness:
  "\<exists>s'. put_blob_chunk [1] 1 2 [9] 6 default_blob_limits demo_blobs = Ok (BlobStored True, s') \<and>
    blob_chunk [1] 1 s' = Some [9] \<and> blob_chunk [1] 0 s' = Some [7, 8]"
proof -
  let ?s = "with_chunk [1] 1 [9] \<lparr>bm_total = 2, received = 1, bm_bytes = 2, bm_created_at_ms = 5\<rparr> demo_blobs"
  have put: "put_blob_chunk [1] 1 2 [9] 6 default_blob_limits demo_blobs = Ok (BlobStored True, ?s)"
    unfolding demo_blobs_eq
    by (simp add: put_blob_chunk_def with_chunk_def empty_blobs_def default_blob_limits_def
        u64_max_def u32_max_def add64_def Let_def is_complete_def numeral_3_eq_3)
  have first: "blob_chunk [1] 0 demo_blobs = Some [7, 8]"
    unfolding demo_blobs_eq by (simp add: blob_chunk_def with_chunk_def)
  note all = blob_complete_iff_all_chunks [OF refl put]
  have "blob_chunk [1] 1 ?s = Some [9]" using spec [OF conjunct1 [OF all], of True] by simp
  moreover have "blob_chunk [1] 0 ?s = Some [7, 8]"
    using conjunct2 [OF all] first by (simp del: run.simps)
  ultimately show ?thesis by (intro exI [of _ ?s] conjI put)
qed

end
