(* ===== verification/Layouts.thy ===== *)
theory Layouts
  imports Prelude
begin

text \<open>
  Byte layouts that hash and signature inputs are written in. A layout is self-delimiting on
  the values it admits when what follows it can be told apart from it; concatenations,
  optional fields behind a tag byte, length-prefixed fields and counted lists of
  self-delimiting layouts are self-delimiting again. A component shows that its own layout is
  one of these combinations, and unambiguity follows.
\<close>

definition self_delimiting :: "('a \<Rightarrow> bytes) \<Rightarrow> ('a \<Rightarrow> bool) \<Rightarrow> bool" where
  "self_delimiting f P \<longleftrightarrow>
    (\<forall>x y r r'. P x \<longrightarrow> P y \<longrightarrow> f x @ r = f y @ r' \<longrightarrow> x = y \<and> r = r')"

named_theorems layouts \<open>self-delimiting layouts\<close>

lemma self_delimitingD:
  "self_delimiting f P \<Longrightarrow> P x \<Longrightarrow> P y \<Longrightarrow> f x @ r = f y @ r' \<Longrightarrow> x = y \<and> r = r'"
  unfolding self_delimiting_def by blast

lemma self_delimiting_inj: "self_delimiting f P \<Longrightarrow> P x \<Longrightarrow> P y \<Longrightarrow> f x = f y \<Longrightarrow> x = y"
  using self_delimitingD [of f P x y "[]" "[]"] by simp

lemma self_delimiting_weaken:
  "self_delimiting f P \<Longrightarrow> (\<And>x. Q x \<Longrightarrow> P x) \<Longrightarrow> self_delimiting f Q"
  unfolding self_delimiting_def by blast

section \<open>Fixed-width fields\<close>

definition fixed :: "nat \<Rightarrow> bytes \<Rightarrow> bytes" where "fixed n bs = bs"

lemma self_delimiting_fixed [layouts]: "self_delimiting (fixed n) (\<lambda>bs. length bs = n)"
  by (auto simp: self_delimiting_def fixed_def)

lemma self_delimiting_be [layouts]:
  "self_delimiting be16 (\<lambda>_. True)" "self_delimiting be32 (\<lambda>_. True)" "self_delimiting be64 (\<lambda>_. True)"
  by (auto simp: self_delimiting_def be_append_inj)

lemma self_delimiting_byte [layouts]: "self_delimiting (\<lambda>b. [b]) (\<lambda>_. True)"
  by (simp add: self_delimiting_def)

section \<open>Combinations\<close>

definition both :: "('a \<Rightarrow> bytes) \<Rightarrow> ('b \<Rightarrow> bytes) \<Rightarrow> 'a \<times> 'b \<Rightarrow> bytes" where
  "both f g = (\<lambda>(x, y). f x @ g y)"

definition optional :: "('a \<Rightarrow> bytes) \<Rightarrow> 'a option \<Rightarrow> bytes" where
  "optional f x = (case x of None \<Rightarrow> [0] | Some v \<Rightarrow> 1 # f v)"

definition put_var :: "bytes \<Rightarrow> bytes" where
  "put_var bs = be32 (of_nat (length bs)) @ bs"

definition counted32 :: "('a \<Rightarrow> bytes) \<Rightarrow> 'a list \<Rightarrow> bytes" where
  "counted32 f xs = be32 (of_nat (length xs)) @ concat (map f xs)"

definition counted16 :: "('a \<Rightarrow> bytes) \<Rightarrow> 'a list \<Rightarrow> bytes" where
  "counted16 f xs = be16 (of_nat (length xs)) @ concat (map f xs)"

lemma self_delimiting_both [layouts]:
  assumes "self_delimiting f P" "self_delimiting g Q"
  shows "self_delimiting (both f g) (\<lambda>(x, y). P x \<and> Q y)"
proof (unfold self_delimiting_def, intro allI impI)
  fix p q r r'
  assume v: "case p of (x, y) \<Rightarrow> P x \<and> Q y" "case q of (x, y) \<Rightarrow> P x \<and> Q y"
    and eq: "both f g p @ r = both f g q @ r'"
  obtain x y x' y' where pq: "p = (x, y)" "q = (x', y')" by fastforce
  with v have v': "P x" "P x'" "Q y" "Q y'" by auto
  have "x = x' \<and> g y @ r = g y' @ r'"
    by (rule self_delimitingD [OF assms(1) v'(1,2)]) (use eq pq in \<open>simp add: both_def\<close>)
  then show "p = q \<and> r = r'" using self_delimitingD [OF assms(2) v'(3,4)] pq by blast
qed

lemma self_delimiting_optional [layouts]:
  assumes "self_delimiting f P"
  shows "self_delimiting (optional f) (pred_option P)"
proof (unfold self_delimiting_def, intro allI impI)
  fix p q r r'
  assume v: "pred_option P p" "pred_option P q" and eq: "optional f p @ r = optional f q @ r'"
  show "p = q \<and> r = r'"
  proof (cases p)
    case None
    with eq show ?thesis by (cases q) (simp_all add: optional_def)
  next
    case (Some x)
    with eq obtain y where y: "q = Some y" by (cases q) (auto simp: optional_def)
    have "P x" "P y" "f x @ r = f y @ r'" using v eq Some y by (simp_all add: optional_def)
    from self_delimitingD [OF assms this] Some y show ?thesis by blast
  qed
qed

lemma of_nat_inj_below:
  "n < 2 ^ LENGTH('w) \<Longrightarrow> m < 2 ^ LENGTH('w) \<Longrightarrow> (of_nat n :: 'w::len word) = of_nat m \<Longrightarrow> n = m"
  by (metis mod_less unat_of_nat)

lemma self_delimiting_var [layouts]: "self_delimiting put_var (\<lambda>bs. length bs < 2 ^ 32)"
proof (unfold self_delimiting_def put_var_def, intro allI impI)
  fix xs ys r r' :: bytes
  assume le: "length xs < 2 ^ 32" "length ys < 2 ^ 32"
    and eq: "(be32 (of_nat (length xs)) @ xs) @ r = (be32 (of_nat (length ys)) @ ys) @ r'"
  then have w: "(of_nat (length xs) :: u32) = of_nat (length ys)" and t: "xs @ r = ys @ r'"
    by (simp_all add: be_append_inj)
  have "length xs = length ys" by (rule of_nat_inj_below [OF _ _ w]) (use le in simp_all)
  with t show "xs = ys \<and> r = r'" by simp
qed

lemma concat_self_delimiting:
  assumes "self_delimiting f P"
  shows "list_all P xs \<Longrightarrow> list_all P ys \<Longrightarrow> length xs = length ys \<Longrightarrow>
    concat (map f xs) @ r = concat (map f ys) @ r' \<Longrightarrow> xs = ys \<and> r = r'"
proof (induction xs arbitrary: ys)
  case (Cons x xs)
  then obtain y ys' where ys: "ys = y # ys'" by (cases ys) auto
  with Cons.prems have "f x @ concat (map f xs) @ r = f y @ concat (map f ys') @ r'" "P x" "P y"
    by auto
  from self_delimitingD [OF assms this(2,3,1)]
  have "x = y" "concat (map f xs) @ r = concat (map f ys') @ r'" by auto
  with Cons.IH [of ys'] Cons.prems ys show ?case by auto
qed simp

lemma self_delimiting_counted32 [layouts]:
  assumes "self_delimiting f P"
  shows "self_delimiting (counted32 f) (\<lambda>xs. list_all P xs \<and> length xs < 2 ^ 32)"
proof (unfold self_delimiting_def counted32_def, intro allI impI)
  fix xs ys and r r' :: bytes
  assume le: "list_all P xs \<and> length xs < 2 ^ 32" "list_all P ys \<and> length ys < 2 ^ 32"
    and eq: "(be32 (of_nat (length xs)) @ concat (map f xs)) @ r =
      (be32 (of_nat (length ys)) @ concat (map f ys)) @ r'"
  then have w: "(of_nat (length xs) :: u32) = of_nat (length ys)"
    and t: "concat (map f xs) @ r = concat (map f ys) @ r'"
    by (simp_all add: be_append_inj)
  have "length xs = length ys" by (rule of_nat_inj_below [OF _ _ w]) (use le in simp_all)
  then show "xs = ys \<and> r = r'" using concat_self_delimiting [OF assms _ _ _ t] le by simp
qed

lemma self_delimiting_counted16 [layouts]:
  assumes "self_delimiting f P"
  shows "self_delimiting (counted16 f) (\<lambda>xs. list_all P xs \<and> length xs < 2 ^ 16)"
proof (unfold self_delimiting_def counted16_def, intro allI impI)
  fix xs ys and r r' :: bytes
  assume le: "list_all P xs \<and> length xs < 2 ^ 16" "list_all P ys \<and> length ys < 2 ^ 16"
    and eq: "(be16 (of_nat (length xs)) @ concat (map f xs)) @ r =
      (be16 (of_nat (length ys)) @ concat (map f ys)) @ r'"
  then have w: "(of_nat (length xs) :: u16) = of_nat (length ys)"
    and t: "concat (map f xs) @ r = concat (map f ys) @ r'"
    by (simp_all add: be_append_inj)
  have "length xs = length ys" by (rule of_nat_inj_below [OF _ _ w]) (use le in simp_all)
  then show "xs = ys \<and> r = r'" using concat_self_delimiting [OF assms _ _ _ t] le by simp
qed

end
