(* ===== verification/Transparency.thy ===== *)
theory Transparency
  imports Bundles Layouts
begin

text \<open>
  What relay and client agree on about the key transparency log
  (\<^verbatim>\<open>silver-protocol/src/transparency.rs\<close>): log heads and entries, the hash of an entry, the
  leaf of a bundle or statement, the subject an entry is filed under, and the replay of a
  page of entries onto a head. Shown here: a head commits to every entry before it, and a
  leaf commits to everything its owner signed, in both cases up to a SHA-256 collision among the inputs at hand; and
  what a replay accepts.
\<close>

section \<open>Heads and entries\<close>

definition SUBJECT_DOMAIN :: bytes where
  "SUBJECT_DOMAIN = ascii ''silver-messenger/v4/transparency-subject''"

definition ENTRY_DOMAIN :: bytes where
  "ENTRY_DOMAIN = ascii ''silver-messenger/v4/transparency-entry''"

definition BUNDLE_LEAF_DOMAIN :: bytes where
  "BUNDLE_LEAF_DOMAIN = ascii ''silver-messenger/v4/transparency-bundle''"

definition REVOCATION_LEAF_DOMAIN :: bytes where
  "REVOCATION_LEAF_DOMAIN = ascii ''silver-messenger/v4/transparency-revocation''"

definition SUCCESSION_LEAF_DOMAIN :: bytes where
  "SUCCESSION_LEAF_DOMAIN = ascii ''silver-messenger/v4/transparency-succession''"

definition DEVICE_REVOCATION_LEAF_DOMAIN :: bytes where
  "DEVICE_REVOCATION_LEAF_DOMAIN = ascii ''silver-messenger/v5/transparency-device-revocation''"

definition LOG_PAGE :: nat where "LOG_PAGE = 256"

record log_head =
  lh_index :: u64
  lh_hash :: bytes

definition EMPTY :: log_head where
  "EMPTY = \<lparr>lh_index = 0, lh_hash = replicate 32 0\<rparr>"

datatype entry_kind = Bundle | Revocation | Succession

fun kind_byte :: "entry_kind \<Rightarrow> u8" where
  "kind_byte Bundle = 1"
| "kind_byte Revocation = 2"
| "kind_byte Succession = 3"

record log_entry =
  le_index :: u64
  le_prev :: bytes
  le_subject :: bytes
  le_kind :: entry_kind
  le_leaf :: bytes
  le_at_ms :: u64

text \<open>The index after the head's is \<open>head.index + 1\<close>, which overflows past the last index.\<close>

definition entry_after ::
  "log_head \<Rightarrow> bytes \<Rightarrow> entry_kind \<Rightarrow> bytes \<Rightarrow> u64 \<Rightarrow> (log_entry, string) res" where
  "entry_after head subj kind leaf at_ms =
    (if lh_index head = - 1 then Panic
     else Ok \<lparr>le_index = lh_index head + 1, le_prev = lh_hash head, le_subject = subj,
              le_kind = kind, le_leaf = leaf, le_at_ms = at_ms\<rparr>)"

definition entry_bytes :: "log_entry \<Rightarrow> bytes" where
  "entry_bytes e =
    ENTRY_DOMAIN @ le_prev e @ be64 (le_index e) @ le_subject e @ [kind_byte (le_kind e)] @
    le_leaf e @ be64 (le_at_ms e)"

definition entry_hash :: "crypto \<Rightarrow> log_entry \<Rightarrow> bytes" where
  "entry_hash C e = sha256 C (entry_bytes e)"

definition entry_head :: "crypto \<Rightarrow> log_entry \<Rightarrow> log_head" where
  "entry_head C e = \<lparr>lh_index = le_index e, lh_hash = entry_hash C e\<rparr>"

definition follows :: "log_entry \<Rightarrow> log_head \<Rightarrow> bool" where
  "follows e head \<longleftrightarrow> le_index e = lh_index head + 1 \<and> le_prev e = lh_hash head"

record log_position =
  lp_index :: u64
  lp_leaf :: bytes

definition default_position :: log_position where
  "default_position = \<lparr>lp_index = 0, lp_leaf = replicate 32 0\<rparr>"

definition subject :: "crypto \<Rightarrow> user_id \<Rightarrow> bytes" where
  "subject C user = sha256 C (SUBJECT_DOMAIN @ user)"

section \<open>Leaves\<close>

definition pq_leaf_bytes :: "signed_pq_prekey option \<Rightarrow> bytes" where
  "pq_leaf_bytes pq =
    (case pq of
       None \<Rightarrow> [0]
     | Some k \<Rightarrow> [1] @ be32 (pqk_id k) @ put_var (pqk_public k) @ be64 (pqk_created_at_ms k) @
                pqk_signature k)"

definition prekeys_leaf_bytes :: "prekeys option \<Rightarrow> bytes" where
  "prekeys_leaf_bytes pks =
    (case pks of
       None \<Rightarrow> [0]
     | Some p \<Rightarrow> [1] @ be32 (spk_id (pk_signed p)) @ spk_public (pk_signed p) @
                be64 (spk_created_at_ms (pk_signed p)) @ spk_signature (pk_signed p) @
                pq_leaf_bytes (pq_signed p))"

definition signature_leaf_bytes :: "bytes option \<Rightarrow> bytes" where
  "signature_leaf_bytes s = (case s of None \<Rightarrow> [0] | Some signature \<Rightarrow> [1] @ signature)"

definition devices_leaf_bytes :: "key_bundle \<Rightarrow> bytes" where
  "devices_leaf_bytes b =
    (if kb_devices b \<noteq> [] \<or> kb_device_of b \<noteq> None
     then be16 (of_nat (length (kb_devices b))) @
          concat (map (\<lambda>d. dc_device d @ be64 (dc_created_at_ms d)) (kb_devices b)) @
          signature_leaf_bytes (kb_devices_signature b) @
          (case kb_device_of b of None \<Rightarrow> [0] | Some c \<Rightarrow> [1] @ put_var (dc_encode c))
     else [])"

definition bundle_leaf_bytes :: "key_bundle \<Rightarrow> bytes" where
  "bundle_leaf_bytes b =
    BUNDLE_LEAF_DOMAIN @ kb_user_id b @ kb_dh_public b @ kb_signature b @
    prekeys_leaf_bytes (kb_prekeys b) @
    be32 (of_nat (length (kb_caps b))) @ concat (map (\<lambda>cap. put_var (utf8 cap)) (kb_caps b)) @
    signature_leaf_bytes (kb_caps_signature b) @
    devices_leaf_bytes b"

definition bundle_leaf :: "crypto \<Rightarrow> key_bundle \<Rightarrow> bytes" where
  "bundle_leaf C b = sha256 C (bundle_leaf_bytes b)"

definition device_revocation_leaf :: "crypto \<Rightarrow> device_revocation \<Rightarrow> bytes" where
  "device_revocation_leaf C r =
    sha256 C (DEVICE_REVOCATION_LEAF_DOMAIN @ dr_account r @ dr_device r @
              be64 (dr_created_at_ms r) @ dr_signature r)"

definition revocation_leaf :: "crypto \<Rightarrow> revocation \<Rightarrow> bytes" where
  "revocation_leaf C r =
    sha256 C (REVOCATION_LEAF_DOMAIN @ rev_identity r @ be64 (rev_created_at_ms r) @ rev_signature r)"

definition succession_leaf :: "crypto \<Rightarrow> succession \<Rightarrow> bytes" where
  "succession_leaf C s =
    sha256 C (SUCCESSION_LEAF_DOMAIN @ suc_old s @ suc_new s @ be64 (suc_created_at_ms s) @
              suc_old_signature s @ suc_new_signature s)"

section \<open>Replay\<close>

datatype replay_error = Broken u64 u64 | Fork u64

fun replay_from :: "crypto \<Rightarrow> log_head \<Rightarrow> log_entry list \<Rightarrow> (log_head, replay_error) res" where
  "replay_from C at [] = Ok at"
| "replay_from C at (e # es) =
    (if \<not> follows e at then Err (Broken (lh_index at) (le_index e))
     else replay_from C (entry_head C e) es)"

definition replay ::
  "crypto \<Rightarrow> log_head \<Rightarrow> log_entry list \<Rightarrow> log_head option \<Rightarrow> (log_head, replay_error) res" where
  "replay C head entries expected =
    and_then (replay_from C head entries) (\<lambda>at.
      case expected of
        Some ex \<Rightarrow>
          if lh_index at = lh_index ex \<and> lh_hash at \<noteq> lh_hash ex then Err (Fork (lh_index at))
          else Ok at
      | None \<Rightarrow> Ok at)"

section \<open>A head commits to the entries before it\<close>

text \<open>Hashes, ids and leaves are arrays of 32 bytes in the source.\<close>

definition entry_wf :: "log_entry \<Rightarrow> bool" where
  "entry_wf e \<longleftrightarrow> length (le_prev e) = 32 \<and> length (le_subject e) = 32 \<and> length (le_leaf e) = 32"

lemma kind_byte_inj: "kind_byte k = kind_byte k' \<Longrightarrow> k = k'"
  by (cases k; cases k') simp_all

lemma entry_bytes_inj:
  assumes "entry_wf e" "entry_wf e'" "entry_bytes e = entry_bytes e'"
  shows "e = e'"
proof -
  have "le_prev e = le_prev e'" "le_index e = le_index e'" "le_subject e = le_subject e'"
    "kind_byte (le_kind e) = kind_byte (le_kind e')" "le_leaf e = le_leaf e'" "le_at_ms e = le_at_ms e'"
    using assms by (simp_all add: entry_bytes_def entry_wf_def append_eq_width be_append_inj)
  then show ?thesis using kind_byte_inj by (intro log_entry.equality) auto
qed

lemma replay_from_append:
  "replay_from C h (es @ fs) = and_then (replay_from C h es) (\<lambda>h'. replay_from C h' fs)"
  by (induction es arbitrary: h) auto

lemma replay_from_snoc:
  "replay_from C h (es @ [e]) = Ok h' \<longleftrightarrow>
    (\<exists>g. replay_from C h es = Ok g \<and> follows e g \<and> h' = entry_head C e)"
  by (auto simp: replay_from_append)

lemma replay_from_index:
  "replay_from C h es = Ok h' \<Longrightarrow> lh_index h' = lh_index h + of_nat (length es)"
proof (induction es arbitrary: h)
  case (Cons e es)
  then have f: "follows e h" and r: "replay_from C (entry_head C e) es = Ok h'"
    by (auto split: if_splits)
  from Cons.IH [OF r] f show ?case by (simp add: follows_def entry_head_def)
qed simp

lemma replay_commits:
  assumes "replay_from C h es = Ok k" "replay_from C h fs = Ok k" "length es = length fs"
    "list_all entry_wf es" "list_all entry_wf fs"
  shows "es = fs \<or> collision_in (sha256 C) (map entry_bytes (es @ fs))"
  using assms
proof (induction es arbitrary: fs k rule: rev_induct)
  case (snoc e es)
  then obtain f fs' where fs: "fs = fs' @ [f]" "length es = length fs'"
    by (cases fs rule: rev_cases) auto
  obtain g where g: "replay_from C h es = Ok g" "follows e g" "k = entry_head C e"
    using snoc.prems(1) by (auto simp: replay_from_snoc)
  obtain g' where g': "replay_from C h fs' = Ok g'" "follows f g'" "k = entry_head C f"
    using snoc.prems(2) fs by (auto simp: replay_from_snoc)
  have wf: "entry_wf e" "entry_wf f" using snoc.prems fs by auto
  show ?case
  proof (cases "e = f")
    case True
    then have "g = g'" using g(2) g'(2) by (intro log_head.equality) (auto simp: follows_def)
    with snoc.IH [OF g(1), of fs'] g' fs snoc.prems
    have "es = fs' \<or> collision_in (sha256 C) (map entry_bytes (es @ fs'))" by auto
    then show ?thesis
    proof
      assume "collision_in (sha256 C) (map entry_bytes (es @ fs'))"
      then have "collision_in (sha256 C) (map entry_bytes ((es @ [e]) @ fs))"
        by (rule collision_in_mono) (auto simp: fs)
      then show ?thesis ..
    qed (simp add: fs True)
  next
    case False
    then have "entry_bytes e \<noteq> entry_bytes f" using entry_bytes_inj [OF wf] by blast
    then have "collision_in (sha256 C) (map entry_bytes ((es @ [e]) @ fs))"
      using g(3) g'(3) fs by (intro collision_inI [of _ "entry_bytes e" "entry_bytes f"])
        (auto simp: entry_head_def entry_hash_def)
    then show ?thesis ..
  qed
qed simp

section \<open>A leaf commits to what it covers\<close>

type_synonym pq_view = "u32 \<times> bytes \<times> u64 \<times> bytes"
type_synonym prekeys_view = "u32 \<times> bytes \<times> u64 \<times> bytes \<times> pq_view option"
type_synonym devices_view = "(bytes \<times> u64) list \<times> bytes option \<times> bytes option"
type_synonym bundle_view =
  "bytes \<times> bytes \<times> bytes \<times> prekeys_view option \<times> bytes list \<times> bytes option"

definition pq_view :: "signed_pq_prekey \<Rightarrow> pq_view" where
  "pq_view k = (pqk_id k, pqk_public k, pqk_created_at_ms k, pqk_signature k)"

definition prekeys_view :: "prekeys \<Rightarrow> prekeys_view" where
  "prekeys_view p = (spk_id (pk_signed p), spk_public (pk_signed p), spk_created_at_ms (pk_signed p),
     spk_signature (pk_signed p), map_option pq_view (pq_signed p))"

definition bundle_view :: "key_bundle \<Rightarrow> bundle_view" where
  "bundle_view b = (kb_user_id b, kb_dh_public b, kb_signature b,
     map_option prekeys_view (kb_prekeys b), map utf8 (kb_caps b), kb_caps_signature b)"

definition devices_view :: "key_bundle \<Rightarrow> devices_view option" where
  "devices_view b =
    (if kb_devices b \<noteq> [] \<or> kb_device_of b \<noteq> None
     then Some (map (\<lambda>d. (dc_device d, dc_created_at_ms d)) (kb_devices b),
                kb_devices_signature b, map_option dc_encode (kb_device_of b))
     else None)"

text \<open>Array lengths of the source's types, and the counts that fit their length fields.\<close>

definition pq_fits :: "pq_view \<Rightarrow> bool" where
  "pq_fits = (\<lambda>(_, public, _, signature). length public < 2 ^ 32 \<and> length signature = 64)"

definition prekeys_fit :: "prekeys_view \<Rightarrow> bool" where
  "prekeys_fit = (\<lambda>(_, public, _, signature, pq).
     length public = 32 \<and> length signature = 64 \<and> pred_option pq_fits pq)"

definition devices_fit :: "devices_view \<Rightarrow> bool" where
  "devices_fit = (\<lambda>(ds, signature, cert).
     (list_all (\<lambda>(d, _). length d = 32) ds \<and> length ds < 2 ^ 16) \<and>
     pred_option (\<lambda>s. length s = 64) signature \<and> pred_option (\<lambda>c. length c < 2 ^ 32) cert)"

definition pq_layout :: "pq_view \<Rightarrow> bytes" where
  "pq_layout = both be32 (both put_var (both be64 (fixed 64)))"

definition prekeys_layout :: "prekeys_view \<Rightarrow> bytes" where
  "prekeys_layout =
    both be32 (both (fixed 32) (both be64 (both (fixed 64) (optional pq_layout))))"

definition devices_layout :: "devices_view \<Rightarrow> bytes" where
  "devices_layout =
    both (counted16 (both (fixed 32) be64)) (both (optional (fixed 64)) (optional put_var))"

definition bundle_layout :: "bundle_view \<Rightarrow> bytes" where
  "bundle_layout =
    both (fixed 32) (both (fixed 32) (both (fixed 64) (both (optional prekeys_layout)
      (both (counted32 put_var) (optional (fixed 64))))))"

definition bundle_view_fits :: "bundle_view \<Rightarrow> bool" where
  "bundle_view_fits = (\<lambda>(user, dh, signature, pks, caps, caps_signature).
     length user = 32 \<and> length dh = 32 \<and> length signature = 64 \<and> pred_option prekeys_fit pks \<and>
     (list_all (\<lambda>c. length c < 2 ^ 32) caps \<and> length caps < 2 ^ 32) \<and>
     pred_option (\<lambda>s. length s = 64) caps_signature)"

definition bundle_fits :: "key_bundle \<Rightarrow> bool" where
  "bundle_fits b \<longleftrightarrow> bundle_view_fits (bundle_view b) \<and> pred_option devices_fit (devices_view b)"

lemma bundle_leaf_bytes_layout:
  "bundle_leaf_bytes b = BUNDLE_LEAF_DOMAIN @ bundle_layout (bundle_view b) @
     (case devices_view b of None \<Rightarrow> [] | Some v \<Rightarrow> devices_layout v)"
  by (simp add: bundle_leaf_bytes_def bundle_layout_def bundle_view_def devices_view_def
      devices_leaf_bytes_def prekeys_leaf_bytes_def pq_leaf_bytes_def signature_leaf_bytes_def
      prekeys_layout_def pq_layout_def devices_layout_def prekeys_view_def pq_view_def
      both_def optional_def fixed_def counted32_def counted16_def comp_def split: option.split)

lemma pq_layout_delimits [layouts]: "self_delimiting pq_layout pq_fits"
  unfolding pq_layout_def
  by (rule self_delimiting_weaken, (rule layouts)+) (auto simp: pq_fits_def)

lemma prekeys_layout_delimits [layouts]: "self_delimiting prekeys_layout prekeys_fit"
  unfolding prekeys_layout_def
  by (rule self_delimiting_weaken, (rule layouts)+) (auto simp: prekeys_fit_def)

lemma devices_layout_delimits: "self_delimiting devices_layout devices_fit"
  unfolding devices_layout_def
  by (rule self_delimiting_weaken, (rule layouts)+) (auto simp: devices_fit_def list_all_iff)

lemma bundle_layout_delimits: "self_delimiting bundle_layout bundle_view_fits"
  unfolding bundle_layout_def
  by (rule self_delimiting_weaken, (rule layouts)+) (auto simp: bundle_view_fits_def)

lemma devices_layout_nonempty: "devices_layout v \<noteq> []"
proof
  assume "devices_layout v = []"
  then have "length (devices_layout v) = 0" by simp
  then show False by (cases v) (simp add: devices_layout_def both_def counted16_def)
qed

lemma bundle_leaf_bytes_inj:
  assumes fits: "bundle_fits b" "bundle_fits b'" and eq: "bundle_leaf_bytes b = bundle_leaf_bytes b'"
  shows "bundle_view b = bundle_view b' \<and> devices_view b = devices_view b'"
proof -
  let ?t = "\<lambda>b. case devices_view b of None \<Rightarrow> [] | Some v \<Rightarrow> devices_layout v"
  have "bundle_layout (bundle_view b) @ ?t b = bundle_layout (bundle_view b') @ ?t b'"
    using eq by (simp only: bundle_leaf_bytes_layout append_assoc same_append_eq)
  from self_delimitingD [OF bundle_layout_delimits _ _ this] fits
  have v: "bundle_view b = bundle_view b'" and t: "?t b = ?t b'" by (auto simp: bundle_fits_def)
  have "devices_view b = devices_view b'"
  proof (cases "devices_view b"; cases "devices_view b'")
    fix v v' assume d: "devices_view b = Some v" "devices_view b' = Some v'"
    with fits have "devices_fit v" "devices_fit v'" by (auto simp: bundle_fits_def)
    with self_delimiting_inj [OF devices_layout_delimits] t d show ?thesis by simp
  qed (use t devices_layout_nonempty devices_layout_nonempty [symmetric] in auto)
  with v show ?thesis by simp
qed

text \<open>The four kinds of thing a leaf is taken of, and what of it the leaf covers.\<close>

datatype logged =
    LBundle key_bundle | LRevocation revocation | LSuccession succession
  | LDevice device_revocation

fun logged_leaf :: "crypto \<Rightarrow> logged \<Rightarrow> bytes" where
  "logged_leaf C (LBundle b) = bundle_leaf C b"
| "logged_leaf C (LRevocation r) = revocation_leaf C r"
| "logged_leaf C (LSuccession s) = succession_leaf C s"
| "logged_leaf C (LDevice r) = device_revocation_leaf C r"

fun logged_fits :: "logged \<Rightarrow> bool" where
  "logged_fits (LBundle b) = bundle_fits b"
| "logged_fits (LRevocation r) = (length (rev_identity r) = 32)"
| "logged_fits (LSuccession s) = (length (suc_old s) = 32 \<and> length (suc_new s) = 32 \<and>
     length (suc_old_signature s) = 64)"
| "logged_fits (LDevice r) = (length (dr_account r) = 32 \<and> length (dr_device r) = 32)"

text \<open>
  Agreement in everything a leaf covers. Of a bundle that is not everything: the names and
  signatures of the listed device certificates, the signature over an empty device list, the
  device's own signature in the bundle's certificate and the one-time prekeys are left out.
\<close>

fun same_covered :: "logged \<Rightarrow> logged \<Rightarrow> bool" where
  "same_covered (LBundle b) (LBundle b') =
    (kb_user_id b = kb_user_id b' \<and> kb_dh_public b = kb_dh_public b' \<and> kb_signature b = kb_signature b' \<and>
     map_option (\<lambda>p. (pk_signed p, pq_signed p)) (kb_prekeys b) =
       map_option (\<lambda>p. (pk_signed p, pq_signed p)) (kb_prekeys b') \<and>
     map utf8 (kb_caps b) = map utf8 (kb_caps b') \<and> kb_caps_signature b = kb_caps_signature b' \<and>
     map (\<lambda>d. (dc_device d, dc_created_at_ms d)) (kb_devices b) =
       map (\<lambda>d. (dc_device d, dc_created_at_ms d)) (kb_devices b') \<and>
     map_option dc_encode (kb_device_of b) = map_option dc_encode (kb_device_of b') \<and>
     (kb_devices b \<noteq> [] \<or> kb_device_of b \<noteq> None \<longrightarrow> kb_devices_signature b = kb_devices_signature b'))"
| "same_covered (LRevocation r) (LRevocation r') = (r = r')"
| "same_covered (LSuccession s) (LSuccession s') = (s = s')"
| "same_covered (LDevice r) (LDevice r') = (r = r')"
| "same_covered _ _ = False"

fun logged_bytes :: "logged \<Rightarrow> bytes" where
  "logged_bytes (LBundle b) = bundle_leaf_bytes b"
| "logged_bytes (LRevocation r) =
    REVOCATION_LEAF_DOMAIN @ rev_identity r @ be64 (rev_created_at_ms r) @ rev_signature r"
| "logged_bytes (LSuccession s) =
    SUCCESSION_LEAF_DOMAIN @ suc_old s @ suc_new s @ be64 (suc_created_at_ms s) @
    suc_old_signature s @ suc_new_signature s"
| "logged_bytes (LDevice r) =
    DEVICE_REVOCATION_LEAF_DOMAIN @ dr_account r @ dr_device r @ be64 (dr_created_at_ms r) @
    dr_signature r"

lemma logged_leaf_bytes: "logged_leaf C x = sha256 C (logged_bytes x)"
  by (cases x) (simp_all add: bundle_leaf_def revocation_leaf_def succession_leaf_def
      device_revocation_leaf_def)

text \<open>The domains differ in the byte after their common beginning.\<close>

lemma leaf_domain_nth:
  "(BUNDLE_LEAF_DOMAIN @ r) ! 33 = 98" "(REVOCATION_LEAF_DOMAIN @ r) ! 33 = 114"
  "(SUCCESSION_LEAF_DOMAIN @ r) ! 33 = 115" "(DEVICE_REVOCATION_LEAF_DOMAIN @ r) ! 33 = 100"
  by (simp_all add: BUNDLE_LEAF_DOMAIN_def REVOCATION_LEAF_DOMAIN_def SUCCESSION_LEAF_DOMAIN_def
      DEVICE_REVOCATION_LEAF_DOMAIN_def ascii_def)

fun leaf_letter :: "logged \<Rightarrow> u8" where
  "leaf_letter (LBundle b) = 98"
| "leaf_letter (LRevocation r) = 114"
| "leaf_letter (LSuccession s) = 115"
| "leaf_letter (LDevice r) = 100"

lemma logged_bytes_letter: "logged_bytes x ! 33 = leaf_letter x"
  by (cases x) (simp_all only: logged_bytes.simps leaf_letter.simps leaf_domain_nth bundle_leaf_bytes_def)

lemma prekeys_view_eq:
  "map_option prekeys_view p = map_option prekeys_view p' \<longleftrightarrow>
    map_option (\<lambda>p. (pk_signed p, pq_signed p)) p = map_option (\<lambda>p. (pk_signed p, pq_signed p)) p'"
proof -
  have "inj pq_view" by (intro injI signed_pq_prekey.equality) (auto simp: pq_view_def)
  then have pq: "map_option pq_view x = map_option pq_view y \<longleftrightarrow> x = y" for x y
    by (metis injD option.inj_map)
  have "k = k'" if "spk_id k = spk_id k'" "spk_public k = spk_public k'"
    "spk_created_at_ms k = spk_created_at_ms k'" "spk_signature k = spk_signature k'" for k k' :: signed_prekey
    using that by (intro signed_prekey.equality) auto
  then show ?thesis
    by (cases p; cases p') (auto simp: prekeys_view_def pq)
qed

lemma same_covered_views:
  "same_covered (LBundle b) (LBundle b') \<longleftrightarrow> bundle_view b = bundle_view b' \<and> devices_view b = devices_view b'"
proof -
  have "devices_view b = devices_view b' \<longleftrightarrow>
      map (\<lambda>d. (dc_device d, dc_created_at_ms d)) (kb_devices b) =
        map (\<lambda>d. (dc_device d, dc_created_at_ms d)) (kb_devices b') \<and>
      map_option dc_encode (kb_device_of b) = map_option dc_encode (kb_device_of b') \<and>
      (kb_devices b \<noteq> [] \<or> kb_device_of b \<noteq> None \<longrightarrow> kb_devices_signature b = kb_devices_signature b')"
    by (cases "kb_device_of b"; cases "kb_device_of b'"; cases "kb_devices b"; cases "kb_devices b'")
      (auto simp: devices_view_def)
  then show ?thesis
    unfolding same_covered.simps bundle_view_def prod.inject prekeys_view_eq by blast
qed

lemma same_covered_bytes: "same_covered x y \<Longrightarrow> logged_bytes x = logged_bytes y"
  by (cases x; cases y)
    (simp_all add: same_covered_views bundle_leaf_bytes_layout del: same_covered.simps(1))

lemma logged_bytes_inj:
  assumes "logged_fits x" "logged_fits y" "logged_bytes x = logged_bytes y"
  shows "same_covered x y"
proof -
  have "leaf_letter x = leaf_letter y"
    using assms(3) by (metis logged_bytes_letter)
  then consider
      (bundles) b b' where "x = LBundle b" "y = LBundle b'"
    | (revocation) r r' where "x = LRevocation r" "y = LRevocation r'"
    | (succession) s s' where "x = LSuccession s" "y = LSuccession s'"
    | (device) d d' where "x = LDevice d" "y = LDevice d'"
    by (cases x; cases y) simp_all
  then show ?thesis
  proof cases
    case bundles
    with bundle_leaf_bytes_inj [of b b'] assms show ?thesis
      by (simp add: same_covered_views del: same_covered.simps(1))
  next
    case revocation
    with assms show ?thesis by (simp add: append_eq_width be_append_inj)
  next
    case succession
    with assms show ?thesis by (simp add: append_eq_width be_append_inj)
  next
    case device
    with assms show ?thesis by (simp add: append_eq_width be_append_inj)
  qed
qed

section \<open>Where a replay gets to\<close>

text \<open>The head a page reaches after its first \<open>i\<close> entries.\<close>

definition head_after :: "crypto \<Rightarrow> log_head \<Rightarrow> log_entry list \<Rightarrow> nat \<Rightarrow> log_head" where
  "head_after C h es i = (if i = 0 then h else entry_head C (es ! (i - 1)))"

lemma head_after_simps [simp]:
  "head_after C h es 0 = h" "head_after C h (e # es) (Suc i) = head_after C (entry_head C e) es i"
  by (auto simp: head_after_def nth_Cons split: nat.split)

lemma head_after_length: "head_after C h es (length es) = (if es = [] then h else entry_head C (last es))"
  by (simp add: head_after_def last_conv_nth)

lemma replay_from_chained:
  "(\<And>i. i < length es \<Longrightarrow> follows (es ! i) (head_after C h es i)) \<Longrightarrow>
    replay_from C h es = Ok (head_after C h es (length es))"
proof (induction es arbitrary: h)
  case (Cons e es)
  have "follows e h" using Cons.prems [of 0] by simp
  moreover have "replay_from C (entry_head C e) es = Ok (head_after C (entry_head C e) es (length es))"
    using Cons.prems [of "Suc _"] by (intro Cons.IH) simp
  ultimately show ?case by simp
qed simp

lemma replay_from_first_break:
  "i < length es \<Longrightarrow> \<not> follows (es ! i) (head_after C h es i) \<Longrightarrow>
    (\<And>j. j < i \<Longrightarrow> follows (es ! j) (head_after C h es j)) \<Longrightarrow>
    replay_from C h es = Err (Broken (lh_index (head_after C h es i)) (le_index (es ! i)))"
proof (induction es arbitrary: h i)
  case (Cons e es)
  show ?case
  proof (cases i)
    case 0
    with Cons.prems(2) show ?thesis by simp
  next
    case (Suc k)
    have "follows e h" using Cons.prems(3) [of 0] Suc by simp
    moreover have "follows (es ! j) (head_after C (entry_head C e) es j)" if "j < k" for j
      using Cons.prems(3) [of "Suc j"] that Suc by simp
    ultimately show ?thesis using Cons.IH [of k "entry_head C e"] Cons.prems(1,2) Suc by simp
  qed
qed simp

section \<open>Properties\<close>

text \<open>
  C15. A log head commits to the whole log. Two pages of entries of one length that replay
  from the same head and reach the same head are the same entries, or two entries among them are
  a SHA-256 collision; and replaying moves the index by the number of entries.
\<close>

theorem head_commits_to_log:
  assumes "replay C h es None = Ok k" "replay C h fs None = Ok k" "length es = length fs"
    and "list_all entry_wf es" "list_all entry_wf fs"
  shows "(es = fs \<or> collision_in (sha256 C) (map entry_bytes (es @ fs))) \<and> lh_index k = lh_index h + of_nat (length es)"
  using replay_commits [of C h es k fs] replay_from_index [of C h es k] assms
  by (simp add: replay_def)

theorem head_commits_to_log_witness:
  "\<exists>e. entry_after EMPTY (replicate 32 1) Bundle (replicate 32 2) 7 = Ok e \<and>
     lh_index (entry_head demo_crypto e) = 1"
  using head_commits_to_log [of demo_crypto EMPTY
      "[\<lparr>le_index = 1, le_prev = replicate 32 0, le_subject = replicate 32 1, le_kind = Bundle,
         le_leaf = replicate 32 2, le_at_ms = 7\<rparr>]" _
      "[\<lparr>le_index = 1, le_prev = replicate 32 0, le_subject = replicate 32 1, le_kind = Bundle,
         le_leaf = replicate 32 2, le_at_ms = 7\<rparr>]"]
  by (simp add: replay_def follows_def EMPTY_def entry_wf_def entry_after_def)

text \<open>
  C32. What a leaf commits to. Two logged things that agree in everything the leaf covers have
  one leaf, and two with one leaf are of one kind and agree in everything it covers, or the two
  hashed inputs are a SHA-256 collision. Covered are: of a bundle its id, agreement key and
  signature, the signed prekeys, the capabilities with their signature, the id and time of each
  listed device, the signature over the list when a device or a certificate is there, and the
  encoded device certificate; of a revocation, a succession and a device revocation everything.
  Not covered are the names and signatures of listed devices and the one-time prekeys. An
  identity's revocation and a device's, which share an entry kind, are told apart by their
  leaves.
\<close>

theorem leaf_commits_to_content:
  assumes "logged_fits x" "logged_fits y"
  shows "(same_covered x y \<longrightarrow> logged_leaf C x = logged_leaf C y) \<and>
    (logged_leaf C x = logged_leaf C y \<longrightarrow>
       same_covered x y \<or> collision_in (sha256 C) [logged_bytes x, logged_bytes y])"
proof (cases "logged_bytes x = logged_bytes y")
  case True
  then show ?thesis using logged_bytes_inj assms by (simp add: logged_leaf_bytes)
next
  case False
  then show ?thesis using same_covered_bytes
    by (auto simp: logged_leaf_bytes intro!: collision_inI [of _ "logged_bytes x" "logged_bytes y"])
qed

theorem leaf_commits_to_content_witness:
  "collision_in (sha256 demo_crypto)
    [logged_bytes (LRevocation \<lparr>rev_identity = replicate 32 1, rev_created_at_ms = 0, rev_signature = []\<rparr>),
     logged_bytes (LRevocation \<lparr>rev_identity = replicate 32 2, rev_created_at_ms = 0, rev_signature = []\<rparr>)]"
  using leaf_commits_to_content [where C = demo_crypto
      and x = "LRevocation \<lparr>rev_identity = replicate 32 1, rev_created_at_ms = 0, rev_signature = []\<rparr>"
      and y = "LRevocation \<lparr>rev_identity = replicate 32 2, rev_created_at_ms = 0, rev_signature = []\<rparr>"]
  by (simp add: revocation_leaf_def demo_crypto_def fit_def REVOCATION_LEAF_DOMAIN_def ascii_def)

text \<open>
  C33. Error behaviour of a replay, on every branch. Entry \<open>i\<close> of a page continues it when its
  index is the starting index plus \<open>i + 1\<close> and it names the hash of the entry before it, or of
  the starting head. If every entry does, the replay returns the head of the last entry (the
  starting head for an empty page), except that it reports \<open>Fork\<close> exactly when the expected
  head has that index and another hash; a page that ends at another index than the expected
  head is accepted. If some entry does not, it reports \<open>Broken\<close> with the index reached and the
  index of the first such entry.
\<close>

theorem replay_outcome:
  assumes "\<And>i. continues i \<longleftrightarrow> le_index (es ! i) = lh_index h + of_nat i + 1 \<and>
      le_prev (es ! i) = (if i = 0 then lh_hash h else entry_hash C (es ! (i - 1)))"
    and "reached = (if es = [] then h else entry_head C (last es))"
    and "forks \<longleftrightarrow> (\<exists>x. ex = Some x \<and> lh_index x = lh_index reached \<and> lh_hash x \<noteq> lh_hash reached)"
  shows "((\<forall>i<length es. continues i) \<longrightarrow>
      replay C h es ex = (if forks then Err (Fork (lh_index reached)) else Ok reached) \<and>
      lh_index reached = lh_index h + of_nat (length es)) \<and>
    (i < length es \<longrightarrow> \<not> continues i \<longrightarrow> (\<forall>j<i. continues j) \<longrightarrow>
      replay C h es ex = Err (Broken (lh_index h + of_nat i) (le_index (es ! i))))"
proof -
  have at: "lh_index (head_after C h es n) = lh_index h + of_nat n" if "\<forall>j<n. continues j" for n
    using that [rule_format, of "n - 1"] by (cases n) (auto simp: head_after_def entry_head_def assms(1))
  have follows: "follows (es ! n) (head_after C h es n) \<longleftrightarrow> continues n" if "\<forall>j<n. continues j" for n
    using at [OF that] by (auto simp: follows_def assms(1) head_after_def entry_head_def)
  have ok: "replay_from C h es = Ok reached \<and> lh_index reached = lh_index h + of_nat (length es)"
    if "\<forall>i<length es. continues i"
    using replay_from_chained [of es C h] follows at [of "length es"] that
    by (auto simp: head_after_length assms(2))
  moreover have "replay_from C h es = Err (Broken (lh_index h + of_nat i) (le_index (es ! i)))"
    if "i < length es" "\<not> continues i" "\<forall>j<i. continues j"
    using replay_from_first_break [of i es C h] follows at [OF that(3)] that by auto
  ultimately show ?thesis
    by (auto simp: replay_def assms(3) split: option.split)
qed

theorem replay_outcome_witness:
  "replay demo_crypto EMPTY [] (Some \<lparr>lh_index = 5, lh_hash = []\<rparr>) = Ok EMPTY \<and>
   replay demo_crypto EMPTY [\<lparr>le_index = 2, le_prev = replicate 32 0, le_subject = replicate 32 1,
     le_kind = Bundle, le_leaf = replicate 32 2, le_at_ms = 7\<rparr>] None = Err (Broken 0 2)"
  using replay_outcome [OF refl refl refl, where C = demo_crypto and h = EMPTY and es = "[]"
      and ex = "Some \<lparr>lh_index = 5, lh_hash = []\<rparr>"]
    replay_outcome [OF refl refl refl, where C = demo_crypto and h = EMPTY and ex = None and i = 0
      and es = "[\<lparr>le_index = 2, le_prev = replicate 32 0, le_subject = replicate 32 1,
        le_kind = Bundle, le_leaf = replicate 32 2, le_at_ms = 7\<rparr>]"]
  by (simp add: EMPTY_def)

end
