(* ===== verification/RelayLog.thy ===== *)
theory RelayLog
  imports Transparency
begin

text \<open>
  The relay's side of key transparency and of the identity lifecycle
  (\<^verbatim>\<open>silver-relay/src/store.rs\<close>): the bundles, revocations, successions and device
  revocations it serves, the append-only log with one entry per change, and the index of
  where each subject last appears. Every operation is one write transaction; one that fails
  leaves the database as it was. Shown here: the log is at all times a hash chain from the
  empty head, it only grows, its index of latest positions is exact, and everything the
  relay serves is in it.
\<close>

section \<open>Tables\<close>

record relay_latest =
  rlt_position :: log_position
  rlt_bundle_leaf :: "bytes option"

definition default_latest :: relay_latest where
  "default_latest = \<lparr>rlt_position = default_position, rlt_bundle_leaf = None\<rparr>"

record log_db =
  rl_log :: "(u64, log_entry) table"
  rl_latest :: "(bytes, relay_latest) table"
  rl_bundles :: "(bytes, key_bundle) table"
  rl_devices :: nat
  rl_revocations :: "(bytes, revocation) table"
  rl_successions :: "(bytes, succession) table"
  rl_device_revocations :: "(bytes, device_revocation) table"
  rl_revoked_by :: "(bytes \<times> bytes, unit) table"

definition fresh_log_db :: log_db where
  "fresh_log_db = \<lparr>rl_log = RBT.empty, rl_latest = RBT.empty, rl_bundles = RBT.empty, rl_devices = 0,
     rl_revocations = RBT.empty, rl_successions = RBT.empty, rl_device_revocations = RBT.empty,
     rl_revoked_by = RBT.empty\<rparr>"

section \<open>The log\<close>

definition read_latest :: "bytes \<Rightarrow> log_db \<Rightarrow> relay_latest option" where
  "read_latest subj db = tget (rl_latest db) subj"

definition head_in :: "crypto \<Rightarrow> (u64, log_entry) table \<Rightarrow> log_head" where
  "head_in C log =
    (case RBT.entries log of [] \<Rightarrow> EMPTY | x # xs \<Rightarrow> entry_head C (snd (last (x # xs))))"

definition append_log ::
  "crypto \<Rightarrow> bytes \<Rightarrow> entry_kind \<Rightarrow> bytes \<Rightarrow> u64 \<Rightarrow> log_db \<Rightarrow> (log_entry \<times> log_db, string) res" where
  "append_log C subj kind leaf at_ms db =
    and_then (entry_after (head_in C (rl_log db)) subj kind leaf at_ms) (\<lambda>entry.
      let previous = (case read_latest subj db of Some l \<Rightarrow> l | None \<Rightarrow> default_latest);
          latest = \<lparr>rlt_position = \<lparr>lp_index = le_index entry, lp_leaf = leaf\<rparr>,
                    rlt_bundle_leaf =
                      (case kind of Bundle \<Rightarrow> Some leaf | _ \<Rightarrow> rlt_bundle_leaf previous)\<rparr>
      in Ok (entry, db\<lparr>rl_log := tput (le_index entry) entry (rl_log db),
                       rl_latest := tput subj latest (rl_latest db)\<rparr>))"

definition log_bundle_in ::
  "crypto \<Rightarrow> key_bundle \<Rightarrow> u64 \<Rightarrow> log_db \<Rightarrow> (log_entry option \<times> log_db, string) res" where
  "log_bundle_in C b at_ms db =
    (let subj = subject C (kb_user_id b); leaf = bundle_leaf C b in
     if Option.bind (read_latest subj db) rlt_bundle_leaf = Some leaf then Ok (None, db)
     else and_then (append_log C subj Bundle leaf at_ms db) (\<lambda>(e, db'). Ok (Some e, db')))"

section \<open>Bundles\<close>

text \<open>The counter of linked devices moves by one up or down and saturates at both ends.\<close>

definition adjust_count :: "int \<Rightarrow> nat \<Rightarrow> nat" where
  "adjust_count by_n count = (if by_n < 0 then count - nat (- by_n) else sat_add64 count (nat by_n))"

definition is_device :: "key_bundle option \<Rightarrow> bool" where
  "is_device b \<longleftrightarrow> (case b of None \<Rightarrow> False | Some b' \<Rightarrow> kb_device_of b' \<noteq> None)"

definition store_bundle_in :: "key_bundle \<Rightarrow> log_db \<Rightarrow> log_db" where
  "store_bundle_in b db =
    (let was_device = is_device (tget (rl_bundles db) (kb_user_id b));
         change = of_bool (kb_device_of b \<noteq> None) - of_bool was_device
     in db\<lparr>rl_bundles := tput (kb_user_id b) b (rl_bundles db),
           rl_devices := (if change \<noteq> 0 then adjust_count change (rl_devices db) else rl_devices db)\<rparr>)"

definition bundle_would_log :: "crypto \<Rightarrow> key_bundle \<Rightarrow> log_db \<Rightarrow> bool" where
  "bundle_would_log C b db \<longleftrightarrow>
     Option.bind (read_latest (subject C (kb_user_id b)) db) rlt_bundle_leaf \<noteq> Some (bundle_leaf C b)"

definition put_bundle :: "crypto \<Rightarrow> key_bundle \<Rightarrow> u64 \<Rightarrow> log_db \<Rightarrow> (log_db, string) res" where
  "put_bundle C b now_ms db =
    and_then (log_bundle_in C b now_ms (store_bundle_in b db)) (\<lambda>(_, db'). Ok db')"

definition bundle_of :: "user_id \<Rightarrow> log_db \<Rightarrow> key_bundle option" where
  "bundle_of user db = tget (rl_bundles db) user"

text \<open>The part of \<open>remove_user\<close> that concerns the bundle; the log is not touched.\<close>

definition remove_bundle :: "user_id \<Rightarrow> log_db \<Rightarrow> bool \<times> log_db" where
  "remove_bundle user db =
    (let was_device = is_device (tget (rl_bundles db) user);
         had_bundle = (tget (rl_bundles db) user \<noteq> None)
     in (had_bundle, db\<lparr>rl_bundles := tdel user (rl_bundles db),
          rl_devices := (if was_device then adjust_count (- 1) (rl_devices db) else rl_devices db)\<rparr>))"

section \<open>Lifecycle statements\<close>

definition set_revocation :: "crypto \<Rightarrow> revocation \<Rightarrow> u64 \<Rightarrow> log_db \<Rightarrow> (log_db, string) res" where
  "set_revocation C r now_ms db =
    and_then (append_log C (subject C (rev_identity r)) Revocation (revocation_leaf C r) now_ms
      (db\<lparr>rl_revocations := tput (rev_identity r) r (rl_revocations db)\<rparr>)) (\<lambda>(_, db'). Ok db')"

definition revocation_of :: "user_id \<Rightarrow> log_db \<Rightarrow> revocation option" where
  "revocation_of user db = tget (rl_revocations db) user"

definition is_revoked :: "user_id \<Rightarrow> log_db \<Rightarrow> bool" where
  "is_revoked user db \<longleftrightarrow> tget (rl_revocations db) user \<noteq> None"

definition set_succession :: "crypto \<Rightarrow> succession \<Rightarrow> u64 \<Rightarrow> log_db \<Rightarrow> (log_db, string) res" where
  "set_succession C s now_ms db =
    and_then (append_log C (subject C (suc_old s)) Succession (succession_leaf C s) now_ms
      (db\<lparr>rl_successions := tput (suc_old s) s (rl_successions db)\<rparr>)) (\<lambda>(_, db'). Ok db')"

definition succession_of :: "user_id \<Rightarrow> log_db \<Rightarrow> succession option" where
  "succession_of user db = tget (rl_successions db) user"

definition set_device_revocation ::
  "crypto \<Rightarrow> device_revocation \<Rightarrow> u64 \<Rightarrow> log_db \<Rightarrow> (bool \<times> log_db, string) res" where
  "set_device_revocation C r now_ms db =
    (if tget (rl_device_revocations db) (dr_device r) \<noteq> None then Ok (False, db)
     else and_then (append_log C (subject C (dr_device r)) Revocation (device_revocation_leaf C r) now_ms
       (db\<lparr>rl_device_revocations := tput (dr_device r) r (rl_device_revocations db),
           rl_revoked_by := tput (dr_account r, dr_device r) () (rl_revoked_by db)\<rparr>))
       (\<lambda>(_, db'). Ok (True, db')))"

definition device_revocation_of :: "user_id \<Rightarrow> log_db \<Rightarrow> device_revocation option" where
  "device_revocation_of device db = tget (rl_device_revocations db) device"

definition is_device_revoked :: "user_id \<Rightarrow> log_db \<Rightarrow> bool" where
  "is_device_revoked device db \<longleftrightarrow> tget (rl_device_revocations db) device \<noteq> None"

definition remove_device_revocation :: "user_id \<Rightarrow> log_db \<Rightarrow> bool \<times> log_db" where
  "remove_device_revocation device db =
    (case tget (rl_device_revocations db) device of
       Some r \<Rightarrow> (True, db\<lparr>rl_device_revocations := tdel device (rl_device_revocations db),
                           rl_revoked_by := tdel (dr_account r, device) (rl_revoked_by db)\<rparr>)
     | None \<Rightarrow> (False, db))"

text \<open>\<open>REF_LOW..=REF_HIGH\<close> spans every device id of the account.\<close>

definition device_revocations_by :: "user_id \<Rightarrow> log_db \<Rightarrow> device_revocation list" where
  "device_revocations_by account db =
    List.map_filter (\<lambda>((_, device), _). tget (rl_device_revocations db) device)
      (trange (\<lambda>(a, _). a = account) (rl_revoked_by db))"

section \<open>Reading the log\<close>

definition log_head_of :: "crypto \<Rightarrow> log_db \<Rightarrow> log_head" where
  "log_head_of C db = head_in C (rl_log db)"

definition log_latest :: "crypto \<Rightarrow> user_id \<Rightarrow> log_db \<Rightarrow> log_position option" where
  "log_latest C user db = map_option rlt_position (tget (rl_latest db) (subject C user))"

definition log_since :: "u64 \<Rightarrow> nat \<Rightarrow> log_db \<Rightarrow> log_entry list" where
  "log_since index limit db =
    map snd (take limit (trange (\<lambda>k. sat_add_u64 index 1 \<le> k) (rl_log db)))"

definition log_len :: "crypto \<Rightarrow> log_db \<Rightarrow> u64" where
  "log_len C db = lh_index (log_head_of C db)"

section \<open>Seeding the log of a database from before it\<close>

fun append_all ::
  "crypto \<Rightarrow> (bytes \<times> entry_kind \<times> bytes) list \<Rightarrow> u64 \<Rightarrow> log_db \<Rightarrow> (log_db, string) res" where
  "append_all C [] at_ms db = Ok db"
| "append_all C ((subj, kind, leaf) # xs) at_ms db =
    and_then (append_log C subj kind leaf at_ms db) (\<lambda>(_, db'). append_all C xs at_ms db')"

fun log_bundles ::
  "crypto \<Rightarrow> key_bundle list \<Rightarrow> u64 \<Rightarrow> log_db \<Rightarrow> (log_db, string) res" where
  "log_bundles C [] at_ms db = Ok db"
| "log_bundles C (b # bs) at_ms db =
    and_then (log_bundle_in C b at_ms db) (\<lambda>(_, db'). log_bundles C bs at_ms db')"

definition seed_log :: "crypto \<Rightarrow> u64 \<Rightarrow> log_db \<Rightarrow> (log_db, string) res" where
  "seed_log C at_ms db =
    (if 0 < lh_index (head_in C (rl_log db)) then Ok db
     else
       and_then (log_bundles C (map snd (RBT.entries (rl_bundles db))) at_ms db) (\<lambda>db1.
       and_then (append_all C (map (\<lambda>(_, r). (subject C (rev_identity r), Revocation, revocation_leaf C r))
           (RBT.entries (rl_revocations db))) at_ms db1) (\<lambda>db2.
       append_all C (map (\<lambda>(_, s). (subject C (suc_old s), Succession, succession_leaf C s))
           (RBT.entries (rl_successions db))) at_ms db2)))"

definition SCHEMA_VERSION :: u64 where "SCHEMA_VERSION = 3"

definition migrate :: "crypto \<Rightarrow> u64 \<Rightarrow> u64 \<Rightarrow> log_db \<Rightarrow> (log_db, string) res" where
  "migrate C now_ms from db =
    (if from = 0 then Ok db
     else if from = 1 then seed_log C now_ms db
     else if from = 2 then Ok db
     else Err ''no migration from schema version'')"

section \<open>The log as a list\<close>

definition log_list :: "log_db \<Rightarrow> log_entry list" where
  "log_list db = map snd (RBT.entries (rl_log db))"

definition log_ok :: "crypto \<Rightarrow> log_db \<Rightarrow> bool" where
  "log_ok C db \<longleftrightarrow>
    map fst (RBT.entries (rl_log db)) = map le_index (log_list db) \<and>
    replay_from C EMPTY (log_list db) = Ok (head_in C (rl_log db)) \<and>
    length (log_list db) < 2 ^ 64 \<and> list_all entry_wf (log_list db)"

lemma trange_True: "trange (\<lambda>_. True) t = RBT.entries t"
  by (simp add: trange_def)

lemma replay_nth_index:
  assumes "replay_from C h es = Ok k" "i < length es"
  shows "le_index (es ! i) = lh_index h + of_nat (Suc i)"
proof -
  have "es = take i es @ [es ! i] @ drop (Suc i) es"
    using assms(2) by (simp add: id_take_nth_drop)
  with assms(1) obtain g where g: "replay_from C h (take i es @ [es ! i]) = Ok g"
    by (metis and_then_Ok_iff append.assoc replay_from_append)
  then obtain g' where "replay_from C h (take i es) = Ok g'" "follows (es ! i) g'"
    by (auto simp: replay_from_snoc)
  with replay_from_index [OF this(1)] assms(2) show ?thesis by (simp add: follows_def)
qed

lemma log_index:
  assumes "log_ok C db" "i < length (log_list db)"
  shows "unat (le_index (log_list db ! i)) = Suc i"
proof -
  have "le_index (log_list db ! i) = of_nat (Suc i)"
    using replay_nth_index [of C EMPTY "log_list db"] assms by (simp add: log_ok_def EMPTY_def)
  moreover have "Suc i < 2 ^ 64" using assms by (simp add: log_ok_def)
  ultimately show ?thesis by (simp add: unat_of_nat del: of_nat_Suc)
qed

lemma log_head_index:
  "log_ok C db \<Longrightarrow> unat (lh_index (head_in C (rl_log db))) = length (log_list db)"
  using replay_from_index [of C EMPTY "log_list db" "head_in C (rl_log db)"]
  by (auto simp: log_ok_def EMPTY_def unat_of_nat)

lemma log_key_bound:
  assumes "log_ok C db" "tget (rl_log db) k = Some e"
  shows "unat k \<le> length (log_list db)"
proof -
  have "k \<in> set (map fst (RBT.entries (rl_log db)))"
    using assms(2) by (force simp flip: entries_iff)
  then have "k \<in> set (map le_index (log_list db))" using assms(1) by (simp only: log_ok_def)
  then obtain i where "i < length (log_list db)" "k = le_index (log_list db ! i)"
    by (auto simp: in_set_conv_nth)
  with log_index [OF assms(1)] show ?thesis by auto
qed

text \<open>Everything but the log and its index is the same.\<close>

definition same_tables :: "log_db \<Rightarrow> log_db \<Rightarrow> bool" where
  "same_tables db db' \<longleftrightarrow>
    rl_bundles db' = rl_bundles db \<and> rl_devices db' = rl_devices db \<and>
    rl_revocations db' = rl_revocations db \<and> rl_successions db' = rl_successions db \<and>
    rl_device_revocations db' = rl_device_revocations db \<and> rl_revoked_by db' = rl_revoked_by db"

lemma same_tables_refl [simp]: "same_tables db db"
  by (simp add: same_tables_def)

lemma same_tables_trans: "same_tables db db1 \<Longrightarrow> same_tables db1 db2 \<Longrightarrow> same_tables db db2"
  by (simp add: same_tables_def)

lemma append_log_cases:
  assumes ok: "log_ok C db" and r: "append_log C subj kind leaf at_ms db = Ok (e, db')"
    and len: "length subj = 32" "length leaf = 32" "sha256_length C"
  shows "log_list db' = log_list db @ [e]" "log_ok C db'"
    "le_subject e = subj" "le_kind e = kind" "le_leaf e = leaf"
    "le_index e = lh_index (head_in C (rl_log db)) + 1"
    "same_tables db db'"
    "tget (rl_latest db') = (tget (rl_latest db))(subj \<mapsto>
      \<lparr>rlt_position = \<lparr>lp_index = le_index e, lp_leaf = leaf\<rparr>,
       rlt_bundle_leaf = (if kind = Bundle then Some leaf
          else Option.bind (tget (rl_latest db) subj) rlt_bundle_leaf)\<rparr>)"
proof -
  let ?h = "head_in C (rl_log db)"
  from r have nmax: "lh_index ?h \<noteq> - 1"
    and e: "e = \<lparr>le_index = lh_index ?h + 1, le_prev = lh_hash ?h, le_subject = subj,
        le_kind = kind, le_leaf = leaf, le_at_ms = at_ms\<rparr>"
    and log: "rl_log db' = tput (le_index e) e (rl_log db)"
    and db: "same_tables db db'"
    by (auto simp: append_log_def entry_after_def Let_def same_tables_def split: if_splits)
  show "le_subject e = subj" "le_kind e = kind" "le_leaf e = leaf"
    "le_index e = lh_index ?h + 1" "same_tables db db'"
    using e db by simp_all
  show "tget (rl_latest db') = (tget (rl_latest db))(subj \<mapsto>
      \<lparr>rlt_position = \<lparr>lp_index = le_index e, lp_leaf = leaf\<rparr>,
       rlt_bundle_leaf = (if kind = Bundle then Some leaf
          else Option.bind (tget (rl_latest db) subj) rlt_bundle_leaf)\<rparr>)"
    using r by (cases kind) (auto simp: append_log_def read_latest_def default_latest_def Let_def
        entry_after_def split: if_splits option.splits)
  have idx: "unat (le_index e) = Suc (length (log_list db))"
  proof -
    have "unat (lh_index ?h + 1) = Suc (unat (lh_index ?h))"
      using nmax by (rule unat_plus_one)
    with e log_head_index [OF ok] show ?thesis by simp
  qed
  have below: "k < le_index e" if "tget (rl_log db) k = Some v" for k v
    using log_key_bound [OF ok that] idx by (simp add: word_less_nat_alt)
  have "tget (rl_log db) (le_index e) = None"
    using below [of "le_index e"] by (cases "tget (rl_log db) (le_index e)") auto
  with below have es: "RBT.entries (rl_log db') = RBT.entries (rl_log db) @ [(le_index e, e)]"
    unfolding log trange_True [symmetric] by (intro trange_put_last) auto
  then show list: "log_list db' = log_list db @ [e]" by (simp add: log_list_def)
  have "head_in C (rl_log db') = entry_head C e"
    using es by (cases "RBT.entries (rl_log db)") (simp_all add: head_in_def)
  moreover have "length (lh_hash ?h) = 32"
    using len(3) by (auto simp: head_in_def EMPTY_def entry_head_def entry_hash_def split: list.split)
  moreover have "Suc (length (log_list db)) < 2 ^ 64"
    using idx unat_less_2p [of "le_index e"] by simp
  ultimately show "log_ok C db'"
    using ok es list len e
    by (auto simp: log_ok_def replay_from_append follows_def entry_wf_def)
qed

section \<open>Operations and what they keep\<close>

datatype log_op =
    OpPut key_bundle u64
  | OpRemove user_id
  | OpRevoke revocation u64
  | OpSucceed succession u64
  | OpRevokeDevice device_revocation u64
  | OpUnrevokeDevice user_id
  | OpSeed u64

definition committed :: "'s \<Rightarrow> ('s, string) res \<Rightarrow> 's" where
  "committed db r = (case r of Ok db' \<Rightarrow> db' | _ \<Rightarrow> db)"

fun log_step :: "crypto \<Rightarrow> log_db \<Rightarrow> log_op \<Rightarrow> log_db" where
  "log_step C db (OpPut b t) = committed db (put_bundle C b t db)"
| "log_step C db (OpRemove user) = snd (remove_bundle user db)"
| "log_step C db (OpRevoke r t) = committed db (set_revocation C r t db)"
| "log_step C db (OpSucceed s t) = committed db (set_succession C s t db)"
| "log_step C db (OpRevokeDevice r t) =
    committed db (and_then (set_device_revocation C r t db) (\<lambda>(_, db'). Ok db'))"
| "log_step C db (OpUnrevokeDevice device) = snd (remove_device_revocation device db)"
| "log_step C db (OpSeed t) = committed db (seed_log C t db)"

lemma subject_length [simp]: "sha256_length C \<Longrightarrow> length (subject C u) = 32"
  by (simp add: subject_def)

lemma leaf_length [simp]: "sha256_length C \<Longrightarrow> length (bundle_leaf C b) = 32"
  "sha256_length C \<Longrightarrow> length (revocation_leaf C r) = 32"
  "sha256_length C \<Longrightarrow> length (succession_leaf C s) = 32"
  "sha256_length C \<Longrightarrow> length (device_revocation_leaf C d) = 32"
  by (simp_all add: bundle_leaf_def revocation_leaf_def succession_leaf_def device_revocation_leaf_def)

text \<open>
  The specification of the two indexes: the leaf of a subject's latest entry of a kind, and
  the row of \<open>LOG_LATEST\<close>, as functions of the list of entries.
\<close>

definition latest_leaf :: "entry_kind \<Rightarrow> bytes \<Rightarrow> log_entry list \<Rightarrow> bytes option" where
  "latest_leaf k subj es =
    map_option le_leaf (find (\<lambda>e. le_subject e = subj \<and> le_kind e = k) (rev es))"

definition latest_view :: "log_entry list \<Rightarrow> bytes \<Rightarrow> relay_latest option" where
  "latest_view es subj =
    map_option (\<lambda>e. \<lparr>rlt_position = \<lparr>lp_index = le_index e, lp_leaf = le_leaf e\<rparr>,
                     rlt_bundle_leaf = latest_leaf Bundle subj es\<rparr>)
      (find (\<lambda>e. le_subject e = subj) (rev es))"

lemma latest_leaf_Nil [simp]: "latest_leaf k subj [] = None"
  by (simp add: latest_leaf_def)

lemma latest_leaf_snoc [simp]:
  "latest_leaf k subj (es @ [e]) =
    (if le_subject e = subj \<and> le_kind e = k then Some (le_leaf e) else latest_leaf k subj es)"
  by (simp add: latest_leaf_def)

lemma latest_leaf_in_log:
  "latest_leaf k subj es = Some l \<Longrightarrow> \<exists>e \<in> set es. le_subject e = subj \<and> le_kind e = k \<and> le_leaf e = l"
  by (auto simp: latest_leaf_def find_Some_iff in_set_conv_nth) (metis nth_mem set_rev length_rev)

lemma latest_leaf_None:
  "latest_leaf k subj es = None \<longleftrightarrow> (\<forall>e \<in> set es. \<not> (le_subject e = subj \<and> le_kind e = k))"
  by (auto simp: latest_leaf_def find_None_iff)

definition log_inv :: "crypto \<Rightarrow> log_db \<Rightarrow> bool" where
  "log_inv C db \<longleftrightarrow> log_ok C db \<and> tget (rl_latest db) = latest_view (log_list db)"

text \<open>
  Every operation is a change of the other tables followed by some appends, so one lemma on
  \<open>append_all\<close> carries the log through all of them.
\<close>

lemma append_log_inv:
  assumes "log_inv C db" "append_log C subj kind leaf t db = Ok (e, db')"
    "length subj = 32" "length leaf = 32" "sha256_length C"
  shows "log_inv C db'" "log_list db' = log_list db @ [e]"
    "le_subject e = subj" "le_kind e = kind" "le_leaf e = leaf"
    "same_tables db db'"
proof -
  have ok: "log_ok C db" and lat: "tget (rl_latest db) = latest_view (log_list db)"
    using assms(1) by (auto simp: log_inv_def)
  note c = append_log_cases [OF ok assms(2-5)]
  have "Option.bind (latest_view (log_list db) subj) rlt_bundle_leaf = latest_leaf Bundle subj (log_list db)"
  proof (cases "find (\<lambda>e. le_subject e = subj) (rev (log_list db))")
    case None
    then have "latest_leaf Bundle subj (log_list db) = None"
      by (auto simp: latest_leaf_None find_None_iff)
    with None show ?thesis by (simp add: latest_view_def)
  qed (simp add: latest_view_def)
  then have "tget (rl_latest db') = latest_view (log_list db @ [e])"
    unfolding c(8) lat using c(3,4,5)
    by (auto simp: latest_view_def fun_eq_iff split: if_splits)
  with c show "log_inv C db'" by (simp add: log_inv_def)
  show "log_list db' = log_list db @ [e]" "le_subject e = subj" "le_kind e = kind" "le_leaf e = leaf"
    "same_tables db db'"
    by (fact c)+
qed

definition todo_ok :: "(bytes \<times> entry_kind \<times> bytes) list \<Rightarrow> bool" where
  "todo_ok xs = list_all (\<lambda>(subj, _, leaf). length subj = 32 \<and> length leaf = 32) xs"

definition filed :: "log_entry \<Rightarrow> bytes \<times> entry_kind \<times> bytes" where
  "filed e = (le_subject e, le_kind e, le_leaf e)"

lemma append_all_inv:
  assumes "log_inv C db" "append_all C xs t db = Ok db'" "todo_ok xs" "sha256_length C"
  shows "log_inv C db' \<and> (\<exists>es. log_list db' = log_list db @ es \<and> map filed es = xs) \<and>
    same_tables db db'"
  using assms(1-3)
proof (induction xs arbitrary: db)
  case (Cons x xs)
  obtain subj kind leaf where x: "x = (subj, kind, leaf)" by (cases x)
  with Cons.prems(2) obtain e db1 where e: "append_log C subj kind leaf t db = Ok (e, db1)"
    and r: "append_all C xs t db1 = Ok db'" by auto
  have len: "length subj = 32" "length leaf = 32" "todo_ok xs"
    using Cons.prems(3) x by (auto simp: todo_ok_def)
  note i = append_log_inv [OF Cons.prems(1) e len(1,2) assms(4)]
  from Cons.IH [OF i(1) r len(3)] obtain es where
    es: "log_inv C db'" "log_list db' = log_list db1 @ es" "map filed es = xs"
      "same_tables db1 db'" by auto
  have same: "same_tables db db'" by (rule same_tables_trans [OF i(6) es(4)])
  have "log_list db' = log_list db @ (e # es) \<and> map filed (e # es) = x # xs"
    using es(2,3) i(2-5) x by (simp add: filed_def)
  then have "\<exists>es. log_list db' = log_list db @ es \<and> map filed es = x # xs" by (rule exI)
  with es(1) same show ?case by simp
qed simp

text \<open>What an operation appends, and the tables it leaves.\<close>

definition pending :: "crypto \<Rightarrow> key_bundle \<Rightarrow> log_db \<Rightarrow> (bytes \<times> entry_kind \<times> bytes) list" where
  "pending C b db =
    (if bundle_would_log C b db then [(subject C (kb_user_id b), Bundle, bundle_leaf C b)] else [])"

lemma log_bundle_in_append:
  "log_bundle_in C b t db = Ok (x, db') \<Longrightarrow> append_all C (pending C b db) t db = Ok db'"
  by (auto simp: log_bundle_in_def pending_def bundle_would_log_def Let_def split: if_splits)

lemma append_all_append:
  "append_all C (ys @ zs) t d = and_then (append_all C ys t d) (append_all C zs t)"
proof (induction ys arbitrary: d)
  case (Cons y ys)
  obtain a b c where "y = (a, b, c)" by (cases y)
  with Cons show ?case by (cases "append_log C a b c t d") auto
qed simp

lemma log_bundles_append:
  "log_bundles C bs t db = Ok db' \<Longrightarrow> sha256_length C \<Longrightarrow>
    \<exists>xs. append_all C xs t db = Ok db' \<and> todo_ok xs"
proof (induction bs arbitrary: db)
  case Nil
  then show ?case by (intro exI [of _ "[]"]) (simp add: todo_ok_def)
next
  case (Cons b bs)
  then obtain x db1 where 1: "log_bundle_in C b t db = Ok (x, db1)" and "log_bundles C bs t db1 = Ok db'"
    by auto
  with Cons obtain xs where xs: "append_all C xs t db1 = Ok db'" "todo_ok xs" by blast
  have "append_all C (pending C b db @ xs) t db = Ok db'"
    using xs(1) log_bundle_in_append [OF 1] by (simp add: append_all_append)
  moreover have "todo_ok (pending C b db @ xs)"
    using xs(2) Cons.prems(2) by (auto simp: todo_ok_def pending_def)
  ultimately show ?case by blast
qed

lemma log_inv_cong:
  "rl_log db' = rl_log db \<Longrightarrow> rl_latest db' = rl_latest db \<Longrightarrow> log_inv C db' = log_inv C db"
  by (simp add: log_inv_def log_ok_def log_list_def)

definition by_appends :: "crypto \<Rightarrow> log_db \<Rightarrow> log_db \<Rightarrow> bool" where
  "by_appends C db db' \<longleftrightarrow>
    (\<exists>xs t db0. append_all C xs t db0 = Ok db' \<and> todo_ok xs \<and>
      rl_log db0 = rl_log db \<and> rl_latest db0 = rl_latest db)"

lemma by_appendsI:
  "append_all C xs t db0 = Ok db' \<Longrightarrow> todo_ok xs \<Longrightarrow> rl_log db0 = rl_log db \<Longrightarrow>
    rl_latest db0 = rl_latest db \<Longrightarrow> by_appends C db db'"
  unfolding by_appends_def by blast

lemma by_appends_same:
  "rl_log db' = rl_log db \<Longrightarrow> rl_latest db' = rl_latest db \<Longrightarrow> by_appends C db db'"
  by (rule by_appendsI [of _ "[]" 0 db']) (simp_all add: todo_ok_def)

lemma by_appends_committed:
  "(\<And>db'. r = Ok db' \<Longrightarrow> by_appends C db db') \<Longrightarrow> by_appends C db (committed db r)"
  by (cases r) (auto simp: committed_def by_appends_same)

lemma put_bundle_appends:
  assumes "put_bundle C b t db = Ok db'" "sha256_length C"
  shows "by_appends C db db'"
proof -
  obtain x where "log_bundle_in C b t (store_bundle_in b db) = Ok (x, db')"
    using assms(1) by (auto simp: put_bundle_def)
  from log_bundle_in_append [OF this] show ?thesis
    by (rule by_appendsI)
      (use assms(2) in \<open>simp_all add: pending_def todo_ok_def store_bundle_in_def Let_def\<close>)
qed

lemma statement_appends:
  assumes "append_log C subj kind leaf t db0 = Ok (e, db')" "length subj = 32" "length leaf = 32"
    "rl_log db0 = rl_log db" "rl_latest db0 = rl_latest db"
  shows "by_appends C db db'"
  by (rule by_appendsI [of _ "[(subj, kind, leaf)]" t db0]) (use assms in \<open>simp_all add: todo_ok_def\<close>)

lemma seed_log_appends:
  assumes "seed_log C t db = Ok db'" "sha256_length C"
  shows "by_appends C db db'"
proof (cases "0 < lh_index (head_in C (rl_log db))")
  case True
  with assms(1) show ?thesis by (simp add: seed_log_def by_appends_same)
next
  case False
  let ?rs = "map (\<lambda>(_, r). (subject C (rev_identity r), Revocation, revocation_leaf C r))
       (RBT.entries (rl_revocations db))"
  let ?ss = "map (\<lambda>(_, s). (subject C (suc_old s), Succession, succession_leaf C s))
       (RBT.entries (rl_successions db))"
  obtain db1 db2 where l: "log_bundles C (map snd (RBT.entries (rl_bundles db))) t db = Ok db1"
    and r: "append_all C ?rs t db1 = Ok db2" and s: "append_all C ?ss t db2 = Ok db'"
    using assms(1) False by (auto simp: seed_log_def)
  obtain xs where xs: "append_all C xs t db = Ok db1" "todo_ok xs"
    using log_bundles_append [OF l assms(2)] by blast
  have "append_all C (xs @ ?rs @ ?ss) t db = Ok db'" using xs(1) r s by (simp add: append_all_append)
  moreover have "todo_ok (xs @ ?rs @ ?ss)" using xs(2) assms(2) by (auto simp: todo_ok_def list_all_iff)
  ultimately show ?thesis by (rule by_appendsI) simp_all
qed

lemma step_appends:
  assumes "sha256_length C"
  shows "by_appends C db (log_step C db x)"
proof (cases x)
  case (OpPut b t)
  then show ?thesis using put_bundle_appends assms by (simp add: by_appends_committed)
next
  case (OpRemove u)
  then show ?thesis by (simp add: by_appends_same remove_bundle_def Let_def)
next
  case (OpRevoke r t)
  then show ?thesis
    by (simp, intro by_appends_committed, clarsimp simp: set_revocation_def, elim statement_appends)
      (simp_all add: assms)
next
  case (OpSucceed s t)
  then show ?thesis
    by (simp, intro by_appends_committed, clarsimp simp: set_succession_def, elim statement_appends)
      (simp_all add: assms)
next
  case (OpRevokeDevice r t)
  show ?thesis
  proof (cases "tget (rl_device_revocations db) (dr_device r)")
    case None
    with OpRevokeDevice show ?thesis
      by (simp, intro by_appends_committed, clarsimp simp: set_device_revocation_def,
          elim statement_appends) (simp_all add: assms)
  qed (simp add: OpRevokeDevice set_device_revocation_def committed_def by_appends_same)
next
  case (OpUnrevokeDevice d)
  then show ?thesis by (auto simp: remove_device_revocation_def split: option.split intro!: by_appends_same)
next
  case (OpSeed t)
  then show ?thesis using seed_log_appends assms by (simp add: by_appends_committed)
qed

lemma by_appends_inv:
  assumes "by_appends C db db'" "log_inv C db" "sha256_length C"
  shows "log_inv C db' \<and> (\<exists>es. log_list db' = log_list db @ es)"
proof -
  obtain xs t db0 where a: "append_all C xs t db0 = Ok db'" "todo_ok xs"
    "rl_log db0 = rl_log db" "rl_latest db0 = rl_latest db"
    using assms(1) unfolding by_appends_def by blast
  then have "log_inv C db0" "log_list db0 = log_list db"
    using assms(2) log_inv_cong [of db0 db C] by (simp_all add: log_list_def)
  with append_all_inv [OF _ a(1,2) assms(3)] show ?thesis by auto
qed

definition log_grows :: "log_db \<Rightarrow> log_db \<Rightarrow> bool" where
  "log_grows db db' \<longleftrightarrow> (\<exists>es. log_list db' = log_list db @ es)"

lemma log_inv_fresh: "log_inv C fresh_log_db"
  by (simp add: log_inv_def log_ok_def log_list_def fresh_log_db_def head_in_def latest_view_def fun_eq_iff)

interpretation relay_log: run_related "sha256_length C" "log_step C" fresh_log_db "log_inv C" log_grows for C
proof
  show "log_grows s t \<Longrightarrow> log_grows t u \<Longrightarrow> log_grows s u" for s t u
    by (auto simp: log_grows_def)
qed (use by_appends_inv [OF step_appends] in \<open>simp_all add: log_inv_fresh log_grows_def\<close>)

lemma log_since_list:
  assumes "log_ok C db" "i \<noteq> - 1"
  shows "log_since i n db = take n (drop (unat i) (log_list db))"
proof -
  let ?xs = "RBT.entries (rl_log db)"
  have keys: "map fst ?xs = map le_index (log_list db)" using assms by (simp add: log_ok_def)
  have len: "length ?xs = length (log_list db)" by (simp add: log_list_def)
  have key: "unat (fst (?xs ! j)) = Suc j" if "j < length ?xs" for j
    using log_index [OF assms(1), of j] that keys len by (metis nth_map)
  have next_i: "unat i + 1 < 2 ^ 64" "unat (i + 1) = unat i + 1"
    using unat_plus_one [OF assms(2)] unat_less_2p [of "i + 1"] by auto
  have sat: "sat_add_u64 i 1 \<le> fst (?xs ! j) \<longleftrightarrow> unat i \<le> j" if "j < length ?xs" for j
    using next_i key [OF that] by (simp add: sat_add_u64_def word_le_nat_alt)
  have "filter (\<lambda>(k, _). sat_add_u64 i 1 \<le> k) ?xs = drop (unat i) ?xs"
    by (rule filter_suffix) (use sat in \<open>simp add: case_prod_beta\<close>)
  then show ?thesis by (simp add: log_since_def trange_def log_list_def take_map drop_map)
qed

section \<open>Everything served is logged\<close>

text \<open>
  \<open>U\<close> is the identities of a history, on which the hashed subjects are distinct; \<open>D\<close> those of
  them that some account revoked as a device. A revocation of an identity outside \<open>D\<close> is its
  latest logged one; inside \<open>D\<close> a device's revocation may have been logged after it.
\<close>

definition in_log :: "log_entry list \<Rightarrow> bytes \<Rightarrow> entry_kind \<Rightarrow> bytes \<Rightarrow> bool" where
  "in_log es subj k leaf \<longleftrightarrow> (subj, k, leaf) \<in> filed ` set es"

definition bundles_logged :: "crypto \<Rightarrow> user_id set \<Rightarrow> (bytes, key_bundle) table \<Rightarrow> log_entry list \<Rightarrow> bool" where
  "bundles_logged C U t es \<longleftrightarrow>
    (\<forall>u b. tget t u = Some b \<longrightarrow> u \<in> U \<and> kb_user_id b = u \<and>
      latest_leaf Bundle (subject C u) es = Some (bundle_leaf C b))"

definition successions_logged ::
  "crypto \<Rightarrow> user_id set \<Rightarrow> (bytes, succession) table \<Rightarrow> log_entry list \<Rightarrow> bool" where
  "successions_logged C U t es \<longleftrightarrow>
    (\<forall>u s. tget t u = Some s \<longrightarrow> u \<in> U \<and> suc_old s = u) \<and>
    (\<forall>u \<in> U. latest_leaf Succession (subject C u) es = map_option (succession_leaf C) (tget t u))"

definition revocations_logged ::
  "crypto \<Rightarrow> user_id set \<Rightarrow> user_id set \<Rightarrow> (bytes, revocation) table \<Rightarrow> log_entry list \<Rightarrow> bool" where
  "revocations_logged C U D t es \<longleftrightarrow>
    (\<forall>u r. tget t u = Some r \<longrightarrow> u \<in> U \<and> rev_identity r = u \<and>
      in_log es (subject C u) Revocation (revocation_leaf C r)) \<and>
    (\<forall>u \<in> U - D. latest_leaf Revocation (subject C u) es = map_option (revocation_leaf C) (tget t u))"

definition device_revocations_logged ::
  "crypto \<Rightarrow> user_id set \<Rightarrow> (bytes, device_revocation) table \<Rightarrow> log_entry list \<Rightarrow> bool" where
  "device_revocations_logged C D t es \<longleftrightarrow>
    (\<forall>u r. tget t u = Some r \<longrightarrow> u \<in> D \<and> dr_device r = u \<and>
      in_log es (subject C u) Revocation (device_revocation_leaf C r))"

definition served_ok :: "crypto \<Rightarrow> user_id set \<Rightarrow> user_id set \<Rightarrow> log_db \<Rightarrow> log_entry list \<Rightarrow> bool" where
  "served_ok C U D db es \<longleftrightarrow>
    bundles_logged C U (rl_bundles db) es \<and> successions_logged C U (rl_successions db) es \<and>
    revocations_logged C U D (rl_revocations db) es \<and>
    device_revocations_logged C D (rl_device_revocations db) es"

lemma in_log_append [simp]:
  "in_log (es @ fs) subj k leaf \<longleftrightarrow> in_log es subj k leaf \<or> in_log fs subj k leaf"
  by (auto simp: in_log_def)

lemma in_log_single [simp]: "in_log [e] subj k leaf \<longleftrightarrow> filed e = (subj, k, leaf)"
  by (auto simp: in_log_def)

lemma bundles_logged_snoc:
  assumes "bundles_logged C U t es" "inj_on (subject C) U" "u \<in> U" "filed e = (subject C u, k, l)"
    "k = Bundle \<Longrightarrow> tget t u \<noteq> None \<Longrightarrow> l = bundle_leaf C (the (tget t u))"
  shows "bundles_logged C U t (es @ [e])"
  unfolding bundles_logged_def
proof (intro allI impI)
  fix v b assume v: "tget t v = Some b"
  with assms(1) have "v \<in> U" "kb_user_id b = v" "latest_leaf Bundle (subject C v) es = Some (bundle_leaf C b)"
    by (auto simp: bundles_logged_def)
  then show "v \<in> U \<and> kb_user_id b = v \<and> latest_leaf Bundle (subject C v) (es @ [e]) = Some (bundle_leaf C b)"
    using assms(2-5) v inj_onD [OF assms(2), of u v] by (auto simp: filed_def)
qed

lemma bundles_logged_put:
  assumes "bundles_logged C U t es" "inj_on (subject C) U" "kb_user_id b \<in> U"
    "latest_leaf Bundle (subject C (kb_user_id b)) es = Some (bundle_leaf C b)"
  shows "bundles_logged C U (tput (kb_user_id b) b t) es"
  using assms by (auto simp: bundles_logged_def split: if_splits)

lemma successions_logged_snoc:
  assumes "successions_logged C U t es" "inj_on (subject C) U" "u \<in> U" "filed e = (subject C u, k, l)"
    "k \<noteq> Succession"
  shows "successions_logged C U t (es @ [e])"
  using assms by (auto simp: successions_logged_def filed_def)

lemma successions_logged_put:
  assumes "successions_logged C U t es" "inj_on (subject C) U" "suc_old s \<in> U"
    "filed e = (subject C (suc_old s), Succession, succession_leaf C s)"
  shows "successions_logged C U (tput (suc_old s) s t) (es @ [e])"
  using assms inj_onD [OF assms(2), of "suc_old s"]
  by (auto simp: successions_logged_def filed_def split: if_splits)

lemma revocations_logged_snoc:
  assumes "revocations_logged C U D t es" "inj_on (subject C) U" "u \<in> U" "filed e = (subject C u, k, l)"
    "k = Revocation \<Longrightarrow> u \<in> D"
  shows "revocations_logged C U D t (es @ [e])"
  using assms inj_onD [OF assms(2), of u] by (auto simp: revocations_logged_def filed_def)

lemma revocations_logged_put:
  assumes "revocations_logged C U D t es" "inj_on (subject C) U" "rev_identity r \<in> U"
    "filed e = (subject C (rev_identity r), Revocation, revocation_leaf C r)"
  shows "revocations_logged C U D (tput (rev_identity r) r t) (es @ [e])"
  using assms inj_onD [OF assms(2), of "rev_identity r"]
  by (auto simp: revocations_logged_def filed_def split: if_splits)

lemma device_revocations_logged_snoc:
  "device_revocations_logged C D t es \<Longrightarrow> device_revocations_logged C D t (es @ [e])"
  by (auto simp: device_revocations_logged_def)

lemma device_revocations_logged_put:
  assumes "device_revocations_logged C D t es" "dr_device r \<in> D"
    "filed e = (subject C (dr_device r), Revocation, device_revocation_leaf C r)"
  shows "device_revocations_logged C D (tput (dr_device r) r t) (es @ [e])"
  using assms by (auto simp: device_revocations_logged_def split: if_splits)

lemmas logged_snoc = bundles_logged_snoc successions_logged_snoc revocations_logged_snoc
  device_revocations_logged_snoc

lemmas logged_defs = bundles_logged_def successions_logged_def revocations_logged_def
  device_revocations_logged_def

lemma bundles_logged_put_snoc:
  assumes "bundles_logged C U t es" "inj_on (subject C) U" "kb_user_id b \<in> U"
    "filed e = (subject C (kb_user_id b), Bundle, bundle_leaf C b)"
  shows "bundles_logged C U (tput (kb_user_id b) b t) (es @ [e])"
  using assms inj_onD [OF assms(2), of "kb_user_id b"]
  by (auto simp: bundles_logged_def filed_def split: if_splits)

lemma latest_bundle_leaf:
  assumes "log_inv C db"
  shows "Option.bind (read_latest subj db) rlt_bundle_leaf = Some l \<longleftrightarrow>
    latest_leaf Bundle subj (log_list db) = Some l"
proof (cases "find (\<lambda>e. le_subject e = subj) (rev (log_list db))")
  case None
  then have "latest_leaf Bundle subj (log_list db) = None" by (auto simp: latest_leaf_None find_None_iff)
  with None assms show ?thesis by (simp add: log_inv_def read_latest_def latest_view_def)
qed (use assms in \<open>simp add: log_inv_def read_latest_def latest_view_def\<close>)

definition served_inv :: "crypto \<Rightarrow> user_id set \<Rightarrow> user_id set \<Rightarrow> log_db \<Rightarrow> bool" where
  "served_inv C U D db \<longleftrightarrow> log_inv C db \<and> served_ok C U D db (log_list db)"

lemma append_served:
  assumes "log_inv C db" "append_log C subj k leaf t db0 = Ok (e, db')"
    "rl_log db0 = rl_log db" "rl_latest db0 = rl_latest db"
    "length subj = 32" "length leaf = 32" "sha256_length C"
    and s: "\<And>e. filed e = (subj, k, leaf) \<Longrightarrow> served_ok C U D db0 (log_list db @ [e])"
  shows "served_inv C U D db'"
proof -
  have inv: "log_inv C db0" "log_list db0 = log_list db"
    using assms log_inv_cong [of db0 db C] by (simp_all add: log_list_def)
  note a = append_log_inv [OF inv(1) assms(2,5,6,7)]
  then have "served_ok C U D db0 (log_list db @ [e])" by (intro s) (simp add: filed_def)
  with a inv show ?thesis by (simp add: served_inv_def served_ok_def same_tables_def)
qed

lemma put_bundle_served:
  assumes i: "served_inv C U D db" and r: "put_bundle C b t db = Ok db'"
    and U: "inj_on (subject C) U" "kb_user_id b \<in> U" and h: "sha256_length C"
  shows "served_inv C U D db'"
proof -
  let ?db0 = "store_bundle_in b db"
  have inv: "log_inv C ?db0" "log_list ?db0 = log_list db"
    and li: "log_inv C db" "served_ok C U D db (log_list db)"
    using i log_inv_cong [of ?db0 db C]
    by (simp_all add: served_inv_def log_list_def store_bundle_in_def Let_def)
  have tabs: "rl_bundles ?db0 = tput (kb_user_id b) b (rl_bundles db)"
    "rl_successions ?db0 = rl_successions db" "rl_revocations ?db0 = rl_revocations db"
    "rl_device_revocations ?db0 = rl_device_revocations db"
    "rl_log ?db0 = rl_log db" "rl_latest ?db0 = rl_latest db"
    by (simp_all add: store_bundle_in_def Let_def)
  show ?thesis
  proof (cases "Option.bind (read_latest (subject C (kb_user_id b)) ?db0) rlt_bundle_leaf = Some (bundle_leaf C b)")
    case True
    then have "db' = ?db0" using r by (simp add: put_bundle_def log_bundle_in_def Let_def)
    moreover have "latest_leaf Bundle (subject C (kb_user_id b)) (log_list db) = Some (bundle_leaf C b)"
      using True latest_bundle_leaf [OF inv(1)] inv(2) by simp
    ultimately show ?thesis
      using inv li(2) U bundles_logged_put by (simp add: served_inv_def served_ok_def tabs)
  next
    case False
    then obtain e where e: "append_log C (subject C (kb_user_id b)) Bundle (bundle_leaf C b) t ?db0 = Ok (e, db')"
      using r by (auto simp: put_bundle_def log_bundle_in_def Let_def)
    show ?thesis
      by (rule append_served [OF li(1) e tabs(5,6)])
        (use li(2) U h in \<open>auto simp: served_ok_def tabs intro: bundles_logged_put_snoc logged_snoc\<close>)
  qed
qed

lemma set_revocation_served:
  assumes i: "served_inv C U D db" and r: "set_revocation C r t db = Ok db'"
    and U: "inj_on (subject C) U" "rev_identity r \<in> U" and h: "sha256_length C"
  shows "served_inv C U D db'"
proof -
  let ?db0 = "db\<lparr>rl_revocations := tput (rev_identity r) r (rl_revocations db)\<rparr>"
  have li: "log_inv C db" "served_ok C U D db (log_list db)" using i by (simp_all add: served_inv_def)
  obtain e where e: "append_log C (subject C (rev_identity r)) Revocation (revocation_leaf C r) t ?db0 = Ok (e, db')"
    using r by (auto simp: set_revocation_def)
  show ?thesis
    by (rule append_served [OF li(1) e])
      (use li(2) U h in \<open>auto simp: served_ok_def intro: revocations_logged_put logged_snoc\<close>)
qed

lemma set_succession_served:
  assumes i: "served_inv C U D db" and r: "set_succession C s t db = Ok db'"
    and U: "inj_on (subject C) U" "suc_old s \<in> U" and h: "sha256_length C"
  shows "served_inv C U D db'"
proof -
  let ?db0 = "db\<lparr>rl_successions := tput (suc_old s) s (rl_successions db)\<rparr>"
  have li: "log_inv C db" "served_ok C U D db (log_list db)" using i by (simp_all add: served_inv_def)
  obtain e where e: "append_log C (subject C (suc_old s)) Succession (succession_leaf C s) t ?db0 = Ok (e, db')"
    using r by (auto simp: set_succession_def)
  show ?thesis
    by (rule append_served [OF li(1) e])
      (use li(2) U h in \<open>auto simp: served_ok_def intro: successions_logged_put logged_snoc\<close>)
qed

lemma set_device_revocation_served:
  assumes i: "served_inv C U D db" and r: "set_device_revocation C r t db = Ok (x, db')"
    and U: "inj_on (subject C) U" "dr_device r \<in> U" "dr_device r \<in> D" and h: "sha256_length C"
  shows "served_inv C U D db'"
proof (cases "tget (rl_device_revocations db) (dr_device r)")
  case None
  let ?db0 = "db\<lparr>rl_device_revocations := tput (dr_device r) r (rl_device_revocations db),
           rl_revoked_by := tput (dr_account r, dr_device r) () (rl_revoked_by db)\<rparr>"
  have li: "log_inv C db" "served_ok C U D db (log_list db)" using i by (simp_all add: served_inv_def)
  obtain e where e: "append_log C (subject C (dr_device r)) Revocation (device_revocation_leaf C r) t ?db0 = Ok (e, db')"
    using r None by (auto simp: set_device_revocation_def)
  show ?thesis
    by (rule append_served [OF li(1) e])
      (use li(2) U h in \<open>auto simp: served_ok_def intro: device_revocations_logged_put logged_snoc\<close>)
qed (use i r in \<open>simp add: set_device_revocation_def\<close>)

section \<open>Seeding\<close>

text \<open>A database from before the log: nothing logged, every table keyed by its identity.\<close>

definition pre_log :: "user_id set \<Rightarrow> log_db \<Rightarrow> bool" where
  "pre_log U db \<longleftrightarrow>
    rl_log db = RBT.empty \<and> rl_latest db = RBT.empty \<and> rl_device_revocations db = RBT.empty \<and>
    (\<forall>u b. tget (rl_bundles db) u = Some b \<longrightarrow> u \<in> U \<and> kb_user_id b = u) \<and>
    (\<forall>u r. tget (rl_revocations db) u = Some r \<longrightarrow> u \<in> U \<and> rev_identity r = u) \<and>
    (\<forall>u s. tget (rl_successions db) u = Some s \<longrightarrow> u \<in> U \<and> suc_old s = u)"

definition bundle_todo :: "crypto \<Rightarrow> key_bundle \<Rightarrow> bytes \<times> entry_kind \<times> bytes" where
  "bundle_todo C b = (subject C (kb_user_id b), Bundle, bundle_leaf C b)"

lemma latest_leaf_of_set:
  assumes "\<And>l. (subj, k, l) \<in> filed ` set es \<longleftrightarrow> L = Some l"
  shows "latest_leaf k subj es = L"
proof (cases "latest_leaf k subj es")
  case None
  then have "(subj, k, l) \<notin> filed ` set es" for l by (auto simp: latest_leaf_None filed_def)
  with assms None show ?thesis by (cases L) auto
next
  case (Some l)
  then have "(subj, k, l) \<in> filed ` set es" by (force dest!: latest_leaf_in_log simp: filed_def)
  with assms Some show ?thesis by auto
qed

lemma log_bundles_files:
  assumes "log_inv C db" "log_bundles C bs t db = Ok db'" "sha256_length C"
  shows "log_inv C db' \<and> same_tables db db' \<and>
    filed ` set (log_list db') = filed ` set (log_list db) \<union> bundle_todo C ` set bs"
  using assms(1,2)
proof (induction bs arbitrary: db)
  case (Cons b bs)
  then obtain x db1 where l: "log_bundle_in C b t db = Ok (x, db1)" and r: "log_bundles C bs t db1 = Ok db'"
    by auto
  have "todo_ok (pending C b db)" using assms(3) by (simp add: pending_def todo_ok_def)
  from append_all_inv [OF Cons.prems(1) log_bundle_in_append [OF l] this assms(3)]
  obtain es where es: "log_inv C db1" "same_tables db db1" "log_list db1 = log_list db @ es"
    "map filed es = pending C b db" by auto
  have "filed ` set (log_list db1) = insert (bundle_todo C b) (filed ` set (log_list db))"
  proof (cases "bundle_would_log C b db")
    case True
    then have "filed ` set es = {bundle_todo C b}"
      using es(4) by (metis bundle_todo_def list.simps(15) empty_set pending_def set_map)
    then show ?thesis using es(3) by auto
  next
    case False
    then have "latest_leaf Bundle (subject C (kb_user_id b)) (log_list db) = Some (bundle_leaf C b)"
      using latest_bundle_leaf [OF Cons.prems(1)] by (simp add: bundle_would_log_def)
    then have "bundle_todo C b \<in> filed ` set (log_list db)"
      by (force dest!: latest_leaf_in_log simp: filed_def bundle_todo_def)
    with False es(3,4) show ?thesis by (auto simp: pending_def)
  qed
  with Cons.IH [OF es(1) r] es(2) show ?case by (auto intro: same_tables_trans)
qed simp

lemma append_all_files:
  assumes "log_inv C db" "append_all C xs t db = Ok db'" "todo_ok xs" "sha256_length C"
  shows "log_inv C db' \<and> same_tables db db' \<and> filed ` set (log_list db') = filed ` set (log_list db) \<union> set xs"
proof -
  from append_all_inv [OF assms] obtain es where "log_inv C db'" "same_tables db db'"
    "log_list db' = log_list db @ es" "map filed es = xs" by auto
  then show ?thesis by auto
qed

lemma entries_image:
  assumes "\<And>u v. tget t u = Some v \<Longrightarrow> key v = u"
  shows "(\<lambda>(_, v). f (key v) v) ` set (RBT.entries t) = {f u v |u v. tget t u = Some v}"
proof (intro set_eqI iffI)
  fix x assume "x \<in> (\<lambda>(_, v). f (key v) v) ` set (RBT.entries t)"
  then obtain u v where "x = f (key v) v" "tget t u = Some v" by (auto simp: entries_iff)
  with assms [OF this(2)] show "x \<in> {f u v |u v. tget t u = Some v}" by blast
next
  fix x assume "x \<in> {f u v |u v. tget t u = Some v}"
  then obtain u v where "x = f u v" "tget t u = Some v" by blast
  then show "x \<in> (\<lambda>(_, v). f (key v) v) ` set (RBT.entries t)"
    using assms by (intro image_eqI [of _ _ "(u, v)"]) (auto simp: entries_iff)
qed

lemma seed_log_files:
  assumes pre: "pre_log U db" and r: "seed_log C t db = Ok db'" and h: "sha256_length C"
  shows "log_inv C db' \<and> same_tables db db' \<and>
    filed ` set (log_list db') =
      {(subject C u, Bundle, bundle_leaf C b) |u b. tget (rl_bundles db) u = Some b} \<union>
      {(subject C u, Revocation, revocation_leaf C r) |u r. tget (rl_revocations db) u = Some r} \<union>
      {(subject C u, Succession, succession_leaf C s) |u s. tget (rl_successions db) u = Some s}"
proof -
  let ?bs = "map snd (RBT.entries (rl_bundles db))"
  let ?rs = "map (\<lambda>(_, r). (subject C (rev_identity r), Revocation, revocation_leaf C r))
       (RBT.entries (rl_revocations db))"
  let ?ss = "map (\<lambda>(_, s). (subject C (suc_old s), Succession, succession_leaf C s))
       (RBT.entries (rl_successions db))"
  have inv: "log_inv C db" and empty: "log_list db = []" "lh_index (head_in C (rl_log db)) = 0"
    using pre log_inv_cong [of db fresh_log_db C] log_inv_fresh
    by (simp_all add: pre_log_def fresh_log_db_def log_list_def head_in_def EMPTY_def)
  obtain db1 db2 where 1: "log_bundles C ?bs t db = Ok db1" and 2: "append_all C ?rs t db1 = Ok db2"
    and 3: "append_all C ?ss t db2 = Ok db'"
    using r empty(2) by (auto simp: seed_log_def)
  have ok: "todo_ok ?rs" "todo_ok ?ss" using h by (auto simp: todo_ok_def list_all_iff)
  have f1: "log_inv C db1" "same_tables db db1" "filed ` set (log_list db1) = bundle_todo C ` set ?bs"
    using log_bundles_files [OF inv 1 h] empty(1) by auto
  have f2: "log_inv C db2" "same_tables db1 db2"
    "filed ` set (log_list db2) = bundle_todo C ` set ?bs \<union> set ?rs"
    using append_all_files [OF f1(1) 2 ok(1) h] f1(3) by auto
  have f3: "log_inv C db'" "same_tables db2 db'"
    "filed ` set (log_list db') = bundle_todo C ` set ?bs \<union> set ?rs \<union> set ?ss"
    using append_all_files [OF f2(1) 3 ok(2) h] f2(3) by auto
  have same: "same_tables db db'"
    by (rule same_tables_trans [OF same_tables_trans [OF f1(2) f2(2)] f3(2)])
  have keys: "\<And>u b. tget (rl_bundles db) u = Some b \<Longrightarrow> kb_user_id b = u"
    "\<And>u r. tget (rl_revocations db) u = Some r \<Longrightarrow> rev_identity r = u"
    "\<And>u s. tget (rl_successions db) u = Some s \<Longrightarrow> suc_old s = u"
    using pre unfolding pre_log_def by blast+
  have "bundle_todo C ` set ?bs = (\<lambda>(_, b). (subject C (kb_user_id b), Bundle, bundle_leaf C b)) ` set (RBT.entries (rl_bundles db))"
    unfolding set_map image_image by (intro image_cong refl) (simp add: bundle_todo_def case_prod_beta)
  also have "\<dots> = {(subject C u, Bundle, bundle_leaf C b) |u b. tget (rl_bundles db) u = Some b}"
    by (rule entries_image [of _ kb_user_id "\<lambda>u b. (subject C u, Bundle, bundle_leaf C b)", OF keys(1)])
  finally have "bundle_todo C ` set ?bs = {(subject C u, Bundle, bundle_leaf C b) |u b. tget (rl_bundles db) u = Some b}" .
  moreover have "set ?rs = {(subject C u, Revocation, revocation_leaf C r) |u r. tget (rl_revocations db) u = Some r}"
    unfolding set_map
    by (rule entries_image [of _ rev_identity "\<lambda>u r. (subject C u, Revocation, revocation_leaf C r)", OF keys(2)])
  moreover have "set ?ss = {(subject C u, Succession, succession_leaf C s) |u s. tget (rl_successions db) u = Some s}"
    unfolding set_map
    by (rule entries_image [of _ suc_old "\<lambda>u s. (subject C u, Succession, succession_leaf C s)", OF keys(3)])
  ultimately show ?thesis using f3(1,3) same by (simp only: simp_thms)
qed

lemma seed_log_served:
  assumes pre: "pre_log U db" and r: "seed_log C t db = Ok db'" and h: "sha256_length C"
    and U: "inj_on (subject C) U"
  shows "served_inv C U D db'"
proof -
  note f = seed_log_files [OF pre r h]
  have eq: "subject C u = subject C v \<longleftrightarrow> u = v" if "u \<in> U" "v \<in> U" for u v
    using that U by (auto dest: inj_onD)
  have sub: "(subject C u, k, l) \<in> filed ` set (log_list db') \<longleftrightarrow>
     (case k of Bundle \<Rightarrow> map_option (bundle_leaf C) (tget (rl_bundles db) u) = Some l
       | Revocation \<Rightarrow> map_option (revocation_leaf C) (tget (rl_revocations db) u) = Some l
       | Succession \<Rightarrow> map_option (succession_leaf C) (tget (rl_successions db) u) = Some l)"
    if "u \<in> U" for u k l
    using f pre that eq by (cases k) (auto simp: pre_log_def)
  have lat: "latest_leaf k (subject C u) (log_list db') =
     (case k of Bundle \<Rightarrow> map_option (bundle_leaf C) (tget (rl_bundles db) u)
       | Revocation \<Rightarrow> map_option (revocation_leaf C) (tget (rl_revocations db) u)
       | Succession \<Rightarrow> map_option (succession_leaf C) (tget (rl_successions db) u))" if "u \<in> U" for u k
    by (rule latest_leaf_of_set) (simp add: sub that split: entry_kind.split)
  have tabs: "rl_bundles db' = rl_bundles db" "rl_successions db' = rl_successions db"
    "rl_revocations db' = rl_revocations db" "rl_device_revocations db' = RBT.empty"
    using f pre by (auto simp: same_tables_def pre_log_def)
  have keys: "tget (rl_bundles db) u = Some b \<Longrightarrow> u \<in> U \<and> kb_user_id b = u"
    "tget (rl_revocations db) u = Some r' \<Longrightarrow> u \<in> U \<and> rev_identity r' = u"
    "tget (rl_successions db) u = Some s \<Longrightarrow> u \<in> U \<and> suc_old s = u" for u b r' s
    using pre by (auto simp: pre_log_def)
  have "served_ok C U D db' (log_list db')"
    unfolding served_ok_def tabs logged_defs in_log_def
    using keys by (simp add: lat sub)
  with f show ?thesis by (simp add: served_inv_def)
qed

section \<open>Histories of operations on the identities U\<close>

fun log_allowed :: "user_id set \<Rightarrow> user_id set \<Rightarrow> log_op \<Rightarrow> bool" where
  "log_allowed U D (OpPut b _) = (kb_user_id b \<in> U)"
| "log_allowed U D (OpRevoke r _) = (rev_identity r \<in> U)"
| "log_allowed U D (OpSucceed s _) = (suc_old s \<in> U)"
| "log_allowed U D (OpRevokeDevice r _) = (dr_device r \<in> U \<and> dr_device r \<in> D)"
| "log_allowed U D _ = True"

lemma served_inv_fresh: "served_inv C U D fresh_log_db"
  by (simp add: served_inv_def served_ok_def logged_defs log_inv_fresh)
    (simp add: log_list_def fresh_log_db_def)

lemma entries_Nil: "(\<And>u. tget t u = None) \<Longrightarrow> RBT.entries t = []"
  by (rule ccontr) (metis entries_iff list.set_sel(1) option.distinct(1) surj_pair)

text \<open>Once something is served the log is not empty, so a second seeding changes nothing.\<close>

lemma seed_log_again:
  assumes "served_inv C U D db" "seed_log C t db = Ok db'"
  shows "db' = db"
proof (cases "0 < lh_index (head_in C (rl_log db))")
  case False
  then have "lh_index (head_in C (rl_log db)) = 0" by (simp add: word_gt_0)
  then have "log_list db = []"
    using log_head_index [of C db] assms(1) by (simp add: served_inv_def log_inv_def)
  then have so: "bundles_logged C U (rl_bundles db) []" "successions_logged C U (rl_successions db) []"
    "revocations_logged C U D (rl_revocations db) []"
    using assms(1) by (simp_all add: served_inv_def served_ok_def)
  have none: "tget (rl_bundles db) u = None" "tget (rl_revocations db) u = None"
    "tget (rl_successions db) u = None" for u
  proof -
    show "tget (rl_bundles db) u = None"
      using so(1) by (cases "tget (rl_bundles db) u") (force simp: bundles_logged_def)+
    show "tget (rl_revocations db) u = None"
      using so(3) by (cases "tget (rl_revocations db) u") (force simp: revocations_logged_def in_log_def)+
    show "tget (rl_successions db) u = None"
      using so(2) by (cases "tget (rl_successions db) u") (force simp: successions_logged_def)+
  qed
  with False assms(2) show ?thesis by (simp add: seed_log_def entries_Nil)
qed (use assms(2) in \<open>simp add: seed_log_def\<close>)

lemma served_inv_step:
  assumes "sha256_length C \<and> inj_on (subject C) U" "served_inv C U D db" "log_allowed U D x"
  shows "served_inv C U D (log_step C db x)"
proof -
  have h: "sha256_length C" "inj_on (subject C) U" using assms(1) by auto
  have keep: "served_inv C U D (committed db r)" if "\<And>db'. r = Ok db' \<Longrightarrow> served_inv C U D db'" for r
    using that assms(2) by (cases r) (auto simp: committed_def)
  show ?thesis
  proof (cases x)
    case (OpPut b t)
    then show ?thesis using assms put_bundle_served h by (auto intro!: keep)
  next
    case (OpRemove u)
    have "log_inv C (snd (remove_bundle u db)) = log_inv C db"
      by (rule log_inv_cong) (simp_all add: remove_bundle_def Let_def)
    with OpRemove assms(2) show ?thesis
      by (auto simp: served_inv_def served_ok_def remove_bundle_def Let_def log_list_def bundles_logged_def
          split: if_splits)
  next
    case (OpRevoke r t)
    then show ?thesis using assms set_revocation_served h by (auto intro!: keep)
  next
    case (OpSucceed s t)
    then show ?thesis using assms set_succession_served h by (auto intro!: keep)
  next
    case (OpRevokeDevice r t)
    then show ?thesis using assms set_device_revocation_served h by (auto intro!: keep)
  next
    case (OpUnrevokeDevice u)
    have "log_inv C (snd (remove_device_revocation u db)) = log_inv C db"
      by (rule log_inv_cong) (simp_all add: remove_device_revocation_def split: option.split)
    with OpUnrevokeDevice assms(2) show ?thesis
      by (auto simp: served_inv_def served_ok_def remove_device_revocation_def log_list_def
          device_revocations_logged_def split: if_splits option.splits)
  next
    case (OpSeed t)
    then show ?thesis using assms(2) seed_log_again [OF assms(2)] by (auto intro!: keep)
  qed
qed

interpretation served: guarded_invariant "sha256_length C \<and> inj_on (subject C) U" "log_allowed U D"
  "log_step C" fresh_log_db "served_inv C U D" for C U D
  by unfold_locales (auto simp: served_inv_fresh served_inv_step)

section \<open>Properties\<close>

text \<open>
  C8. The log is an append-only hash chain. In every reachable state of the relay's database
  the entries replay from the empty head to exactly the head the relay reports, whose index is
  their number; whatever happens later only appends to them; a page of \<open>log_since\<close> is the
  entries after the given index, in order; and the claim \<open>log_latest\<close> makes for an identity is
  its last entry in the log.
\<close>

theorem log_is_append_only_chain:
  assumes "sha256_length C" "i \<noteq> - 1"
  shows "let db = run (log_step C) fresh_log_db xs; later = run (log_step C) fresh_log_db (xs @ ys) in
    replay C EMPTY (log_list db) (Some (log_head_of C db)) = Ok (log_head_of C db) \<and>
    unat (log_len C db) = length (log_list db) \<and>
    (\<exists>es. log_list later = log_list db @ es) \<and>
    log_since i n db = take n (drop (unat i) (log_list db)) \<and>
    log_latest C u db = map_option (\<lambda>e. \<lparr>lp_index = le_index e, lp_leaf = le_leaf e\<rparr>)
      (find (\<lambda>e. le_subject e = subject C u) (rev (log_list db)))"
proof -
  have "log_inv C (run (log_step C) fresh_log_db xs)"
    by (rule relay_log.inv_reachable) (rule assms)
  then show ?thesis
    using relay_log.rel_later [OF assms(1), of xs ys] log_since_list [OF _ assms(2)] log_head_index
    unfolding log_inv_def Let_def
    by (auto simp: log_ok_def replay_def log_head_of_def log_len_def log_grows_def log_latest_def
        latest_view_def option.map_comp comp_def)
qed

definition demo_revocation :: revocation where
  "demo_revocation = \<lparr>rev_identity = replicate 32 1, rev_created_at_ms = 2, rev_signature = replicate 64 3\<rparr>"

theorem log_is_append_only_chain_witness:
  "let db = run (log_step demo_crypto) fresh_log_db [OpRevoke demo_revocation 5] in
    replay demo_crypto EMPTY (log_list db) (Some (log_head_of demo_crypto db)) = Ok (log_head_of demo_crypto db)"
  using log_is_append_only_chain [OF demo_crypto_laws(9), of 0 "[OpRevoke demo_revocation 5]" "[]"]
  unfolding Let_def by simp

text \<open>
  C6. Nothing served is missing from the log. Starting from any database of before the log,
  seeded by the migration, after any history in which the hashed subjects of the identities
  are distinct: the bundle served for an identity is its latest logged bundle, the succession
  served is its latest logged succession, a served revocation (of an identity or of a device)
  is in the log under its subject, and for an identity no account has revoked as a device the
  served revocation is its latest logged one, and is missing only if none was logged.
\<close>

theorem served_is_logged:
  assumes "sha256_length C" "inj_on (subject C) U" "pre_log U db0" "seed_log C t db0 = Ok db1"
    and "list_all (log_allowed U D) xs"
  shows "let db = run (log_step C) db1 xs; es = log_list db in
    (bundle_of u db = Some b \<longrightarrow> latest_leaf Bundle (subject C u) es = Some (bundle_leaf C b)) \<and>
    (u \<in> U \<longrightarrow> latest_leaf Succession (subject C u) es = map_option (succession_leaf C) (succession_of u db)) \<and>
    (revocation_of u db = Some r \<longrightarrow> in_log es (subject C u) Revocation (revocation_leaf C r)) \<and>
    (u \<in> U - D \<longrightarrow> latest_leaf Revocation (subject C u) es = map_option (revocation_leaf C) (revocation_of u db)) \<and>
    (device_revocation_of u db = Some d \<longrightarrow> in_log es (subject C u) Revocation (device_revocation_leaf C d))"
proof -
  have law: "sha256_length C \<and> inj_on (subject C) U" using assms by simp
  have "served_inv C U D (run (log_step C) db1 xs)"
    by (rule served.guarded_run [OF law seed_log_served [OF assms(3,4,1,2)] assms(5)])
  then show ?thesis
    unfolding Let_def served_inv_def served_ok_def logged_defs bundle_of_def succession_of_def
      revocation_of_def device_revocation_of_def by simp
qed

theorem served_is_logged_witness:
  "latest_leaf Revocation (subject demo_crypto (replicate 32 1))
     (log_list (run (log_step demo_crypto) fresh_log_db [OpRevoke demo_revocation 5])) =
   Some (revocation_leaf demo_crypto demo_revocation)"
proof -
  have seed: "seed_log demo_crypto 0 fresh_log_db = Ok fresh_log_db"
    by (simp add: seed_log_def fresh_log_db_def)
  have pre: "pre_log {replicate 32 1} fresh_log_db"
    by (simp add: pre_log_def fresh_log_db_def)
  have "revocation_of (replicate 32 1) (run (log_step demo_crypto) fresh_log_db [OpRevoke demo_revocation 5]) =
      Some demo_revocation"
    by (simp add: revocation_of_def set_revocation_def append_log_def entry_after_def fresh_log_db_def
        head_in_def EMPTY_def committed_def Let_def demo_revocation_def)
  then show ?thesis
    using served_is_logged [OF demo_crypto_laws(9) _ pre seed, where D = "{}" and u = "replicate 32 1"
        and xs = "[OpRevoke demo_revocation 5]"]
    unfolding Let_def by (simp add: demo_revocation_def del: run.simps)
qed

end
