(* ===== verification/LogStore.thy ===== *)
theory LogStore
  imports Transparency
begin

text \<open>
  The client's side of key transparency (\<^verbatim>\<open>silver-client/src/transparency.rs\<close>): the state
  it keeps of the relay's log (head, checkpoints, where each subject last appears, the
  evidence of past breaks), the replay of a page into it, and its three checks, of a lookup's
  answer, of a linked device's, and of a contact's head. The file the state is saved to is
  not part of the model. Shown here: the state is at all times a function of the entries
  accepted since the last reset, positions can be checked exactly where a checkpoint is kept,
  and what the verdict on a contact's head means for the two logs.
\<close>

section \<open>State\<close>

definition DENSE :: nat where "DENSE = 4096"
definition SPARSE :: nat where "SPARSE = 256"
definition BREAKS_KEPT :: nat where "BREAKS_KEPT = 8"

text \<open>A checkpoint has the fields of a head and is kept as one.\<close>

type_synonym checkpoint = log_head

record log_break =
  br_at_ms :: u64
  br_rewound :: bool
  br_ours :: log_head
  br_theirs :: log_head
  br_checkpoints :: "checkpoint list"

record latest =
  lt_last :: log_position
  lt_kind :: "entry_kind option"
  lt_bundle :: "log_position option"
  lt_revocation :: "log_position option"
  lt_succession :: "log_position option"

definition latest_default :: latest where
  "latest_default = \<lparr>lt_last = default_position, lt_kind = None, lt_bundle = None,
     lt_revocation = None, lt_succession = None\<rparr>"

record log_state =
  ls_head :: log_head
  ls_breaks :: "log_break list"
  ls_checkpoints :: "checkpoint list"
  ls_latest :: "string \<rightharpoonup> latest"
  ls_verified_at_ms :: u64

definition log_state_default :: log_state where
  "log_state_default = \<lparr>ls_head = EMPTY, ls_breaks = [], ls_checkpoints = [], ls_latest = Map.empty,
     ls_verified_at_ms = 0\<rparr>"

datatype discrepancy =
    UnloggedBundle
  | NotLatestBundle u64
  | ClaimMismatch u64 u64
  | WithheldRevocation u64
  | WithheldSuccession u64
  | UnloggedStatement

datatype head_check =
    Consistent
  | HeadFork u64
  | NeedEntries log_head log_head
  | Ahead

text \<open>Subjects are keyed by their lower-case hexadecimal digits.\<close>

definition hex_digit :: "nat \<Rightarrow> char" where
  "hex_digit n = (if n < 10 then char_of (48 + n) else char_of (87 + n))"

definition key :: "bytes \<Rightarrow> string" where
  "key subj = concat (map (\<lambda>b. [hex_digit (unat b div 16), hex_digit (unat b mod 16)]) subj)"

definition latest_in :: "crypto \<Rightarrow> log_state \<Rightarrow> user_id \<Rightarrow> latest option" where
  "latest_in C s user = ls_latest s (key (subject C user))"

section \<open>Replaying a page\<close>

definition note_checkpoint :: "log_head \<Rightarrow> checkpoint list \<Rightarrow> checkpoint list" where
  "note_checkpoint head cps =
    (let dense_from = unat (lh_index head) - DENSE
     in filter (\<lambda>c. dense_from < unat (lh_index c) \<or> unat (lh_index c) mod SPARSE = 0) (cps @ [head]))"

definition note_latest :: "log_entry \<Rightarrow> (string \<rightharpoonup> latest) \<Rightarrow> (string \<rightharpoonup> latest)" where
  "note_latest e m =
    (let position = \<lparr>lp_index = le_index e, lp_leaf = le_leaf e\<rparr>;
         l = (case m (key (le_subject e)) of Some l \<Rightarrow> l | None \<Rightarrow> latest_default);
         l = l\<lparr>lt_last := position, lt_kind := Some (le_kind e)\<rparr>;
         l = (case le_kind e of
                Bundle \<Rightarrow> l\<lparr>lt_bundle := Some position\<rparr>
              | Revocation \<Rightarrow> l\<lparr>lt_revocation := Some position\<rparr>
              | Succession \<Rightarrow> l\<lparr>lt_succession := Some position\<rparr>)
     in m(key (le_subject e) \<mapsto> l))"

definition apply_page ::
  "crypto \<Rightarrow> log_entry list \<Rightarrow> u64 \<Rightarrow> log_state \<Rightarrow> (log_head, replay_error) res \<times> log_state" where
  "apply_page C entries now_ms s =
    (case replay_from C (ls_head s) entries of
       Ok at \<Rightarrow>
         (Ok at, s\<lparr>ls_latest := fold note_latest entries (ls_latest s),
                   ls_checkpoints := fold (\<lambda>e. note_checkpoint (entry_head C e)) entries (ls_checkpoints s),
                   ls_head := at, ls_verified_at_ms := now_ms\<rparr>)
     | Err e \<Rightarrow> (Err e, s)
     | Panic \<Rightarrow> (Panic, s))"

definition confirm :: "u64 \<Rightarrow> log_state \<Rightarrow> log_state" where
  "confirm now_ms s = s\<lparr>ls_verified_at_ms := now_ms\<rparr>"

definition reset :: "bool \<Rightarrow> log_head \<Rightarrow> u64 \<Rightarrow> log_state \<Rightarrow> log_state" where
  "reset rewound theirs now_ms s =
    (let evidence = \<lparr>br_at_ms = now_ms, br_rewound = rewound, br_ours = ls_head s, br_theirs = theirs,
                     br_checkpoints = ls_checkpoints s\<rparr>;
         breaks = ls_breaks s @ [evidence];
         breaks = drop (length breaks - BREAKS_KEPT) breaks
     in log_state_default\<lparr>ls_breaks := breaks\<rparr>)"

section \<open>What can be said of a position\<close>

text \<open>
  The checkpoints are sorted by index. \<open>partition_point\<close> is the length of the part where the
  predicate holds; a binary search for a key lands on the first element not below it.
\<close>

definition partition_point :: "('a \<Rightarrow> bool) \<Rightarrow> 'a list \<Rightarrow> nat" where
  "partition_point P xs = length (takeWhile P xs)"

definition binary_search_by_index :: "u64 \<Rightarrow> checkpoint list \<Rightarrow> nat option" where
  "binary_search_by_index index cps =
    (let i = partition_point (\<lambda>c. lh_index c < index) cps
     in if i < length cps \<and> lh_index (cps ! i) = index then Some i else None)"

definition hash_at :: "log_state \<Rightarrow> u64 \<Rightarrow> bytes option" where
  "hash_at s index =
    (if index = 0 then Some (lh_hash EMPTY)
     else if index = lh_index (ls_head s) then Some (lh_hash (ls_head s))
     else map_option (\<lambda>i. lh_hash (ls_checkpoints s ! i)) (binary_search_by_index index (ls_checkpoints s)))"

definition can_check :: "log_state \<Rightarrow> u64 \<Rightarrow> bool" where
  "can_check s index \<longleftrightarrow> index = 0 \<or> index = lh_index (ls_head s) \<or> hash_at s index \<noteq> None"

definition checkpoint_below :: "log_state \<Rightarrow> u64 \<Rightarrow> log_head" where
  "checkpoint_below s index =
    (let at = partition_point (\<lambda>c. lh_index c \<le> index) (ls_checkpoints s)
     in if at = 0 then EMPTY else ls_checkpoints s ! (at - 1))"

definition checkpoint_above :: "log_state \<Rightarrow> u64 \<Rightarrow> log_head" where
  "checkpoint_above s index =
    (let at = partition_point (\<lambda>c. lh_index c < index) (ls_checkpoints s)
     in if at < length (ls_checkpoints s) \<and> lh_index (ls_checkpoints s ! at) \<le> lh_index (ls_head s)
        then ls_checkpoints s ! at else ls_head s)"

definition check_peer_head :: "log_state \<Rightarrow> log_head \<Rightarrow> head_check" where
  "check_peer_head s head =
    (if lh_index (ls_head s) < lh_index head then Ahead
     else case hash_at s (lh_index head) of
            Some h \<Rightarrow> if h = lh_hash head then Consistent else HeadFork (lh_index head)
          | None \<Rightarrow> NeedEntries (checkpoint_below s (lh_index head)) (checkpoint_above s (lh_index head)))"

section \<open>Checking a lookup\<close>

definition revocation_is_device_statement ::
  "crypto \<Rightarrow> log_state \<Rightarrow> user_id \<Rightarrow> device_revocation list \<Rightarrow> bool" where
  "revocation_is_device_statement C s user served =
    (case Option.bind (latest_in C s user) lt_revocation of
       None \<Rightarrow> False
     | Some logged \<Rightarrow>
         list_ex (\<lambda>r. dr_device r = user \<and> is_ok (dr_verify C r) \<and>
           device_revocation_leaf C r = lp_leaf logged) served)"

definition check_lookup ::
  "crypto \<Rightarrow> log_state \<Rightarrow> user_id \<Rightarrow> key_bundle option \<Rightarrow> revocation option \<Rightarrow> succession option \<Rightarrow>
    log_position option \<Rightarrow> (unit, discrepancy) res" where
  "check_lookup C s user bundle rvk suc claimed =
    (let l = latest_in C s user in
     and_then (case claimed of
         Some c \<Rightarrow>
           let seen = (case l of Some l' \<Rightarrow> lt_last l' | None \<Rightarrow> default_position)
           in if c \<noteq> seen then Err (ClaimMismatch (lp_index c) (lp_index seen)) else Ok ()
       | None \<Rightarrow> Ok ()) (\<lambda>_.
     and_then (case bundle of
         Some b \<Rightarrow>
           (case Option.bind l lt_bundle of
              None \<Rightarrow> Err UnloggedBundle
            | Some logged \<Rightarrow>
                if lp_leaf logged \<noteq> bundle_leaf C b then Err (NotLatestBundle (lp_index logged)) else Ok ())
       | None \<Rightarrow> Ok ()) (\<lambda>_.
     and_then (case Option.bind l lt_revocation of
         Some logged \<Rightarrow>
           (case rvk of
              None \<Rightarrow> Err (WithheldRevocation (lp_index logged))
            | Some r \<Rightarrow> if revocation_leaf C r \<noteq> lp_leaf logged then Err UnloggedStatement else Ok ())
       | None \<Rightarrow> if rvk \<noteq> None then Err UnloggedStatement else Ok ()) (\<lambda>_.
     if Option.bind l lt_revocation = None then
       (case Option.bind l lt_succession of
          Some logged \<Rightarrow>
            (case suc of
               None \<Rightarrow> Err (WithheldSuccession (lp_index logged))
             | Some x \<Rightarrow> if succession_leaf C x \<noteq> lp_leaf logged then Err UnloggedStatement else Ok ())
        | None \<Rightarrow> if suc \<noteq> None then Err UnloggedStatement else Ok ())
     else Ok ()))))"

definition check_device_lookup ::
  "crypto \<Rightarrow> log_state \<Rightarrow> user_id \<Rightarrow> key_bundle \<Rightarrow> device_revocation option \<Rightarrow> (unit, discrepancy) res" where
  "check_device_lookup C s device bundle rvk =
    (let l = latest_in C s device in
     and_then (case Option.bind l lt_bundle of
         None \<Rightarrow> Err UnloggedBundle
       | Some logged \<Rightarrow>
           if lp_leaf logged \<noteq> bundle_leaf C bundle then Err (NotLatestBundle (lp_index logged)) else Ok ()) (\<lambda>_.
     case (Option.bind l lt_revocation, rvk) of
       (Some logged, None) \<Rightarrow> Err (WithheldRevocation (lp_index logged))
     | (Some logged, Some r) \<Rightarrow>
         if device_revocation_leaf C r \<noteq> lp_leaf logged then Err UnloggedStatement else Ok ()
     | (None, Some _) \<Rightarrow> Err UnloggedStatement
     | (None, None) \<Rightarrow> Ok ()))"

section \<open>The state as a function of the accepted entries\<close>

text \<open>
  The specification: the entries accepted since the last reset, the evidence kept, the time
  of the last confirmation, and how many entries were ever accepted. \<open>rep\<close> gives the
  client's state for it. Indices wrap after 2^64 entries, so the correspondence is stated up
  to there.
\<close>

record log_spec =
  sp_entries :: "log_entry list"
  sp_breaks :: "log_break list"
  sp_time :: u64
  sp_total :: nat

definition kept :: "nat \<Rightarrow> nat \<Rightarrow> bool" where
  "kept n i \<longleftrightarrow> n - DENSE < i \<or> i mod SPARSE = 0"

definition head_of :: "crypto \<Rightarrow> log_entry list \<Rightarrow> log_head" where
  "head_of C es = (if es = [] then EMPTY else entry_head C (last es))"

definition kept_indices :: "nat \<Rightarrow> nat list" where
  "kept_indices n = filter (kept n) [1..<Suc n]"

definition checkpoints_of :: "crypto \<Rightarrow> log_entry list \<Rightarrow> checkpoint list" where
  "checkpoints_of C es =
    map (\<lambda>i. head_of C (take i es)) (kept_indices (length es))"

definition position_of :: "(log_entry \<Rightarrow> bool) \<Rightarrow> log_entry list \<Rightarrow> log_position option" where
  "position_of P es =
    map_option (\<lambda>e. \<lparr>lp_index = le_index e, lp_leaf = le_leaf e\<rparr>) (find P (rev es))"

definition of_kind :: "string \<Rightarrow> entry_kind \<Rightarrow> log_entry \<Rightarrow> bool" where
  "of_kind k kind e \<longleftrightarrow> key (le_subject e) = k \<and> le_kind e = kind"

definition latest_of :: "log_entry list \<Rightarrow> string \<rightharpoonup> latest" where
  "latest_of es k =
    map_option (\<lambda>e. \<lparr>lt_last = \<lparr>lp_index = le_index e, lp_leaf = le_leaf e\<rparr>, lt_kind = Some (le_kind e),
        lt_bundle = position_of (of_kind k Bundle) es,
        lt_revocation = position_of (of_kind k Revocation) es,
        lt_succession = position_of (of_kind k Succession) es\<rparr>)
      (find (\<lambda>e. key (le_subject e) = k) (rev es))"

definition rep :: "crypto \<Rightarrow> log_spec \<Rightarrow> log_state" where
  "rep C a = \<lparr>ls_head = head_of C (sp_entries a), ls_breaks = sp_breaks a,
     ls_checkpoints = checkpoints_of C (sp_entries a), ls_latest = latest_of (sp_entries a),
     ls_verified_at_ms = sp_time a\<rparr>"

datatype store_op =
    Apply "log_entry list" u64
  | Confirm u64
  | Reset bool log_head u64

fun store_step :: "crypto \<Rightarrow> log_state \<Rightarrow> store_op \<Rightarrow> log_state" where
  "store_step C s (Apply entries now) = snd (apply_page C entries now s)"
| "store_step C s (Confirm now) = confirm now s"
| "store_step C s (Reset rewound theirs now) = reset rewound theirs now s"

text \<open>A page is accepted whole when it chains onto the entries held, and otherwise not at all.\<close>

fun spec_step :: "crypto \<Rightarrow> log_spec \<Rightarrow> store_op \<Rightarrow> log_spec" where
  "spec_step C a (Apply entries now) =
    (if is_ok (replay_from C (head_of C (sp_entries a)) entries)
     then a\<lparr>sp_entries := sp_entries a @ entries, sp_time := now, sp_total := sp_total a + length entries\<rparr>
     else a)"
| "spec_step C a (Confirm now) = a\<lparr>sp_time := now\<rparr>"
| "spec_step C a (Reset rewound theirs now) =
    a\<lparr>sp_entries := [], sp_time := 0,
      sp_breaks := (let bs = sp_breaks a @ [\<lparr>br_at_ms = now, br_rewound = rewound,
          br_ours = head_of C (sp_entries a), br_theirs = theirs,
          br_checkpoints = checkpoints_of C (sp_entries a)\<rparr>]
        in drop (length bs - BREAKS_KEPT) bs)\<rparr>"

definition spec_start :: log_spec where
  "spec_start = \<lparr>sp_entries = [], sp_breaks = [], sp_time = 0, sp_total = 0\<rparr>"

lemma lh_index_EMPTY [simp]: "lh_index EMPTY = 0"
  by (simp add: EMPTY_def)

lemma head_of_snoc [simp]: "head_of C (es @ [e]) = entry_head C e"
  by (simp add: head_of_def)

lemma head_of_Nil [simp]: "head_of C [] = EMPTY"
  by (simp add: head_of_def)

lemma replay_head_of: "replay_from C EMPTY es = Ok h \<Longrightarrow> h = head_of C es"
  by (cases es rule: rev_cases) (auto simp: replay_from_snoc)

lemma replay_take:
  assumes "replay_from C EMPTY es = Ok h" "i \<le> length es"
  shows "replay_from C EMPTY (take i es) = Ok (head_of C (take i es))"
proof -
  have "replay_from C EMPTY (take i es @ drop i es) = Ok h" using assms(1) by simp
  then obtain g where "replay_from C EMPTY (take i es) = Ok g"
    unfolding replay_from_append by auto
  with replay_head_of show ?thesis by blast
qed

text \<open>The index of the head after \<open>i\<close> entries is \<open>i\<close>.\<close>

lemma head_of_index:
  assumes "replay_from C EMPTY es = Ok h" "i \<le> length es" "length es < 2 ^ 64"
  shows "unat (lh_index (head_of C (take i es))) = i"
proof -
  have "lh_index (head_of C (take i es)) = of_nat i"
    using replay_from_index [OF replay_take [OF assms(1,2)]] assms(2) by (simp add: EMPTY_def)
  moreover have "i < 2 ^ 64" using assms(2,3) by simp
  ultimately show ?thesis by (simp add: unat_of_nat)
qed

lemma note_latest_of: "note_latest e (latest_of es) = latest_of (es @ [e])"
proof (rule ext)
  fix k
  have none: "find (of_kind k kind) (rev es) = None"
    if "find (\<lambda>e. key (le_subject e) = k) (rev es) = None" for kind
    using that by (auto simp: of_kind_def find_None_iff)
  show "note_latest e (latest_of es) k = latest_of (es @ [e]) k"
  proof (cases "key (le_subject e) = k")
    case True
    then show ?thesis
      by (cases "find (\<lambda>e. key (le_subject e) = k) (rev es)"; cases "le_kind e")
        (simp_all add: note_latest_def Let_def latest_of_def position_of_def latest_default_def none
          of_kind_def [of _ _ e])
  next
    case False
    then show ?thesis
      by (simp add: note_latest_def Let_def latest_of_def position_of_def of_kind_def)
  qed
qed

lemma fold_note_latest: "fold note_latest fs (latest_of es) = latest_of (es @ fs)"
proof (induction fs arbitrary: es)
  case (Cons f fs)
  then show ?case using Cons [of "es @ [f]"] by (simp add: note_latest_of)
qed simp

lemma kept_mono: "kept (Suc n) i \<Longrightarrow> kept n i"
  by (auto simp: kept_def)

lemma kept_last: "kept n n \<or> n = 0"
  by (auto simp: kept_def DENSE_def)

lemma note_checkpoint_of:
  assumes r: "replay_from C EMPTY (es @ [e]) = Ok h" and len: "length (es @ [e]) < 2 ^ 64"
  shows "note_checkpoint (entry_head C e) (checkpoints_of C es) = checkpoints_of C (es @ [e])"
proof -
  let ?n = "length es"
  have idx: "unat (lh_index (head_of C (take i (es @ [e])))) = i" if "i \<le> Suc ?n" for i
    by (rule head_of_index [OF r]) (use that len in auto)
  have hd: "unat (lh_index (entry_head C e)) = Suc ?n" using idx [of "Suc ?n"] by simp
  have cps: "checkpoints_of C es @ [entry_head C e] =
      map (\<lambda>i. head_of C (take i (es @ [e]))) (filter (kept ?n) [1..<Suc ?n] @ [Suc ?n])"
    by (auto simp: checkpoints_of_def kept_indices_def)
  have "note_checkpoint (entry_head C e) (checkpoints_of C es) =
      filter (\<lambda>c. kept (Suc ?n) (unat (lh_index c))) (checkpoints_of C es @ [entry_head C e])"
    by (simp add: note_checkpoint_def kept_def hd Let_def)
  also have "\<dots> = map (\<lambda>i. head_of C (take i (es @ [e])))
      (filter (\<lambda>i. kept (Suc ?n) (unat (lh_index (head_of C (take i (es @ [e])))))) (filter (kept ?n) [1..<Suc ?n] @ [Suc ?n]))"
    unfolding cps filter_map comp_def ..
  also have "filter (\<lambda>i. kept (Suc ?n) (unat (lh_index (head_of C (take i (es @ [e])))))) (filter (kept ?n) [1..<Suc ?n] @ [Suc ?n]) =
      filter (kept (Suc ?n)) (filter (kept ?n) [1..<Suc ?n] @ [Suc ?n])"
  proof (rule filter_cong [OF refl])
    fix i assume "i \<in> set (filter (kept ?n) [1..<Suc ?n] @ [Suc ?n])"
    then have "i \<le> Suc ?n" by auto
    then show "kept (Suc ?n) (unat (lh_index (head_of C (take i (es @ [e]))))) = kept (Suc ?n) i"
      by (simp only: idx)
  qed
  also have "\<dots> = filter (kept (Suc ?n)) ([1..<Suc ?n] @ [Suc ?n])"
    by (auto intro!: filter_cong dest: kept_mono)
  finally show ?thesis by (simp add: checkpoints_of_def kept_indices_def)
qed

lemma fold_note_checkpoint:
  assumes "replay_from C EMPTY (es @ fs) = Ok h" "length (es @ fs) < 2 ^ 64"
  shows "fold (\<lambda>e. note_checkpoint (entry_head C e)) fs (checkpoints_of C es) = checkpoints_of C (es @ fs)"
  using assms
proof (induction fs arbitrary: es)
  case (Cons f fs)
  then have r: "replay_from C EMPTY ((es @ [f]) @ fs) = Ok h" and l: "length ((es @ [f]) @ fs) < 2 ^ 64"
    by auto
  from r obtain g where "replay_from C EMPTY (es @ [f]) = Ok g" unfolding replay_from_append by auto
  with l have "note_checkpoint (entry_head C f) (checkpoints_of C es) = checkpoints_of C (es @ [f])"
    by (intro note_checkpoint_of) auto
  with Cons.IH [OF r l] show ?case by simp
qed simp

section \<open>The refinement\<close>

definition store_rel :: "crypto \<Rightarrow> log_spec \<Rightarrow> log_state \<Rightarrow> bool" where
  "store_rel C a s \<longleftrightarrow> length (sp_entries a) \<le> sp_total a \<and>
    (sp_total a < 2 ^ 64 \<longrightarrow>
      s = rep C a \<and> replay_from C EMPTY (sp_entries a) = Ok (head_of C (sp_entries a)))"

lemma store_rel_apply:
  assumes "store_rel C a s"
  shows "store_rel C (spec_step C a (Apply entries now)) (snd (apply_page C entries now s))"
proof (cases "replay_from C (head_of C (sp_entries a)) entries")
  case (Ok h)
  let ?es = "sp_entries a @ entries"
  show ?thesis
  proof (cases "sp_total a + length entries < 2 ^ 64")
    case True
    with assms have s: "s = rep C a" and r: "replay_from C EMPTY (sp_entries a) = Ok (head_of C (sp_entries a))"
      and l: "length ?es < 2 ^ 64" by (auto simp: store_rel_def)
    have rr: "replay_from C EMPTY ?es = Ok h" using r Ok by (simp add: replay_from_append)
    have "snd (apply_page C entries now s) = rep C (spec_step C a (Apply entries now))"
      using Ok fold_note_checkpoint [OF rr l] replay_head_of [OF rr]
      by (simp add: apply_page_def s rep_def fold_note_latest)
    with rr replay_head_of [OF rr] assms Ok show ?thesis by (simp add: store_rel_def)
  qed (use assms Ok in \<open>simp add: store_rel_def\<close>)
next
  case (Err e)
  then have "snd (apply_page C entries now s) = s" if "s = rep C a"
    using that by (simp add: apply_page_def rep_def)
  with assms Err show ?thesis by (simp add: store_rel_def)
next
  case Panic
  then have "snd (apply_page C entries now s) = s" if "s = rep C a"
    using that by (simp add: apply_page_def rep_def)
  with assms Panic show ?thesis by (simp add: store_rel_def)
qed

lemma checkpoints_of_Nil [simp]: "checkpoints_of C [] = []"
  by (simp add: checkpoints_of_def kept_indices_def)

lemma latest_of_Nil [simp]: "latest_of [] = Map.empty"
  by (simp add: latest_of_def fun_eq_iff)

interpretation client_log: simulation True "spec_step C" "store_step C" "store_rel C" for C
proof
  fix a s x assume "store_rel C a s"
  then show "store_rel C (spec_step C a x) (store_step C s x)"
  proof (cases x)
    case (Apply entries now)
    with store_rel_apply \<open>store_rel C a s\<close> show ?thesis by simp
  qed (auto simp: store_rel_def confirm_def reset_def rep_def log_state_default_def Let_def)
qed

lemma store_start: "store_rel C spec_start log_state_default"
  by (simp add: store_rel_def spec_start_def log_state_default_def rep_def)

lemma client_state:
  assumes "sp_total (run (spec_step C) spec_start xs) < 2 ^ 64"
  shows "run (store_step C) log_state_default xs = rep C (run (spec_step C) spec_start xs)"
    "replay_from C EMPTY (sp_entries (run (spec_step C) spec_start xs)) =
      Ok (head_of C (sp_entries (run (spec_step C) spec_start xs)))"
    "length (sp_entries (run (spec_step C) spec_start xs)) < 2 ^ 64"
  using client_log.sim_run [OF TrueI store_start, of C xs] assms by (auto simp: store_rel_def)

section \<open>Positions\<close>

lemma set_kept_indices [simp]: "i \<in> set (kept_indices n) \<longleftrightarrow> 0 < i \<and> i \<le> n \<and> kept n i"
  by (auto simp: kept_indices_def)

lemma sorted_kept_indices [simp]: "sorted_wrt (<) (kept_indices n)"
  unfolding kept_indices_def by (rule sorted_wrt_filter) (rule sorted_wrt_upt)

lemma search_sorted:
  fixes js :: "nat list"
  shows "sorted_wrt (<) js \<Longrightarrow>
    length (takeWhile (\<lambda>j. j < k) js) < length js \<and> js ! length (takeWhile (\<lambda>j. j < k) js) = k \<longleftrightarrow> k \<in> set js"
  by (induction js) auto

lemma takeWhile_le:
  fixes js :: "nat list"
  shows "takeWhile (\<lambda>j. j \<le> k) js \<noteq> [] \<Longrightarrow>
    js ! (length (takeWhile (\<lambda>j. j \<le> k) js) - 1) \<in> set js \<and> js ! (length (takeWhile (\<lambda>j. j \<le> k) js) - 1) \<le> k"
proof -
  let ?w = "takeWhile (\<lambda>j. j \<le> k) js"
  assume "?w \<noteq> []"
  then have "last ?w \<in> set ?w" by simp
  moreover have "last ?w = js ! (length ?w - 1)"
    using \<open>?w \<noteq> []\<close> by (simp add: last_conv_nth takeWhile_nth)
  ultimately show ?thesis using set_takeWhileD [of "last ?w"] by metis
qed

text \<open>A replayed chain whose indices have not wrapped.\<close>

definition chain :: "crypto \<Rightarrow> log_entry list \<Rightarrow> bool" where
  "chain C es \<longleftrightarrow> replay_from C EMPTY es = Ok (head_of C es) \<and> length es < 2 ^ 64"

lemma chain_index: "chain C es \<Longrightarrow> i \<le> length es \<Longrightarrow> unat (lh_index (head_of C (take i es))) = i"
  using head_of_index by (auto simp: chain_def)

lemma chain_head_index: "chain C es \<Longrightarrow> unat (lh_index (head_of C es)) = length es"
  using chain_index [of C es "length es"] by simp

lemma partition_checkpoints:
  assumes "chain C es" "\<And>c j. j \<le> length es \<Longrightarrow> unat (lh_index c) = j \<Longrightarrow> P c \<longleftrightarrow> Q j"
  shows "partition_point P (checkpoints_of C es) =
    length (takeWhile Q (kept_indices (length es)))"
proof -
  have "takeWhile (P \<circ> (\<lambda>i. head_of C (take i es))) (kept_indices (length es)) =
      takeWhile Q (kept_indices (length es))"
  proof (rule takeWhile_cong [OF refl])
    fix i assume "i \<in> set (kept_indices (length es))"
    then have "i \<le> length es" by simp
    with assms(2) [OF this chain_index [OF assms(1) this]]
    show "(P \<circ> (\<lambda>i. head_of C (take i es))) i = Q i" by simp
  qed
  then show ?thesis by (simp add: partition_point_def checkpoints_of_def takeWhile_map)
qed

lemma hash_at_rep:
  assumes "chain C (sp_entries a)" "es = sp_entries a"
  shows "hash_at (rep C a) index =
    (if unat index \<le> length es \<and> (index = 0 \<or> kept (length es) (unat index))
     then Some (lh_hash (head_of C (take (unat index) es))) else None)"
proof -
  let ?n = "length es" and ?js = "kept_indices (length es)"
  have ch: "chain C es" using assms by simp
  have pp: "partition_point (\<lambda>c. lh_index c < index) (checkpoints_of C es) =
      length (takeWhile (\<lambda>j. j < unat index) ?js)"
    by (rule partition_checkpoints [OF ch]) (simp add: word_less_nat_alt)
  let ?i = "length (takeWhile (\<lambda>j. j < unat index) ?js)"
  have sorted: "sorted_wrt (<) ?js" by simp
  have at: "?i < length ?js \<and> lh_index (checkpoints_of C es ! ?i) = index \<longleftrightarrow> ?i < length ?js \<and> ?js ! ?i = unat index"
  proof (cases "?i < length ?js")
    case True
    then have "?js ! ?i \<in> set ?js" by (rule nth_mem)
    then have "?js ! ?i \<le> ?n" by simp
    with chain_index [OF ch this] True show ?thesis
      by (auto simp: checkpoints_of_def simp flip: word_unat_eq_iff)
  qed simp
  have mem: "unat index \<in> set ?js \<longleftrightarrow> index \<noteq> 0 \<and> unat index \<le> ?n \<and> kept ?n (unat index)"
    by (auto simp: unat_gt_0)
  have bs: "binary_search_by_index index (checkpoints_of C es) =
      (if unat index \<in> set ?js then Some ?i else None)"
  proof -
    have "length (checkpoints_of C es) = length ?js" by (simp add: checkpoints_of_def)
    then show ?thesis
      unfolding binary_search_by_index_def Let_def pp
      by (simp only: at search_sorted [OF sorted])
  qed
  have nth: "checkpoints_of C es ! ?i = head_of C (take (unat index) es)" if "unat index \<in> set ?js"
    using that search_sorted [OF sorted, of "unat index"] by (simp add: checkpoints_of_def)
  have hd: "index = lh_index (head_of C es) \<longleftrightarrow> unat index = ?n"
    using chain_head_index [OF ch] by (metis unsigned_word_eqI)
  show ?thesis
  proof (cases "index = 0 \<or> unat index = ?n")
    case True
    then show ?thesis using hd kept_last [of ?n] assms(2)
      by (auto simp: hash_at_def rep_def)
  next
    case False
    then show ?thesis using hd mem bs nth assms(2) by (auto simp: hash_at_def rep_def)
  qed
qed

lemma checkpoint_below_rep:
  assumes "chain C es" "es = sp_entries a" "unat index \<le> length es"
  obtains i where "i \<le> unat index" "i = 0 \<or> kept (length es) i"
    "checkpoint_below (rep C a) index = head_of C (take i es)"
proof -
  let ?js = "kept_indices (length es)" and ?P = "\<lambda>j. j \<le> unat index"
  have pp: "partition_point (\<lambda>c. lh_index c \<le> index) (checkpoints_of C es) = length (takeWhile ?P ?js)"
    by (rule partition_checkpoints [OF assms(1)]) (simp add: word_le_nat_alt)
  show thesis
  proof (cases "takeWhile ?P ?js = []")
    case True
    with pp assms(2) that [of 0] show thesis by (simp add: checkpoint_below_def rep_def Let_def)
  next
    case False
    let ?i = "?js ! (length (takeWhile ?P ?js) - 1)"
    have "length (takeWhile ?P ?js) - 1 < length ?js"
      using False length_takeWhile_le [of ?P ?js] by (cases "takeWhile ?P ?js") auto
    moreover have "?i \<in> set ?js" "?i \<le> unat index" using takeWhile_le [OF False] by auto
    ultimately show thesis
      using that [of ?i] False pp assms(2)
      by (simp add: checkpoint_below_def rep_def Let_def checkpoints_of_def)
  qed
qed

lemma checkpoint_above_rep:
  assumes "chain C es" "es = sp_entries a" "unat index \<le> length es"
  obtains j where "unat index \<le> j" "j \<le> length es" "j = length es \<or> kept (length es) j"
    "checkpoint_above (rep C a) index = head_of C (take j es)"
proof -
  let ?js = "kept_indices (length es)" and ?P = "\<lambda>j. j < unat index"
  have pp: "partition_point (\<lambda>c. lh_index c < index) (checkpoints_of C es) = length (takeWhile ?P ?js)"
    by (rule partition_checkpoints [OF assms(1)]) (simp add: word_less_nat_alt)
  show thesis
  proof (cases "length (takeWhile ?P ?js) < length ?js")
    case True
    let ?j = "?js ! length (takeWhile ?P ?js)"
    have mem: "?j \<in> set ?js" using True by (rule nth_mem)
    have "\<not> ?P ?j" using nth_length_takeWhile [OF True] .
    have "lh_index (head_of C (take ?j es)) \<le> lh_index (head_of C es)"
      using chain_index [OF assms(1), of ?j] chain_head_index [OF assms(1)] mem by (simp add: word_le_nat_alt)
    with True pp assms(2) mem \<open>\<not> ?P ?j\<close> that [of ?j] show thesis
      by (simp add: checkpoint_above_def rep_def Let_def checkpoints_of_def)
  next
    case False
    then have "checkpoint_above (rep C a) index = head_of C es"
      using pp assms(2) by (simp add: checkpoint_above_def rep_def Let_def checkpoints_of_def)
    with assms(3) that [of "length es"] show thesis by simp
  qed
qed

section \<open>A contact's head\<close>

lemma need_entries_bracket:
  assumes ch: "chain C es" and es: "es = sp_entries a" and k: "unat index \<le> length es"
    and none: "hash_at (rep C a) index = None"
  shows "\<exists>i j. i < unat index \<and> unat index < j \<and> j \<le> length es \<and>
    checkpoint_below (rep C a) index = head_of C (take i es) \<and>
    checkpoint_above (rep C a) index = head_of C (take j es)"
proof -
  have nk: "unat index \<noteq> 0" "\<not> kept (length es) (unat index)" "unat index \<noteq> length es"
    using hash_at_rep [of C a es index] none assms kept_last [of "length es"]
    by (auto split: if_splits simp: unat_eq_zero)
  obtain i where i: "i \<le> unat index" "i = 0 \<or> kept (length es) i"
    "checkpoint_below (rep C a) index = head_of C (take i es)"
    by (rule checkpoint_below_rep [OF ch es k])
  obtain j where j: "unat index \<le> j" "j \<le> length es" "j = length es \<or> kept (length es) j"
    "checkpoint_above (rep C a) index = head_of C (take j es)"
    by (rule checkpoint_above_rep [OF ch es k])
  have "i \<noteq> unat index" "j \<noteq> unat index" using nk i(2) j(3) by auto
  with i j have "i < unat index" "unat index < j" by auto
  with i(3) j(2,4) show ?thesis by blast
qed

lemma same_head_prefix:
  assumes ch: "chain C es" and rf: "replay_from C EMPTY fs = Ok h" and k: "length fs \<le> length es"
    and hd: "head_of C (take (length fs) es) = h" and wf: "list_all entry_wf fs" "list_all entry_wf es"
  shows "fs = take (length fs) es \<or> collision_in (sha256 C) (map entry_bytes (fs @ es))"
proof -
  have "replay_from C EMPTY (take (length fs) es) = Ok h"
    using replay_take [of C es "head_of C es"] ch k hd by (simp add: chain_def)
  moreover have "list_all entry_wf (take (length fs) es)"
    using wf(2) by (auto simp: list_all_iff dest: in_set_takeD)
  ultimately consider "fs = take (length fs) es"
    | "collision_in (sha256 C) (map entry_bytes (fs @ take (length fs) es))"
    using replay_commits [OF rf] wf(1) k by fastforce
  then show ?thesis
  proof cases
    case 2
    then have "collision_in (sha256 C) (map entry_bytes (fs @ es))"
      by (rule collision_in_mono) (auto dest: in_set_takeD)
    then show ?thesis ..
  qed simp
qed

lemma hash_at_peer:
  assumes ch: "chain C es" and es: "es = sp_entries a" and rf: "replay_from C EMPTY fs = Ok h"
    and k: "length fs \<le> length es" "unat (lh_index h) = length fs"
    and some: "hash_at (rep C a) (lh_index h) = Some g"
  shows "g = lh_hash h \<longleftrightarrow> head_of C (take (length fs) es) = h"
proof -
  have "lh_index (head_of C (take (length fs) es)) = lh_index h"
    using chain_index [OF ch k(1)] k(2) by (metis unsigned_word_eqI)
  moreover have "g = lh_hash (head_of C (take (length fs) es))"
    using hash_at_rep [of C a es "lh_index h"] some ch es k by (simp split: if_splits)
  ultimately show ?thesis by (auto intro: log_head.equality)
qed

section \<open>Properties\<close>

text \<open>
  C12. Refinement. Until indices wrap, the client's state after any sequence of pages,
  confirmations and resets is the function \<open>rep\<close> of the specification's: the head and the
  per-subject positions are those of exactly the entries accepted since the last reset, the
  checkpoints are the hashes at the dense and sparse positions of that chain, a page that does
  not chain changes nothing, and at most the last eight breaks are kept.
\<close>

theorem client_log_refines_spec:
  assumes "sp_total (run (spec_step C) spec_start xs) < 2 ^ 64"
  shows "run (store_step C) log_state_default xs = rep C (run (spec_step C) spec_start xs) \<and>
    replay C EMPTY (sp_entries (run (spec_step C) spec_start xs)) None =
      Ok (ls_head (run (store_step C) log_state_default xs))"
  using client_state [OF assms] by (simp add: replay_def rep_def)

definition demo_entry :: log_entry where
  "demo_entry = \<lparr>le_index = 1, le_prev = replicate 32 0, le_subject = replicate 32 4, le_kind = Bundle,
     le_leaf = replicate 32 5, le_at_ms = 6\<rparr>"

theorem client_log_refines_spec_witness:
  "run (store_step demo_crypto) log_state_default [Apply [demo_entry] 9] =
   rep demo_crypto (run (spec_step demo_crypto) spec_start [Apply [demo_entry] 9])"
proof -
  have "sp_total (run (spec_step demo_crypto) spec_start [Apply [demo_entry] 9]) < 2 ^ 64"
    by (simp add: spec_start_def)
  from client_log_refines_spec [OF this] show ?thesis by blast
qed

text \<open>
  C34. Which positions can be checked. A client that replayed \<open>n\<close> entries can speak to a
  position exactly if it is 0, or one of the last 4096 up to \<open>n\<close>, or a multiple of 256 up to
  \<open>n\<close>, however old; and the hash it then compares with is the chain's at that position.
\<close>

theorem can_check_exact:
  assumes "sp_total (run (spec_step C) spec_start xs) < 2 ^ 64"
  shows "let s = run (store_step C) log_state_default xs;
             es = sp_entries (run (spec_step C) spec_start xs); n = length es in
    (can_check s i \<longleftrightarrow> unat i \<le> n \<and> (unat i = 0 \<or> n < unat i + 4096 \<or> unat i mod 256 = 0)) \<and>
    (hash_at s i = Some h \<longrightarrow> h = lh_hash (head_of C (take (unat i) es)))"
proof -
  let ?a = "run (spec_step C) spec_start xs"
  have ch: "chain C (sp_entries ?a)" using client_state [OF assms] by (simp add: chain_def)
  have "i = lh_index (head_of C (sp_entries ?a)) \<longleftrightarrow> unat i = length (sp_entries ?a)"
    using chain_head_index [OF ch] by (metis unsigned_word_eqI)
  then show ?thesis
    using client_state(1) [OF assms] hash_at_rep [OF ch refl, of i]
    by (auto simp: can_check_def Let_def kept_def DENSE_def SPARSE_def rep_def unat_eq_zero)
qed

theorem can_check_exact_witness:
  "can_check (run (store_step demo_crypto) log_state_default [Apply [demo_entry] 9]) 1"
proof -
  have r: "replay_from demo_crypto EMPTY [demo_entry] = Ok (entry_head demo_crypto demo_entry)"
    by (simp add: follows_def demo_entry_def EMPTY_def)
  have "sp_total (run (spec_step demo_crypto) spec_start [Apply [demo_entry] 9]) < 2 ^ 64"
    by (simp add: spec_start_def)
  from can_check_exact [OF this, of 1] show ?thesis
    using r by (simp add: Let_def spec_start_def del: replay_from.simps)
qed

text \<open>
  C35. What the verdict on a contact's head means. Let the contact have replayed the log \<open>fs\<close>
  to the head it sent, and this client the log \<open>es\<close>. Consistent: the contact's log is a
  prefix of this client's, or entries of the two are a SHA-256 collision. Fork: it is not a
  prefix. Ahead: it is longer. Otherwise the two heads asked about lie on this client's chain,
  one below the contact's position and one above it.
\<close>

theorem peer_head_verdict:
  assumes "sp_total (run (spec_step C) spec_start xs) < 2 ^ 64"
    and "replay C EMPTY fs None = Ok h" "length fs < 2 ^ 64"
    and "list_all entry_wf fs" "list_all entry_wf (sp_entries (run (spec_step C) spec_start xs))"
  shows "let es = sp_entries (run (spec_step C) spec_start xs) in
    case check_peer_head (run (store_step C) log_state_default xs) h of
      Consistent \<Rightarrow> length fs \<le> length es \<and>
        (fs = take (length fs) es \<or> collision_in (sha256 C) (map entry_bytes (fs @ es)))
    | HeadFork at \<Rightarrow> unat at = length fs \<and> length fs \<le> length es \<and> fs \<noteq> take (length fs) es
    | Ahead \<Rightarrow> length es < length fs
    | NeedEntries lo hi \<Rightarrow> \<exists>i j. i < length fs \<and> length fs < j \<and> j \<le> length es \<and>
        lo = head_of C (take i es) \<and> hi = head_of C (take j es)"
proof -
  let ?a = "run (spec_step C) spec_start xs" and ?es = "sp_entries (run (spec_step C) spec_start xs)"
  have ch: "chain C ?es" and s: "run (store_step C) log_state_default xs = rep C ?a"
    using client_state [OF assms(1)] by (simp_all add: chain_def)
  have rf: "replay_from C EMPTY fs = Ok h" using assms(2) by (simp add: replay_def)
  have hk: "unat (lh_index h) = length fs"
    using head_of_index [OF rf order_refl assms(3)] replay_head_of [OF rf] by simp
  have pos: "lh_index (ls_head (rep C ?a)) < lh_index h \<longleftrightarrow> length ?es < length fs"
    using chain_head_index [OF ch] hk by (simp add: rep_def word_less_nat_alt)
  show ?thesis
  proof (cases "length ?es < length fs")
    case True
    then show ?thesis using pos by (simp add: s check_peer_head_def)
  next
    case False
    then have le: "length fs \<le> length ?es" by simp
    show ?thesis
    proof (cases "hash_at (rep C ?a) (lh_index h)")
      case None
      with need_entries_bracket [OF ch refl _ None] le hk pos False show ?thesis
        by (simp add: s check_peer_head_def Let_def)
    next
      case (Some g)
      note eq = hash_at_peer [OF ch refl rf le hk Some]
      have "fs \<noteq> take (length fs) ?es" if "g \<noteq> lh_hash h"
        using that eq replay_head_of [OF rf] by metis
      with Some eq same_head_prefix [OF ch rf le _ assms(4,5)] pos False le hk show ?thesis
        by (simp add: s check_peer_head_def Let_def)
    qed
  qed
qed

theorem peer_head_verdict_witness:
  "check_peer_head (run (store_step demo_crypto) log_state_default [Apply [demo_entry] 9]) EMPTY \<noteq> Ahead"
proof -
  have "sp_total (run (spec_step demo_crypto) spec_start [Apply [demo_entry] 9]) < 2 ^ 64"
    "list_all entry_wf (sp_entries (run (spec_step demo_crypto) spec_start [Apply [demo_entry] 9]))"
    by (simp_all add: spec_start_def entry_wf_def demo_entry_def)
  with peer_head_verdict [where C = demo_crypto and xs = "[Apply [demo_entry] 9]" and fs = "[]" and h = EMPTY]
  show ?thesis by (auto simp: replay_def Let_def split: head_check.splits)
qed

lemma check_lookup_bundle:
  "check_lookup C s user (Some b) rvk suc claimed = Ok () \<Longrightarrow>
    \<exists>p. Option.bind (latest_in C s user) lt_bundle = Some p \<and> lp_leaf p = bundle_leaf C b"
  by (auto simp: check_lookup_def Let_def split: option.splits if_splits)

lemma check_lookup_revocation:
  "check_lookup C s user b rvk suc claimed = Ok () \<Longrightarrow>
    map_option lp_leaf (Option.bind (latest_in C s user) lt_revocation) = map_option (revocation_leaf C) rvk"
  by (auto simp: check_lookup_def Let_def split: option.splits if_splits)

text \<open>
  C7. No equivocation. Two clients that stand at the same head, and each accepted what a lookup
  of the same user showed it, were shown the same bundle in everything its leaf covers, and
  neither was told of a revocation the other was not; or entries of their logs, or the two
  bundles, are a SHA-256 collision. A relay that shows two people different keys is caught as
  soon as their heads are compared.
\<close>

theorem same_head_same_answer:
  assumes "sp_total (run (spec_step C) spec_start xs) < 2 ^ 64"
    and "sp_total (run (spec_step C) spec_start ys) < 2 ^ 64"
    and "es = sp_entries (run (spec_step C) spec_start xs)" "list_all entry_wf es"
    and "fs = sp_entries (run (spec_step C) spec_start ys)" "list_all entry_wf fs"
    and "s = run (store_step C) log_state_default xs" "s' = run (store_step C) log_state_default ys"
    and "ls_head s = ls_head s'"
    and "check_lookup C s user (Some b) rvk suc claimed = Ok ()" "bundle_fits b"
    and "check_lookup C s' user (Some b') rvk' suc' claimed' = Ok ()" "bundle_fits b'"
  shows "same_covered (LBundle b) (LBundle b') \<and> (rvk = None \<longleftrightarrow> rvk' = None) \<or>
    collision_in (sha256 C) (map entry_bytes (es @ fs) @ [bundle_leaf_bytes b, bundle_leaf_bytes b'])"
proof -
  have s: "s = rep C (run (spec_step C) spec_start xs)" "s' = rep C (run (spec_step C) spec_start ys)"
    and ch: "chain C es" "chain C fs"
    using client_state [OF assms(1)] client_state [OF assms(2)] assms(3,5,7,8) by (simp_all add: chain_def)
  have hd: "head_of C es = head_of C fs" using s assms(3,5,9) by (simp add: rep_def)
  then have len: "length es = length fs" using chain_head_index [OF ch(1)] chain_head_index [OF ch(2)] by simp
  consider "es = fs" | "collision_in (sha256 C) (map entry_bytes (es @ fs))"
    using replay_commits [of C EMPTY es "head_of C es" fs] ch hd len assms(4,6) by (auto simp: chain_def)
  then show ?thesis
  proof cases
    case 1
    then have lat: "latest_in C s = latest_in C s'"
      using s assms(3,5) by (simp add: latest_in_def rep_def fun_eq_iff)
    have leaf: "bundle_leaf C b = bundle_leaf C b'"
      using check_lookup_bundle [OF assms(10)] check_lookup_bundle [OF assms(12)] unfolding lat by force
    have "map_option (revocation_leaf C) rvk = map_option (revocation_leaf C) rvk'"
      using check_lookup_revocation [OF assms(10)] check_lookup_revocation [OF assms(12)]
      unfolding lat by (rule trans [OF sym])
    then have rv: "rvk = None \<longleftrightarrow> rvk' = None" by (cases rvk; cases rvk') simp_all
    show ?thesis
    proof (cases "bundle_leaf_bytes b = bundle_leaf_bytes b'")
      case True
      from bundle_leaf_bytes_inj [OF assms(11,13) this] rv show ?thesis
        by (intro disjI1) (simp add: same_covered_views del: same_covered.simps(1))
    next
      case False
      with leaf show ?thesis
        by (intro disjI2 collision_inI [of _ "bundle_leaf_bytes b" "bundle_leaf_bytes b'"])
          (simp_all add: bundle_leaf_def)
    qed
  next
    case 2
    then have "collision_in (sha256 C) (map entry_bytes (es @ fs) @ [bundle_leaf_bytes b, bundle_leaf_bytes b'])"
      by (rule collision_in_mono) auto
    then show ?thesis ..
  qed
qed

definition demo_bundle :: key_bundle where
  "demo_bundle = identity_key_bundle demo_crypto (demo_identity 1)"

definition demo_bundle_entry :: log_entry where
  "demo_bundle_entry = \<lparr>le_index = 1, le_prev = replicate 32 0,
     le_subject = subject demo_crypto (kb_user_id demo_bundle), le_kind = Bundle,
     le_leaf = bundle_leaf demo_crypto demo_bundle, le_at_ms = 6\<rparr>"

lemma demo_bundle_fits: "bundle_fits demo_bundle"
  by (simp add: bundle_fits_def bundle_view_fits_def bundle_view_def devices_view_def demo_bundle_def
      identity_key_bundle_def Let_def identity_user_id_def identity_dh_public_def identity_sign_def)

lemma demo_bundle_spec:
  "run (spec_step demo_crypto) spec_start [Apply [demo_bundle_entry] 9] =
    \<lparr>sp_entries = [demo_bundle_entry], sp_breaks = [], sp_time = 9, sp_total = 1\<rparr>"
  by (simp add: spec_start_def follows_def demo_bundle_entry_def EMPTY_def)

theorem same_head_same_answer_witness:
  "same_covered (LBundle demo_bundle) (LBundle demo_bundle) \<or>
   collision_in (sha256 demo_crypto)
     (map entry_bytes [demo_bundle_entry, demo_bundle_entry] @
       [bundle_leaf_bytes demo_bundle, bundle_leaf_bytes demo_bundle])"
proof -
  let ?xs = "[Apply [demo_bundle_entry] 9]" and ?u = "kb_user_id demo_bundle"
  have tot: "sp_total (run (spec_step demo_crypto) spec_start ?xs) < 2 ^ 64"
    unfolding demo_bundle_spec by simp
  have wf: "list_all entry_wf (sp_entries (run (spec_step demo_crypto) spec_start ?xs))"
    unfolding demo_bundle_spec by (simp add: entry_wf_def demo_bundle_entry_def subject_def bundle_leaf_def)
  have "check_lookup demo_crypto (run (store_step demo_crypto) log_state_default ?xs) ?u
      (Some demo_bundle) None None None = Ok ()"
    unfolding client_state(1) [OF tot] demo_bundle_spec
    by (simp add: check_lookup_def latest_in_def rep_def latest_of_def position_of_def of_kind_def
        demo_bundle_entry_def Let_def)
  from same_head_same_answer [OF tot tot refl wf refl wf refl refl refl this demo_bundle_fits this demo_bundle_fits]
  show ?thesis unfolding demo_bundle_spec by simp
qed

end
