(* ===== verification/Sequence.thy ===== *)
theory Sequence
  imports Prelude
begin

text \<open>
  The replay check on incoming sequence numbers (\<^verbatim>\<open>silver-client/src/sequence.rs\<close>): what is
  remembered of a sender (the highest number accepted, a window of 64 bits for the numbers
  below it, where the previous epoch ended), the verdict on an incoming number and the record
  of an accepted one. Shown here: under what steps a number once accepted stays refused, and
  the three situations in which the check does not do what it is for.
\<close>

unbundle bit_operations_syntax

section \<open>Definitions\<close>

definition WINDOW :: u64 where "WINDOW = 64"

record sequence =
  sq_epoch :: u64
  sq_seq :: u64

record seen =
  sn_last :: sequence
  sn_window :: u64
  sn_previous :: "sequence option"

datatype sequence_check =
    Fresh | Late | NewEpoch | Replay | Gap u64 | Legacy

definition accepted :: "sequence_check \<Rightarrow> bool" where
  "accepted c \<longleftrightarrow> c \<noteq> Replay"

text \<open>
  \<open>1 << (behind - 1)\<close> is bit \<open>behind - 1\<close>. The comparison with \<open>last.seq + 1\<close> overflows when
  the highest number is the largest there is.
\<close>

definition check :: "seen option \<Rightarrow> sequence \<Rightarrow> (sequence_check, string) res" where
  "check seen incoming =
    (if sq_seq incoming = 0 then Ok Legacy
     else case seen of
       None \<Rightarrow> Ok Fresh
     | Some st \<Rightarrow>
         if sq_epoch (sn_last st) \<noteq> sq_epoch incoming then
           (case sn_previous st of
              Some previous \<Rightarrow>
                if sq_epoch previous = sq_epoch incoming \<and> sq_seq incoming \<le> sq_seq previous
                then Ok Replay else Ok NewEpoch
            | None \<Rightarrow> Ok NewEpoch)
         else if sq_seq incoming = sq_seq (sn_last st) then Ok Replay
         else if sq_seq (sn_last st) = - 1 then Panic
         else if sq_seq incoming > sq_seq (sn_last st) + 1 then
           Ok (Gap (sq_seq incoming - sq_seq (sn_last st) - 1))
         else if sq_seq incoming > sq_seq (sn_last st) then Ok Fresh
         else
           let behind = sq_seq (sn_last st) - sq_seq incoming in
           if behind \<le> WINDOW \<and> sn_window st AND push_bit (unat (behind - 1)) 1 = 0
           then Ok Late else Ok Replay)"

definition note_seq :: "seen option \<Rightarrow> sequence \<Rightarrow> seen option" where
  "note_seq seen incoming =
    (if sq_seq incoming = 0 then seen
     else case seen of
       None \<Rightarrow> Some \<lparr>sn_last = incoming, sn_window = 0, sn_previous = None\<rparr>
     | Some st \<Rightarrow>
         if sq_epoch (sn_last st) \<noteq> sq_epoch incoming then
           Some \<lparr>sn_last = incoming, sn_window = 0, sn_previous = Some (sn_last st)\<rparr>
         else if sq_seq incoming > sq_seq (sn_last st) then
           let step = sq_seq incoming - sq_seq (sn_last st) in
           Some (st\<lparr>sn_window := (if WINDOW \<le> step then 0
                     else push_bit (unat step) (sn_window st) OR push_bit (unat (step - 1)) 1),
                    sn_last := incoming\<rparr>)
         else
           let behind = sq_seq (sn_last st) - sq_seq incoming in
           if 1 \<le> behind \<and> behind \<le> WINDOW
           then Some (st\<lparr>sn_window := sn_window st OR push_bit (unat (behind - 1)) 1\<rparr>)
           else Some st)"

text \<open>A message is recorded when the check accepts it, as the client does.\<close>

definition receive :: "seen option \<Rightarrow> sequence \<Rightarrow> seen option" where
  "receive seen incoming =
    (case check seen incoming of Ok c \<Rightarrow> if accepted c then note_seq seen incoming else seen | _ \<Rightarrow> seen)"

text \<open>The numbered message a step accepts.\<close>

definition takes :: "seen option \<Rightarrow> sequence \<Rightarrow> sequence option" where
  "takes seen incoming =
    (case check seen incoming of
       Ok c \<Rightarrow> if accepted c \<and> sq_seq incoming \<noteq> 0 then Some incoming else None
     | _ \<Rightarrow> None)"

definition refused :: "seen option \<Rightarrow> sequence \<Rightarrow> bool" where
  "refused seen k \<longleftrightarrow> takes seen k = None"

text \<open>
  The steps through which a refused number stays refused: nothing is accepted; the sender's
  epoch goes on, and not by exactly 64 from the number itself; or the sender moves on from the
  number's epoch to another.
\<close>

definition remembers :: "sequence \<Rightarrow> seen option \<Rightarrow> sequence \<Rightarrow> bool" where
  "remembers k seen x \<longleftrightarrow>
    (case takes seen x of
       None \<Rightarrow> True
     | Some _ \<Rightarrow>
         (case seen of
            None \<Rightarrow> True
          | Some st \<Rightarrow>
              if sq_epoch x = sq_epoch (sn_last st)
              then \<not> (k = sn_last st \<and> sq_seq x - sq_seq k = 64)
              else sq_epoch k = sq_epoch (sn_last st)))"

section \<open>Bits of the window\<close>

lemma refused_same_epoch:
  assumes "sq_epoch (sn_last st) = sq_epoch k" "sq_seq k \<noteq> 0"
  shows "refused (Some st) k \<longleftrightarrow>
    sq_seq k = sq_seq (sn_last st) \<or> sq_seq (sn_last st) = - 1 \<or>
    sq_seq k < sq_seq (sn_last st) \<and>
      (64 < unat (sq_seq (sn_last st)) - unat (sq_seq k) \<or>
       bit (sn_window st) (unat (sq_seq (sn_last st)) - unat (sq_seq k) - 1))"
proof (cases "sq_seq k < sq_seq (sn_last st)")
  case True
  let ?b = "sq_seq (sn_last st) - sq_seq k"
  have b: "unat ?b = unat (sq_seq (sn_last st)) - unat (sq_seq k)"
    using True by (intro unat_sub) simp
  have "?b \<noteq> 0" using True by auto
  then have "unat (?b - 1) = unat ?b - 1" by (rule unat_minus_one)
  moreover have "\<not> sq_seq (sn_last st) + 1 < sq_seq k" if "sq_seq (sn_last st) \<noteq> - 1"
    using True unat_plus_one [OF that] by (simp add: word_less_nat_alt)
  ultimately show ?thesis
    using True assms b
    by (auto simp: refused_def takes_def accepted_def check_def Let_def and_exp_eq_0_iff_not_bit WINDOW_def
        word_le_nat_alt)
next
  case False
  then have "sq_seq k = sq_seq (sn_last st) \<or> sq_seq (sn_last st) < sq_seq k" by auto
  then show ?thesis using assms
    by (auto simp: refused_def takes_def accepted_def check_def Let_def)
qed

lemma refused_other_epoch:
  assumes "sq_epoch (sn_last st) \<noteq> sq_epoch k" "sq_seq k \<noteq> 0"
  shows "refused (Some st) k \<longleftrightarrow>
    (\<exists>p. sn_previous st = Some p \<and> sq_epoch p = sq_epoch k \<and> sq_seq k \<le> sq_seq p)"
  using assms by (auto simp: refused_def takes_def accepted_def check_def split: option.splits)

lemma refused_zero [simp]: "sq_seq k = 0 \<Longrightarrow> refused s k"
  by (simp add: refused_def takes_def check_def)

lemma refused_None [simp]: "refused None k \<longleftrightarrow> sq_seq k = 0"
  by (simp add: refused_def takes_def check_def accepted_def)

lemma receive_takes: "takes s x = Some k \<Longrightarrow> k = x \<and> sq_seq x \<noteq> 0 \<and> receive s x = note_seq s x"
  by (auto simp: takes_def receive_def split: res.splits if_splits)

lemma receive_refused: "refused s x \<Longrightarrow> receive s x = s"
  by (auto simp: refused_def takes_def receive_def note_seq_def split: res.splits if_splits)

text \<open>The new window after the highest number moved up by \<open>d\<close>, bit by bit.\<close>

lemma window_up:
  assumes "0 < d" "d < 64" "i < 64"
  shows "bit (push_bit d (w :: u64) OR push_bit (d - 1) 1) i \<longleftrightarrow> i = d - 1 \<or> d \<le> i \<and> bit w (i - d)"
  using assms by (auto simp: bit_or_iff bit_push_bit_iff bit_1_iff bit_exp_iff)

lemma refused_after_up:
  assumes ep: "sq_epoch (sn_last st) = sq_epoch x" "sq_epoch k = sq_epoch x"
    and up: "sq_seq (sn_last st) < sq_seq x" and ref: "refused (Some st) k" and k: "sq_seq k \<noteq> 0"
    and last: "\<not> (k = sn_last st \<and> sq_seq x - sq_seq k = 64)" and ok: "sq_seq (sn_last st) \<noteq> - 1"
  shows "refused (note_seq (Some st) x) k"
proof -
  let ?l = "unat (sq_seq (sn_last st))" and ?x = "unat (sq_seq x)" and ?k = "unat (sq_seq k)"
  have x0: "sq_seq x \<noteq> 0" using up by auto
  have d: "unat (sq_seq x - sq_seq (sn_last st)) = ?x - ?l" using up by (intro unat_sub) simp
  have lx: "?l < ?x" using up by (simp add: word_less_nat_alt)
  have d1: "unat (sq_seq x - sq_seq (sn_last st) - 1) = ?x - ?l - 1"
    using lx d by (subst unat_minus_one) auto
  have kl: "?k \<le> ?l" using ref ok refused_same_epoch [of st k] ep k by (auto simp: word_less_nat_alt)
  let ?st = "st\<lparr>sn_window := (if 64 \<le> ?x - ?l then 0
       else push_bit (?x - ?l) (sn_window st) OR push_bit (?x - ?l - 1) 1), sn_last := x\<rparr>"
  have st: "note_seq (Some st) x = Some ?st"
    using ep up x0 d d1 by (simp add: note_seq_def Let_def WINDOW_def word_le_nat_alt)
  have "bit (sn_window ?st) (?x - ?k - 1)" if near: "?x - ?k \<le> 64"
  proof (cases "?k = ?l")
    case True
    then have "k = sn_last st" using ep by (intro sequence.equality) (auto simp: word_unat_eq_iff)
    then have "unat (sq_seq x - sq_seq (sn_last st)) \<noteq> unat (64 :: u64)"
      using last by (metis unsigned_word_eqI)
    then have "?x - ?l \<noteq> 64" using d by simp
    then show ?thesis
      using window_up [of "?x - ?l" "?x - ?k - 1" "sn_window st"] True near lx by simp
  next
    case False
    then have "bit (sn_window st) (?l - ?k - 1)" "?k < ?l"
      using ref ok refused_same_epoch [of st k] ep k kl near lx by (auto simp: word_less_nat_alt)
    moreover have "?x - ?l < 64" using near kl False lx by simp
    moreover have "?x - ?k - 1 - (?x - ?l) = ?l - ?k - 1" "?x - ?l \<le> ?x - ?k - 1" "?x - ?k - 1 < 64"
      using lx \<open>?k < ?l\<close> near by auto
    ultimately show ?thesis
      using window_up [of "?x - ?l" "?x - ?k - 1" "sn_window st"] near lx by simp
  qed
  then show ?thesis
    using refused_same_epoch [of ?st k] ep k kl lx by (auto simp: st word_less_nat_alt)
qed

lemma refused_after_late:
  assumes ep: "sq_epoch (sn_last st) = sq_epoch x" and x0: "sq_seq x \<noteq> 0"
    and below: "sq_seq x < sq_seq (sn_last st)"
  shows "\<exists>w. note_seq (Some st) x = Some (st\<lparr>sn_window := w\<rparr>) \<and>
    (\<forall>i. bit (sn_window st) i \<longrightarrow> bit w i) \<and>
    (unat (sq_seq (sn_last st)) - unat (sq_seq x) \<le> 64 \<longrightarrow>
      bit w (unat (sq_seq (sn_last st)) - unat (sq_seq x) - 1))"
proof -
  let ?b = "sq_seq (sn_last st) - sq_seq x"
  have b: "unat ?b = unat (sq_seq (sn_last st)) - unat (sq_seq x)"
    using below by (intro unat_sub) simp
  have nz: "?b \<noteq> 0" using below by auto
  then have b1: "unat (?b - 1) = unat ?b - 1" by (rule unat_minus_one)
  have "unat ?b \<noteq> 0" using nz by (simp only: unat_eq_zero simp_thms)
  then have "1 \<le> ?b" by (simp add: word_le_nat_alt)
  then show ?thesis
    using ep x0 below b b1
    by (intro exI [of _ "if ?b \<le> WINDOW then sn_window st OR push_bit (unat (?b - 1)) 1 else sn_window st"])
      (auto simp: note_seq_def Let_def bit_or_iff bit_exp_iff WINDOW_def word_le_nat_alt)
qed

lemma takes_now_refused:
  assumes "takes s x = Some k"
  shows "refused (receive s x) k"
proof -
  from receive_takes [OF assms] have k: "k = x" "sq_seq x \<noteq> 0" "receive s x = note_seq s x" by auto
  show ?thesis
  proof (cases s)
    case None
    with k show ?thesis by (simp add: note_seq_def refused_same_epoch)
  next
    case (Some st)
    consider (other) "sq_epoch (sn_last st) \<noteq> sq_epoch x" | (up) "sq_epoch (sn_last st) = sq_epoch x" "sq_seq (sn_last st) < sq_seq x"
      | (late) "sq_epoch (sn_last st) = sq_epoch x" "sq_seq x < sq_seq (sn_last st)"
      using assms k Some by (fastforce simp: takes_def check_def accepted_def split: if_splits)
    then show ?thesis
    proof cases
      case late
      from refused_after_late [OF late(1) k(2) late(2)] late k Some show ?thesis
        by (auto simp: refused_same_epoch)
    qed (use Some k in \<open>auto simp: note_seq_def refused_same_epoch Let_def\<close>)
  qed
qed

lemma refused_kept:
  assumes ref: "refused s k" and rem: "remembers k s x"
  shows "refused (receive s x) k"
proof (cases "takes s x")
  case None
  then show ?thesis using ref receive_refused [of s x] by (simp add: refused_def)
next
  case (Some y)
  from receive_takes [OF Some] have x: "sq_seq x \<noteq> 0" "receive s x = note_seq s x" by auto
  show ?thesis
  proof (cases "sq_seq k = 0 \<or> s = None")
    case False
    then obtain st where s: "s = Some st" and k: "sq_seq k \<noteq> 0" by auto
    show ?thesis
    proof (cases "sq_epoch x = sq_epoch (sn_last st)")
      case same: True
      have nmax: "sq_seq (sn_last st) \<noteq> - 1"
        using Some s same x by (auto simp: takes_def check_def accepted_def split: if_splits)
      have ne: "sq_seq x \<noteq> sq_seq (sn_last st)"
        using Some s same x by (auto simp: takes_def check_def accepted_def split: if_splits)
      show ?thesis
      proof (cases "sq_epoch k = sq_epoch x")
        case ke: True
        show ?thesis
        proof (cases "sq_seq (sn_last st) < sq_seq x")
          case True
          with refused_after_up [of st x k] same ke ref k s rem Some nmax x show ?thesis
            by (simp add: remembers_def)
        next
          case False
          with ne have "sq_seq x < sq_seq (sn_last st)" by simp
          from refused_after_late [OF same [symmetric] x(1) this] ref k s ke same x show ?thesis
            by (auto simp: refused_same_epoch)
        qed
      next
        case False
        have "\<exists>st'. note_seq s x = Some st' \<and> sn_previous st' = sn_previous st \<and> sq_epoch (sn_last st') = sq_epoch x"
          using s same x(1) by (auto simp: note_seq_def Let_def)
        with False ref k s same x show ?thesis by (auto simp: refused_other_epoch)
      qed
    next
      case False
      then have ke: "sq_epoch k = sq_epoch (sn_last st)" using rem Some s by (simp add: remembers_def)
      then have "sq_seq k \<le> sq_seq (sn_last st)"
        using ref k s by (auto simp: refused_same_epoch)
      with False ke k s x show ?thesis by (simp add: note_seq_def refused_other_epoch)
    qed
  qed (use ref in auto)
qed

interpretation replay_window: one_time True receive None "\<lambda>_. True" takes refused remembers
proof
  fix s x k assume "takes s x = Some k"
  then show "\<not> refused s k" using receive_takes [of s x k] by (auto simp: refused_def)
qed (auto simp: takes_now_refused refused_kept)

section \<open>Properties\<close>

text \<open>
  C9. No numbered message is accepted twice, whatever envelope id it comes back under: in any
  history of incoming messages after any other, a message is accepted at most once, as long as
  every step remembers it. A step does so unless it raises the highest number by exactly 64
  from that message, or it takes up another epoch while the message's own is not the sender's
  current one.
\<close>

theorem message_accepted_once:
  assumes "False \<notin> set (trace receive (remembers k) (run receive None xs) ys)"
  shows "count_list (trace receive takes (run receive None xs) ys) (Some k) \<le> 1"
  by (rule replay_window.handed_once [OF TrueI assms])

definition msg :: "u64 \<Rightarrow> u64 \<Rightarrow> sequence" where
  "msg e n = \<lparr>sq_epoch = e, sq_seq = n\<rparr>"

theorem message_accepted_once_witness:
  "count_list (trace receive takes None [msg 5 2, msg 5 4, msg 5 3, msg 5 2, msg 5 3]) (Some (msg 5 3)) \<le> 1"
  using message_accepted_once [of "msg 5 3" "[]" "[msg 5 2, msg 5 4, msg 5 3, msg 5 2, msg 5 3]"]
  by (simp add: remembers_def takes_def receive_def check_def note_seq_def accepted_def msg_def WINDOW_def
      word_less_nat_alt)

lemma below_no_gap: "y < x \<Longrightarrow> x \<noteq> - 1 \<Longrightarrow> \<not> x + 1 < y" for x y :: u64
proof
  assume y: "y < x" "x \<noteq> - 1" "x + 1 < y"
  have "unat x < 2 ^ 64 - 1"
    using y(2) unsigned_less [where ?'a = nat and w = x]
    by (auto simp: word_unat_eq_iff unsigned_minus_1_eq_mask mask_eq_exp_minus_1)
  then have "unat (x + 1) = unat x + 1" by (simp add: unat_word_ariths)
  with y(1,3) show False by (simp add: word_less_nat_alt)
qed

text \<open>
  C36. The three situations the check does not cover, in whatever state they arise. (1) When
  the highest number rises by exactly 64, the message that was highest is forgotten, although
  it is the oldest of the 64 the window stands for, and is accepted again as late. (2) When the
  sender's numbering returns to its previous epoch past where that ended, the window starts
  empty, and every number of that epoch within 64 below is accepted as late, those accepted
  before included. (3) Once a sender has sent the largest number, every other number of that
  epoch makes the check panic.
\<close>

theorem replay_window_gaps:
  assumes "sq_seq (sn_last st) \<noteq> 0"
  shows "(sq_epoch x = sq_epoch (sn_last st) \<and> unat (sq_seq x) = unat (sq_seq (sn_last st)) + 64 \<and>
      sq_seq x \<noteq> - 1 \<longrightarrow>
      check (Some st) x = Ok (Gap 63) \<and> check (receive (Some st) x) (sn_last st) = Ok Late) \<and>
    (sn_previous st = Some p \<and> sq_epoch p \<noteq> sq_epoch (sn_last st) \<and> sq_epoch x = sq_epoch p \<and>
      sq_seq p < sq_seq x \<and> sq_seq x \<noteq> - 1 \<and>
      sq_epoch y = sq_epoch p \<and> 0 < sq_seq y \<and> sq_seq y < sq_seq x \<and> unat (sq_seq x) - unat (sq_seq y) \<le> 64 \<longrightarrow>
      check (Some st) x = Ok NewEpoch \<and> check (receive (Some st) x) y = Ok Late) \<and>
    (sq_seq (sn_last st) = - 1 \<and> sq_epoch y = sq_epoch (sn_last st) \<and> sq_seq y \<noteq> 0 \<and> sq_seq y \<noteq> - 1 \<longrightarrow>
      check (Some st) y = Panic)"
proof (intro conjI impI; (elim conjE)?)
  assume x: "sq_epoch x = sq_epoch (sn_last st)" "unat (sq_seq x) = unat (sq_seq (sn_last st)) + 64" "sq_seq x \<noteq> - 1"
  have d: "sq_seq x = sq_seq (sn_last st) + 64" using x(2) unsigned_less [where ?'a = nat and w = "sq_seq x"] by (simp add: word_unat_eq_iff unat_word_ariths)
  have nz: "sq_seq x \<noteq> 0" using x(2) by auto
  have gt: "sq_seq (sn_last st) < sq_seq x" "sq_seq (sn_last st) + 1 < sq_seq x" "sq_seq (sn_last st) \<noteq> - 1"
    using x(2) unsigned_less [where ?'a = nat and w = "sq_seq x"] by (auto simp: word_less_nat_alt unat_word_ariths unsigned_minus_1_eq_mask mask_eq_exp_minus_1)
  show gap: "check (Some st) x = Ok (Gap 63)"
    using x(1) gt nz d by (auto simp: check_def)
  then have "receive (Some st) x = Some (st\<lparr>sn_window := 0, sn_last := x\<rparr>)"
    using x(1) gt nz d by (simp add: receive_def accepted_def note_seq_def Let_def WINDOW_def)
  then show "check (receive (Some st) x) (sn_last st) = Ok Late"
    using assms x(1,3) gt(1) below_no_gap [OF gt(1) x(3)] d by (auto simp: check_def Let_def WINDOW_def)
next
  assume p: "sn_previous st = Some p" "sq_epoch p \<noteq> sq_epoch (sn_last st)" "sq_epoch x = sq_epoch p"
    "sq_seq p < sq_seq x" "sq_seq x \<noteq> - 1"
  have nz: "sq_seq x \<noteq> 0" using p(4) by auto
  show new: "check (Some st) x = Ok NewEpoch"
    using p nz by (auto simp: check_def)
  then have r: "receive (Some st) x = Some \<lparr>sn_last = x, sn_window = 0, sn_previous = Some (sn_last st)\<rparr>"
    using p nz by (simp add: receive_def accepted_def note_seq_def)
  assume y: "sq_epoch y = sq_epoch p" "0 < sq_seq y" "sq_seq y < sq_seq x" "unat (sq_seq x) - unat (sq_seq y) \<le> 64"
  have "\<not> sq_seq x + 1 < sq_seq y" using y(3) p(5) by (rule below_no_gap)
  moreover have "sq_seq x - sq_seq y \<le> 64"
    using y(4) unat_sub [OF less_imp_le [OF y(3)]] by (simp add: word_le_nat_alt)
  ultimately show "check (receive (Some st) x) y = Ok Late"
    using r p y by (auto simp: check_def Let_def WINDOW_def)
next
  assume "sq_seq (sn_last st) = - 1" "sq_epoch y = sq_epoch (sn_last st)" "sq_seq y \<noteq> 0" "sq_seq y \<noteq> - 1"
  then show "check (Some st) y = Panic" by (simp add: check_def)
qed

theorem replay_window_gaps_witness:
  "takes None (msg 5 2) = Some (msg 5 2) \<and>
     check (run receive None [msg 5 2, msg 5 66]) (msg 5 2) = Ok Late \<and>
   takes None (msg 5 10) = Some (msg 5 10) \<and>
     check (run receive None [msg 5 10, msg 6 3, msg 5 11]) (msg 5 10) = Ok Late \<and>
   check (run receive None [msg 5 (- 1)]) (msg 5 2) = Panic"
proof -
  have s: "run receive None [msg 5 2] = Some \<lparr>sn_last = msg 5 2, sn_window = 0, sn_previous = None\<rparr>"
    "run receive None [msg 5 10, msg 6 3] =
      Some \<lparr>sn_last = msg 6 3, sn_window = 0, sn_previous = Some (msg 5 10)\<rparr>"
    "run receive None [msg 5 (- 1)] = Some \<lparr>sn_last = msg 5 (- 1), sn_window = 0, sn_previous = None\<rparr>"
    by (simp_all add: receive_def check_def note_seq_def accepted_def msg_def)
  have "takes None (msg 5 2) = Some (msg 5 2)" "takes None (msg 5 10) = Some (msg 5 10)"
    by (simp_all add: takes_def check_def accepted_def msg_def)
  moreover have "check (run receive None ([msg 5 2] @ [msg 5 66])) (msg 5 2) = Ok Late"
    using replay_window_gaps [of "\<lparr>sn_last = msg 5 2, sn_window = 0, sn_previous = None\<rparr>" "msg 5 66"]
    unfolding run_append s by (simp add: msg_def)
  moreover have "check (run receive None ([msg 5 10, msg 6 3] @ [msg 5 11])) (msg 5 10) = Ok Late"
    using replay_window_gaps [of "\<lparr>sn_last = msg 6 3, sn_window = 0, sn_previous = Some (msg 5 10)\<rparr>"
        "msg 5 11" "msg 5 10" "msg 5 10"]
    unfolding run_append s by (simp add: msg_def word_less_nat_alt)
  moreover have "check (run receive None [msg 5 (- 1)]) (msg 5 2) = Panic"
    using replay_window_gaps [of "\<lparr>sn_last = msg 5 (- 1), sn_window = 0, sn_previous = None\<rparr>" _ _ "msg 5 2"]
    unfolding s by (simp add: msg_def)
  ultimately show ?thesis by simp
qed

end
