(* ===== verification/Tail.thy ===== *)
theory Tail
  imports LogStore "HOL-Library.Multiset"
begin

text \<open>
  Tailing the relay's log within one connection (\<^verbatim>\<open>silver-client/src/tail.rs\<close>): a state
  machine that is told what the relay says (its head, a lookup's answer, a page of entries)
  and what contacts say (the head inside their messages), and answers with pages to ask for,
  events to raise and lookups to hand to the callers waiting for them. The one-shot channels
  of those callers are numbers. Time is an argument. Shown here: every lookup is answered
  exactly once or still waits, nothing waits while the machine is idle, what is handed out
  has been checked against the log at least as far as the head it came with, and with an
  honest relay the machine catches up.
\<close>

section \<open>Events and messages\<close>

datatype transparency_event =
    Synced log_head
  | LookupProblem user_id string
  | ForkSeen "user_id option" u64
  | Withheld "user_id option" u64
  | Rewound u64 u64

text \<open>The events of the connection that a step of the tail can raise.\<close>

datatype client_event =
    PeerRevoked revocation
  | PeerSucceeded succession
  | DeviceRevoked device_revocation
  | Transparency transparency_event

record lookup =
  lk_bundle :: "key_bundle option"
  lk_device_bundles :: "key_bundle list"
  lk_device_revocations :: "device_revocation list"

fun problem_text :: "discrepancy \<Rightarrow> string" where
  "problem_text UnloggedBundle = ''the relay showed a key for them that its log does not contain''"
| "problem_text (NotLatestBundle logged) =
    ''the relay showed a key for them that is not the latest in its log (entry '' @ decimal (unat logged) @ '')''"
| "problem_text (ClaimMismatch claimed seen) =
    ''the relay's claim about its log (entry '' @ decimal (unat claimed) @
    '') does not match the log it showed (entry '' @ decimal (unat seen) @ '')''"
| "problem_text (WithheldRevocation logged) =
    ''the relay is hiding a revocation of their identity (log entry '' @ decimal (unat logged) @ '')''"
| "problem_text (WithheldSuccession logged) =
    ''the relay is hiding a handover of their identity (log entry '' @ decimal (unat logged) @ '')''"
| "problem_text UnloggedStatement = ''the relay showed a statement about them that is not the one in its log''"

section \<open>State\<close>

text \<open>
  Advance: the head to reach and the contact who asked for it. Verify: the cursor, the
  contact's head to check, the checkpoint to end at, the contact, and whether the head matched.
  \<open>st_send\<close> holds the indices of the \<^verbatim>\<open>LogSince\<close> frames, the only frames a step sends.
\<close>

record effects =
  st_send :: "u64 list"
  st_events :: "client_event list"
  st_replies :: "(nat \<times> (lookup, string) res) list"

definition no_effects :: effects where
  "no_effects = \<lparr>st_send = [], st_events = [], st_replies = []\<rparr>"

record answer =
  an_user_id :: user_id
  an_bundle :: "key_bundle option"
  an_revocation :: "revocation option"
  an_succession :: "succession option"
  an_head :: "log_head option"
  an_logged :: "log_position option"
  an_device_bundles :: "key_bundle list"
  an_device_revocations :: "device_revocation list"
  an_replies :: "nat list"

datatype mode =
    Advance log_head "user_id option"
  | Verify log_head log_head log_head user_id "bool option"

datatype deferred =
    DAnswer answer
  | DPeerHead user_id log_head

record tail =
  tl_log :: "log_state option"
  tl_mode :: "mode option"
  tl_deferred :: "deferred list"
  tl_last_synced :: "log_head option"

definition new_tail :: "log_state option \<Rightarrow> tail" where
  "new_tail log =
    \<lparr>tl_log = log, tl_mode = None, tl_deferred = [],
     tl_last_synced =
       (case map_option ls_head log of
          Some head \<Rightarrow> if 0 < lh_index head then Some head else None
        | None \<Rightarrow> None)\<rparr>"

definition ours :: "tail \<Rightarrow> log_head" where
  "ours t = (case tl_log t of Some log \<Rightarrow> ls_head log | None \<Rightarrow> EMPTY)"

definition push_event :: "client_event \<Rightarrow> effects \<Rightarrow> effects" where
  "push_event e st = st\<lparr>st_events := st_events st @ [e]\<rparr>"

section \<open>Settling and refusing an answer\<close>

definition statements :: "crypto \<Rightarrow> answer \<Rightarrow> client_event list" where
  "statements C a =
    (case an_revocation a of
       Some r \<Rightarrow> if is_ok (revocation_verify C r) then [PeerRevoked r] else []
     | None \<Rightarrow> []) @
    (case an_succession a of
       Some s \<Rightarrow> if is_ok (succession_verify C s) then [PeerSucceeded s] else []
     | None \<Rightarrow> [])"

definition settle :: "crypto \<Rightarrow> answer \<Rightarrow> effects \<Rightarrow> effects" where
  "settle C a st =
    (let revoked = filter (\<lambda>r. is_ok (dr_verify C r)) (an_device_revocations a);
         lookup = \<lparr>lk_bundle = an_bundle a, lk_device_bundles = an_device_bundles a,
                   lk_device_revocations = revoked\<rparr>
     in st\<lparr>st_replies := st_replies st @ map (\<lambda>r. (r, Ok lookup)) (an_replies a),
           st_events := st_events st @ statements C a @ map DeviceRevoked revoked\<rparr>)"

definition refuse :: "crypto \<Rightarrow> answer \<Rightarrow> string \<Rightarrow> effects \<Rightarrow> effects" where
  "refuse C a reason st =
    st\<lparr>st_replies := st_replies st @ map (\<lambda>r. (r, Err reason)) (an_replies a),
       st_events := st_events st @ statements C a @
         [Transparency (LookupProblem (an_user_id a) reason)]\<rparr>"

text \<open>The check of the answer itself, with the allowance for a revoked device's own lookup.\<close>

definition check_answer :: "crypto \<Rightarrow> log_state \<Rightarrow> answer \<Rightarrow> (unit, discrepancy) res" where
  "check_answer C log a =
    (case check_lookup C log (an_user_id a) (an_bundle a) (an_revocation a) (an_succession a) (an_logged a) of
       Err (WithheldRevocation i) \<Rightarrow>
         if revocation_is_device_statement C log (an_user_id a) (an_device_revocations a)
         then Ok () else Err (WithheldRevocation i)
     | other \<Rightarrow> other)"

definition borne_out :: "crypto \<Rightarrow> log_state \<Rightarrow> device_revocation \<Rightarrow> bool" where
  "borne_out C log r =
    (case Option.bind (latest_in C log (dr_device r)) lt_revocation of
       Some logged \<Rightarrow> lp_leaf logged = device_revocation_leaf C r
     | None \<Rightarrow> False)"

definition check_device :: "crypto \<Rightarrow> log_state \<Rightarrow> device_revocation list \<Rightarrow> key_bundle \<Rightarrow> (unit, discrepancy) res" where
  "check_device C log revocations b =
    check_device_lookup C log (kb_user_id b) b (find (\<lambda>r. dr_device r = kb_user_id b) revocations)"

definition device_problems :: "crypto \<Rightarrow> log_state \<Rightarrow> device_revocation list \<Rightarrow> key_bundle list \<Rightarrow> client_event list" where
  "device_problems C log revocations bs =
    List.map_filter (\<lambda>b.
      case check_device C log revocations b of
        Err problem \<Rightarrow> Some (Transparency (LookupProblem (kb_user_id b) (problem_text problem)))
      | _ \<Rightarrow> None) bs"

definition resolve :: "crypto \<Rightarrow> log_state \<Rightarrow> answer \<Rightarrow> effects \<Rightarrow> effects" where
  "resolve C log a st =
    (case check_answer C log a of
       Err problem \<Rightarrow> refuse C a (problem_text problem) st
     | _ \<Rightarrow>
         let (kept, dropped) = partition (borne_out C log) (an_device_revocations a);
             bundles = filter (\<lambda>b. is_ok (check_device C log kept b)) (an_device_bundles a)
         in settle C (a\<lparr>an_device_revocations := kept, an_device_bundles := bundles\<rparr>)
              (st\<lparr>st_events := st_events st @
                  map (\<lambda>r. Transparency (LookupProblem (dr_device r) (problem_text UnloggedStatement))) dropped @
                  device_problems C log kept (an_device_bundles a)\<rparr>))"

section \<open>Steps\<close>

definition start_advance :: "log_head \<Rightarrow> user_id option \<Rightarrow> tail \<Rightarrow> effects \<Rightarrow> tail \<times> effects" where
  "start_advance goal asked_by t st =
    (t\<lparr>tl_mode := Some (Advance goal asked_by)\<rparr>, st\<lparr>st_send := st_send st @ [lh_index (ours t)]\<rparr>)"

text \<open>The relay's log went back, or contradicts ours: keep the evidence and start over.\<close>

definition start_over :: "bool \<Rightarrow> log_head \<Rightarrow> u64 \<Rightarrow> log_state \<Rightarrow> transparency_event \<Rightarrow> tail \<Rightarrow> tail \<times> effects" where
  "start_over rewound head now log event t =
    start_advance head None
      (t\<lparr>tl_log := Some (reset rewound head now log), tl_mode := None, tl_last_synced := None\<rparr>)
      (push_event (Transparency event) no_effects)"

definition on_relay_head :: "u64 \<Rightarrow> log_head \<Rightarrow> tail \<Rightarrow> tail \<times> effects" where
  "on_relay_head now head t =
    (case tl_log t of
       None \<Rightarrow> (t, no_effects)
     | Some log \<Rightarrow>
         let h = ls_head log in
         if lh_index head < lh_index h then
           start_over True head now log (Rewound (lh_index h) (lh_index head)) t
         else if lh_index head = lh_index h \<and> lh_hash head \<noteq> lh_hash h then
           start_over False head now log (ForkSeen None (lh_index head)) t
         else if lh_index h < lh_index head \<and> tl_mode t = None then
           start_advance head None t no_effects
         else (t, no_effects))"

definition on_answer :: "crypto \<Rightarrow> u64 \<Rightarrow> answer \<Rightarrow> tail \<Rightarrow> tail \<times> effects" where
  "on_answer C now a t =
    (case tl_log t of
       None \<Rightarrow> (t, settle C a no_effects)
     | Some _ \<Rightarrow>
         (case an_head a of
            None \<Rightarrow>
              (t, refuse C a ''the relay keeps a transparency log but answered without its head'' no_effects)
          | Some head \<Rightarrow>
              let (t1, st) = on_relay_head now head t in
              case tl_log t1 of
                None \<Rightarrow> (t1, st)
              | Some log \<Rightarrow>
                  if tl_mode t1 \<noteq> None \<or> lh_index (ls_head log) < lh_index head then
                    let t2 = t1\<lparr>tl_deferred := tl_deferred t1 @ [DAnswer a]\<rparr> in
                    if tl_mode t2 = None then start_advance head None t2 st else (t2, st)
                  else (t1, resolve C log a st)))"

definition check_head :: "log_state \<Rightarrow> user_id \<Rightarrow> log_head \<Rightarrow> tail \<Rightarrow> effects \<Rightarrow> tail \<times> effects" where
  "check_head log who head t st =
    (case check_peer_head log head of
       Consistent \<Rightarrow> (t, st)
     | HeadFork at \<Rightarrow> (t, push_event (Transparency (ForkSeen (Some who) at)) st)
     | Ahead \<Rightarrow> start_advance head (Some who) t st
     | NeedEntries lo hi \<Rightarrow>
         (t\<lparr>tl_mode := Some (Verify lo head hi who None)\<rparr>,
          st\<lparr>st_send := st_send st @ [lh_index lo]\<rparr>))"

definition on_peer_head :: "user_id \<Rightarrow> log_head \<Rightarrow> tail \<Rightarrow> tail \<times> effects" where
  "on_peer_head who head t =
    (case tl_log t of
       None \<Rightarrow> (t, no_effects)
     | Some log \<Rightarrow>
         if tl_mode t \<noteq> None then (t\<lparr>tl_deferred := tl_deferred t @ [DPeerHead who head]\<rparr>, no_effects)
         else check_head log who head t no_effects)"

text \<open>
  The loop takes the waiting things from the front until one of them needs a page; what is
  left then stays deferred.
\<close>

fun resolve_loop :: "crypto \<Rightarrow> log_state \<Rightarrow> deferred list \<Rightarrow> tail \<Rightarrow> effects \<Rightarrow> tail \<times> effects" where
  "resolve_loop C log [] t st = (t\<lparr>tl_deferred := []\<rparr>, st)"
| "resolve_loop C log (d # ds) t st =
    (if tl_mode t \<noteq> None then (t\<lparr>tl_deferred := d # ds\<rparr>, st)
     else case d of
       DAnswer a \<Rightarrow>
         (case an_head a of
            Some head \<Rightarrow>
              if lh_index (ls_head log) < lh_index head then
                start_advance head None (t\<lparr>tl_deferred := DAnswer a # ds\<rparr>) st
              else resolve_loop C log ds t (resolve C log a st)
          | None \<Rightarrow> resolve_loop C log ds t (resolve C log a st))
     | DPeerHead who head \<Rightarrow>
         (let (t', st') = check_head log who head t st in resolve_loop C log ds t' st'))"

definition resolve_deferred :: "crypto \<Rightarrow> log_state \<Rightarrow> tail \<Rightarrow> effects \<Rightarrow> tail \<times> effects" where
  "resolve_deferred C log t st = resolve_loop C log (tl_deferred t) t st"

definition fail_deferred :: "crypto \<Rightarrow> string \<Rightarrow> tail \<Rightarrow> effects \<Rightarrow> tail \<times> effects" where
  "fail_deferred C reason t st =
    (t\<lparr>tl_deferred := []\<rparr>,
     fold (\<lambda>d st. case d of DAnswer a \<Rightarrow> refuse C a reason st | DPeerHead _ _ \<Rightarrow> st) (tl_deferred t) st)"

datatype segment = Genuine | Doctored u64 | Incomplete

fun verify_segment ::
  "crypto \<Rightarrow> log_head \<Rightarrow> log_head \<Rightarrow> log_entry list \<Rightarrow> log_head \<Rightarrow> bool option \<Rightarrow>
    (segment \<times> log_head \<times> bool option, string) res" where
  "verify_segment C chk end_at [] cur m = Ok (Incomplete, cur, m)"
| "verify_segment C chk end_at (e # es) cur m =
    (if \<not> follows e cur then
       if lh_index cur = - 1 then Panic else Ok (Doctored (lh_index cur + 1), cur, m)
     else
       let cur = entry_head C e;
           m = (if lh_index cur = lh_index chk then Some (lh_hash cur = lh_hash chk) else m)
       in if lh_index cur = lh_index end_at then
            Ok (if lh_hash cur = lh_hash end_at then Genuine else Doctored (lh_index end_at), cur, m)
          else verify_segment C chk end_at es cur m)"

text \<open>What is said of the head that asked for catching up, once the log is caught up.\<close>

definition goal_events :: "log_state \<Rightarrow> log_head \<Rightarrow> user_id option \<Rightarrow> client_event list" where
  "goal_events log goal asked_by =
    (if lh_index (ls_head log) < lh_index goal then [Transparency (Withheld asked_by (lh_index goal))]
     else if \<not> can_check log (lh_index goal) then []
     else if hash_at log (lh_index goal) \<noteq> Some (lh_hash goal)
     then [Transparency (ForkSeen asked_by (lh_index goal))] else [])"

definition on_advance ::
  "crypto \<Rightarrow> u64 \<Rightarrow> log_entry list \<Rightarrow> log_head \<Rightarrow> log_head \<Rightarrow> user_id option \<Rightarrow> log_state \<Rightarrow> tail \<Rightarrow>
    (tail \<times> effects, string) res" where
  "on_advance C now entries head goal asked_by log t =
    (case apply_page C entries now log of
       (Err e, _) \<Rightarrow>
         Ok (fail_deferred C ''the relay's log does not chain'' t
           (push_event (Transparency (ForkSeen asked_by (case e of Broken at _ \<Rightarrow> at | Fork at \<Rightarrow> at))) no_effects))
     | (Panic, _) \<Rightarrow> Panic
     | (Ok h, log') \<Rightarrow>
         let t = t\<lparr>tl_log := Some log'\<rparr> in
         if lh_index h < lh_index head then
           if entries = [] then
             Ok (fail_deferred C ''the relay withholds its log'' t
               (push_event (Transparency (Withheld asked_by (lh_index head))) no_effects))
           else
             Ok (t\<lparr>tl_mode := Some (Advance goal asked_by)\<rparr>, no_effects\<lparr>st_send := [lh_index h]\<rparr>)
         else if lh_index h = lh_index head \<and> lh_hash h \<noteq> lh_hash head then
           Ok (fail_deferred C ''the relay's log does not chain'' t
             (push_event (Transparency (ForkSeen None (lh_index head))) no_effects))
         else
           let synced = (if tl_last_synced t \<noteq> Some h then [Transparency (Synced h)] else []);
               st = no_effects\<lparr>st_events := goal_events log' goal asked_by @ synced\<rparr>
           in Ok (resolve_deferred C log' (t\<lparr>tl_last_synced := Some h\<rparr>) st))"

definition on_verify ::
  "crypto \<Rightarrow> log_entry list \<Rightarrow> log_head \<Rightarrow> log_head \<Rightarrow> log_head \<Rightarrow> user_id \<Rightarrow> bool option \<Rightarrow> log_state \<Rightarrow> tail \<Rightarrow>
    (tail \<times> effects, string) res" where
  "on_verify C entries cur chk end_at who m log t =
    and_then (verify_segment C chk end_at entries cur m) (\<lambda>(segment, cur, m).
      case segment of
        Genuine \<Rightarrow>
          Ok (resolve_deferred C log t
            (if m = Some False then push_event (Transparency (ForkSeen (Some who) (lh_index chk))) no_effects
             else no_effects))
      | Doctored at \<Rightarrow>
          Ok (resolve_deferred C log t (push_event (Transparency (ForkSeen None at)) no_effects))
      | Incomplete \<Rightarrow>
          if entries = [] then
            Ok (resolve_deferred C log t
              (push_event (Transparency (Withheld (Some who) (lh_index end_at))) no_effects))
          else
            Ok (t\<lparr>tl_mode := Some (Verify cur chk end_at who m)\<rparr>, no_effects\<lparr>st_send := [lh_index cur]\<rparr>))"

definition on_entries ::
  "crypto \<Rightarrow> u64 \<Rightarrow> log_entry list \<Rightarrow> log_head \<Rightarrow> tail \<Rightarrow> (tail \<times> effects, string) res" where
  "on_entries C now entries head t =
    (case tl_log t of
       None \<Rightarrow> Ok (t, no_effects)
     | Some log \<Rightarrow>
         let idle = t\<lparr>tl_mode := None\<rparr> in
         case tl_mode t of
           None \<Rightarrow> Ok (idle, no_effects)
         | Some (Advance goal asked_by) \<Rightarrow> on_advance C now entries head goal asked_by log idle
         | Some (Verify cur chk end_at who m) \<Rightarrow> on_verify C entries cur chk end_at who m log idle)"

section \<open>Histories\<close>

datatype tail_in =
    RelayHead u64 log_head
  | LookupAnswer u64 answer
  | Entries u64 "log_entry list" log_head
  | PeerHead user_id log_head

fun tail_step :: "crypto \<Rightarrow> tail \<Rightarrow> tail_in \<Rightarrow> (tail \<times> effects, string) res" where
  "tail_step C t (RelayHead now head) = Ok (on_relay_head now head t)"
| "tail_step C t (LookupAnswer now a) = Ok (on_answer C now a t)"
| "tail_step C t (Entries now entries head) = on_entries C now entries head t"
| "tail_step C t (PeerHead who head) = Ok (on_peer_head who head t)"

definition joined :: "effects \<Rightarrow> effects \<Rightarrow> effects" where
  "joined st e = \<lparr>st_send = st_send st @ st_send e, st_events = st_events st @ st_events e,
     st_replies = st_replies st @ st_replies e\<rparr>"

text \<open>A history of a connection: a panic ends it.\<close>

definition tail_next :: "crypto \<Rightarrow> (tail \<times> effects, string) res \<Rightarrow> tail_in \<Rightarrow> (tail \<times> effects, string) res" where
  "tail_next C r x = and_then r (\<lambda>(t, st). and_then (tail_step C t x) (\<lambda>(t', e). Ok (t', joined st e)))"

definition tail_run :: "crypto \<Rightarrow> log_state option \<Rightarrow> tail_in list \<Rightarrow> (tail \<times> effects, string) res" where
  "tail_run C log xs = run (tail_next C) (Ok (new_tail log, no_effects)) xs"

definition received :: "tail_in list \<Rightarrow> answer list" where
  "received xs = List.map_filter (\<lambda>x. case x of LookupAnswer _ a \<Rightarrow> Some a | _ \<Rightarrow> None) xs"

definition held :: "deferred list \<Rightarrow> answer list" where
  "held ds = List.map_filter (\<lambda>d. case d of DAnswer a \<Rightarrow> Some a | _ \<Rightarrow> None) ds"

definition callers :: "answer list \<Rightarrow> nat multiset" where
  "callers as = mset (concat (map an_replies as))"

definition answered :: "effects \<Rightarrow> nat multiset" where
  "answered st = mset (map fst (st_replies st))"

lemma held_simps [simp]:
  "held [] = []" "held (DAnswer a # ds) = a # held ds" "held (DPeerHead w h # ds) = held ds"
  "held (ds @ ds') = held ds @ held ds'"
  by (simp_all add: held_def List.map_filter_def)

lemma received_simps [simp]:
  "received [] = []" "received (xs @ ys) = received xs @ received ys"
  "received [LookupAnswer n a] = [a]" "received [RelayHead n h] = []"
  "received [Entries n es h] = []" "received [PeerHead w h] = []"
  by (simp_all add: received_def List.map_filter_def)

lemma callers_simps [simp]:
  "callers [] = {#}" "callers (a # as) = mset (an_replies a) + callers as"
  "callers (as @ bs) = callers as + callers bs"
  by (simp_all add: callers_def)

lemma answered_simps [simp]:
  "answered no_effects = {#}" "answered (push_event e st) = answered st"
  "answered (st\<lparr>st_send := x\<rparr>) = answered st" "answered (st\<lparr>st_events := y\<rparr>) = answered st"
  "answered (joined st e') = answered st + answered e'"
  by (simp_all add: answered_def no_effects_def push_event_def joined_def)

lemma answered_settle [simp]: "answered (settle C a st) = answered st + mset (an_replies a)"
  by (simp add: answered_def settle_def Let_def comp_def)

lemma answered_refuse [simp]: "answered (refuse C a reason st) = answered st + mset (an_replies a)"
  by (simp add: answered_def refuse_def comp_def)

lemma answered_resolve [simp]: "answered (resolve C log a st) = answered st + mset (an_replies a)"
  by (simp add: resolve_def Let_def split: res.split prod.split)

lemma start_advance_simps [simp]:
  "tl_mode (fst (start_advance g w t st)) = Some (Advance g w)"
  "tl_log (fst (start_advance g w t st)) = tl_log t"
  "tl_deferred (fst (start_advance g w t st)) = tl_deferred t"
  "answered (snd (start_advance g w t st)) = answered st"
  "st_replies (snd (start_advance g w t st)) = st_replies st"
  by (simp_all add: start_advance_def)

lemma start_over_simps [simp]:
  "tl_mode (fst (start_over rw h now log e t)) = Some (Advance h None)"
  "tl_log (fst (start_over rw h now log e t)) = Some (reset rw h now log)"
  "tl_deferred (fst (start_over rw h now log e t)) = tl_deferred t"
  "answered (snd (start_over rw h now log e t)) = {#}"
  "st_replies (snd (start_over rw h now log e t)) = []"
  by (simp_all add: start_over_def) (simp add: push_event_def no_effects_def)

lemma on_relay_head_simps [simp]:
  "tl_deferred (fst (on_relay_head now h t)) = tl_deferred t"
  "answered (snd (on_relay_head now h t)) = {#}"
  "st_replies (snd (on_relay_head now h t)) = []"
  "tl_log (fst (on_relay_head now h t)) = None \<longleftrightarrow> tl_log t = None"
  by (auto simp: on_relay_head_def Let_def no_effects_def answered_def split: option.split)

lemma check_head_simps [simp]:
  "tl_deferred (fst (check_head log w h t st)) = tl_deferred t"
  "tl_log (fst (check_head log w h t st)) = tl_log t"
  "answered (snd (check_head log w h t st)) = answered st"
  "st_replies (snd (check_head log w h t st)) = st_replies st"
  by (auto simp: check_head_def push_event_def split: head_check.split)

lemma check_head_keeps:
  "check_head log w h t st = (t', e) \<Longrightarrow>
    tl_deferred t' = tl_deferred t \<and> tl_log t' = tl_log t \<and> st_replies e = st_replies st \<and> answered e = answered st"
  using check_head_simps [of log w h t st] by simp

text \<open>The balance of callers: what a step answers and leaves waiting is what waited and came.\<close>

lemma resolve_loop_balance:
  "answered (snd (resolve_loop C log ds t st)) + callers (held (tl_deferred (fst (resolve_loop C log ds t st)))) =
    answered st + callers (held ds)"
  by (induction C log ds t st rule: resolve_loop.induct)
    (auto simp: case_prod_beta Let_def split: deferred.split option.split)

lemma fail_deferred_balance:
  "answered (snd (fail_deferred C reason t st)) + callers (held (tl_deferred (fst (fail_deferred C reason t st)))) =
    answered st + callers (held (tl_deferred t))"
proof -
  have "answered (fold (\<lambda>d st. case d of DAnswer a \<Rightarrow> refuse C a reason st | DPeerHead _ _ \<Rightarrow> st) ds st) =
      answered st + callers (held ds)" for ds
    by (induction ds arbitrary: st) (auto split: deferred.split)
  then show ?thesis by (simp add: fail_deferred_def)
qed

lemma on_entries_balance:
  assumes "on_entries C now entries head t = Ok (t', e)"
  shows "answered e + callers (held (tl_deferred t')) = callers (held (tl_deferred t))"
proof -
  have r: "answered e + callers (held (tl_deferred t')) = callers (held (tl_deferred u))"
    if "resolve_deferred C log u st = (t', e)" "answered st = {#}" for log u st
    using that resolve_loop_balance [of C log "tl_deferred u" u st] by (simp add: resolve_deferred_def)
  have f: "answered e + callers (held (tl_deferred t')) = callers (held (tl_deferred u))"
    if "fail_deferred C reason u st = (t', e)" "answered st = {#}" for reason u st
    using that fail_deferred_balance [of C reason u st] by simp
  show ?thesis
    using assms
    by (auto simp: on_entries_def on_advance_def on_verify_def Let_def
        split: option.splits mode.splits prod.splits res.splits if_splits segment.splits
        dest!: r f)
qed

lemma tail_step_balance:
  assumes "tail_step C t x = Ok (t', e)"
  shows "answered e + callers (held (tl_deferred t')) = callers (held (tl_deferred t)) + callers (received [x])"
proof (cases x)
  case (LookupAnswer now a)
  then show ?thesis
    using assms on_relay_head_simps [of now "the (an_head a)" t]
    by (cases "tl_log t"; cases "an_head a";
        auto simp: on_answer_def Let_def case_prod_beta start_advance_def split: option.splits if_splits)
next
  case (PeerHead w h)
  then show ?thesis
    using assms by (cases "tl_log t") (auto simp: on_peer_head_def split: if_splits dest!: check_head_keeps)
next
  case (RelayHead now h)
  then have "t' = fst (on_relay_head now h t)" "e = snd (on_relay_head now h t)" using assms by auto
  with RelayHead show ?thesis by simp
next
  case (Entries now es h)
  with assms on_entries_balance show ?thesis by simp
qed

section \<open>Invariant\<close>

text \<open>Nothing waits while the machine is idle, and only answers with a head wait.\<close>

definition tail_inv :: "tail \<Rightarrow> bool" where
  "tail_inv t \<longleftrightarrow> (tl_mode t = None \<longrightarrow> tl_deferred t = []) \<and>
    (\<forall>a \<in> set (held (tl_deferred t)). an_head a \<noteq> None)"

lemma resolve_loop_log [simp]: "tl_log (fst (resolve_loop C log ds t st)) = tl_log t"
  by (induction C log ds t st rule: resolve_loop.induct)
    (auto simp: case_prod_beta Let_def split: deferred.split option.split)

lemma resolve_loop_idle:
  "tl_mode (fst (resolve_loop C log ds t st)) = None \<longrightarrow> tl_deferred (fst (resolve_loop C log ds t st)) = []"
  by (induction C log ds t st rule: resolve_loop.induct)
    (auto simp: case_prod_beta Let_def split: deferred.split option.split)

lemma resolve_loop_held:
  "set (held (tl_deferred (fst (resolve_loop C log ds t st)))) \<subseteq> set (held ds)"
  by (induction C log ds t st rule: resolve_loop.induct)
    (auto simp: case_prod_beta Let_def split: deferred.split option.split)

lemma resolve_deferred_inv:
  assumes "resolve_deferred C log t st = (t', e)" "\<forall>a \<in> set (held (tl_deferred t)). an_head a \<noteq> None"
  shows "tail_inv t' \<and> tl_log t' = tl_log t \<and> set (held (tl_deferred t')) \<subseteq> set (held (tl_deferred t))"
  using assms resolve_loop_idle [of C log "tl_deferred t" t st] resolve_loop_held [of C log "tl_deferred t" t st]
    resolve_loop_log [of C log "tl_deferred t" t st]
  unfolding resolve_deferred_def tail_inv_def by auto

lemma fail_deferred_inv:
  "fail_deferred C reason t st = (t', e) \<Longrightarrow> tail_inv t' \<and> tl_log t' = tl_log t \<and> tl_deferred t' = []"
  by (auto simp: fail_deferred_def tail_inv_def)

lemma on_entries_inv:
  assumes "on_entries C now entries head t = Ok (t', e)" "tail_inv t"
  shows "tail_inv t' \<and> (tl_log t' = None \<longleftrightarrow> tl_log t = None) \<and>
    set (held (tl_deferred t')) \<subseteq> set (held (tl_deferred t))"
proof (cases "tl_log t")
  case (Some log)
  have h: "\<forall>a \<in> set (held (tl_deferred t)). an_head a \<noteq> None" using assms(2) by (simp add: tail_inv_def)
  show ?thesis
    using assms Some h
    by (auto simp: on_entries_def on_advance_def on_verify_def Let_def tail_inv_def [of "_\<lparr>tl_mode := _\<rparr>"]
          tail_inv_def [of t]
        split: mode.splits prod.splits res.splits if_splits segment.splits option.splits
        dest!: resolve_deferred_inv fail_deferred_inv)
qed (use assms in \<open>simp add: on_entries_def\<close>)

lemma on_relay_head_inv: "tail_inv t \<Longrightarrow> tail_inv (fst (on_relay_head now h t))"
  by (auto simp: on_relay_head_def Let_def tail_inv_def split: option.split)

lemma tail_step_inv:
  assumes "tail_step C t x = Ok (t', e)" "tail_inv t"
  shows "tail_inv t' \<and> (tl_log t' = None \<longleftrightarrow> tl_log t = None) \<and>
    set (held (tl_deferred t')) \<subseteq> set (held (tl_deferred t)) \<union> set (received [x])"
proof (cases x)
  case (RelayHead now h)
  then have "t' = fst (on_relay_head now h t)" using assms(1) by auto
  with RelayHead on_relay_head_inv [OF assms(2)] show ?thesis by simp
next
  case (LookupAnswer now a)
  note o = on_relay_head_inv [OF assms(2), of now "the (an_head a)"]
    on_relay_head_simps [of now "the (an_head a)" t]
  show ?thesis
    using assms LookupAnswer o
    by (cases "tl_log t"; cases "an_head a";
        auto simp: on_answer_def Let_def case_prod_beta start_advance_def tail_inv_def
          split: option.splits if_splits)
next
  case (Entries now es h)
  with on_entries_inv assms show ?thesis by (metis Un_upper1 order_trans tail_step.simps(3))
next
  case (PeerHead w h)
  then show ?thesis
    using assms
    by (cases "tl_log t") (auto simp: on_peer_head_def tail_inv_def split: if_splits dest!: check_head_keeps)
qed

lemma tail_run_snoc:
  "tail_run C log (xs @ [x]) =
    and_then (tail_run C log xs) (\<lambda>(t, st). and_then (tail_step C t x) (\<lambda>(t', e). Ok (t', joined st e)))"
  by (simp add: tail_run_def tail_next_def)

lemma tail_run_inv:
  "tail_run C log xs = Ok (t, st) \<Longrightarrow>
    tail_inv t \<and> (tl_log t = None \<longleftrightarrow> log = None) \<and> set (held (tl_deferred t)) \<subseteq> set (received xs) \<and>
    answered st + callers (held (tl_deferred t)) = callers (received xs)"
proof (induction xs arbitrary: t st rule: rev_induct)
  case Nil
  then show ?case by (auto simp: tail_run_def new_tail_def tail_inv_def)
next
  case (snoc x xs)
  then obtain u su e where r: "tail_run C log xs = Ok (u, su)" and s: "tail_step C u x = Ok (t, e)"
    and st: "st = joined su e"
    by (auto simp: tail_run_snoc case_prod_beta)
  have b: "answered e + callers (held (tl_deferred t)) = callers (held (tl_deferred u)) + callers (received [x])"
    by (rule tail_step_balance [OF s])
  have "answered st + callers (held (tl_deferred t)) = answered su + (answered e + callers (held (tl_deferred t)))"
    by (simp add: st)
  also have "\<dots> = callers (received (xs @ [x]))"
    using snoc.IH [OF r] unfolding b by (simp add: union_assoc [symmetric])
  finally show ?case
    using snoc.IH [OF r] tail_step_inv [OF s] by auto
qed

section \<open>What is handed out\<close>

definition log_leaf :: "crypto \<Rightarrow> log_state \<Rightarrow> (latest \<Rightarrow> log_position option) \<Rightarrow> user_id \<Rightarrow> bytes option" where
  "log_leaf C log kind user = map_option lp_leaf (Option.bind (latest_in C log user) kind)"

definition handed_ok :: "crypto \<Rightarrow> log_state \<Rightarrow> answer \<Rightarrow> lookup \<Rightarrow> bool" where
  "handed_ok C log a lk \<longleftrightarrow>
    lk_bundle lk = an_bundle a \<and>
    (\<forall>b. lk_bundle lk = Some b \<longrightarrow> log_leaf C log lt_bundle (an_user_id a) = Some (bundle_leaf C b)) \<and>
    (log_leaf C log lt_revocation (an_user_id a) \<noteq> None \<longrightarrow>
      log_leaf C log lt_revocation (an_user_id a) = map_option (revocation_leaf C) (an_revocation a) \<or>
      (\<exists>d \<in> set (lk_device_revocations lk). dr_device d = an_user_id a)) \<and>
    (\<forall>b \<in> set (lk_device_bundles lk). log_leaf C log lt_bundle (kb_user_id b) = Some (bundle_leaf C b)) \<and>
    (\<forall>d \<in> set (lk_device_revocations lk). is_ok (dr_verify C d) \<and>
      log_leaf C log lt_revocation (dr_device d) = Some (device_revocation_leaf C d))"

lemma check_lookup_before_withheld:
  "check_lookup C s user (Some b) rvk suc claimed = Err (WithheldRevocation i) \<Longrightarrow>
    log_leaf C s lt_bundle user = Some (bundle_leaf C b)"
  by (auto simp: check_lookup_def log_leaf_def Let_def split: option.splits if_splits)

lemma check_device_leaf:
  "is_ok (check_device C log rs b) \<Longrightarrow> log_leaf C log lt_bundle (kb_user_id b) = Some (bundle_leaf C b)"
  by (auto simp: check_device_def check_device_lookup_def log_leaf_def Let_def is_ok_def
      split: option.splits if_splits res.splits)

lemma borne_out_leaf:
  "borne_out C log d \<longleftrightarrow> log_leaf C log lt_revocation (dr_device d) = Some (device_revocation_leaf C d)"
  by (auto simp: borne_out_def log_leaf_def split: option.split)

lemma resolve_hands:
  assumes "(r, Ok lk) \<in> set (st_replies (resolve C log a st))"
  shows "(r, Ok lk) \<in> set (st_replies st) \<or> r \<in> set (an_replies a) \<and> handed_ok C log a lk"
proof (cases "check_answer C log a")
  case (Ok u)
  let ?kept = "filter (borne_out C log) (an_device_revocations a)"
  have rs: "st_replies (resolve C log a st) = st_replies st @ map (\<lambda>r. (r, Ok
      \<lparr>lk_bundle = an_bundle a,
       lk_device_bundles = filter (\<lambda>b. is_ok (check_device C log ?kept b)) (an_device_bundles a),
       lk_device_revocations = filter (\<lambda>r. is_ok (dr_verify C r)) ?kept\<rparr>)) (an_replies a)"
    using Ok by (simp add: resolve_def settle_def Let_def)
  show ?thesis
  proof (cases "(r, Ok lk) \<in> set (st_replies st)")
    case False
    with assms have r: "r \<in> set (an_replies a)" and lk: "lk = \<lparr>lk_bundle = an_bundle a,
       lk_device_bundles = filter (\<lambda>b. is_ok (check_device C log ?kept b)) (an_device_bundles a),
       lk_device_revocations = filter (\<lambda>r. is_ok (dr_verify C r)) ?kept\<rparr>"
      unfolding rs by auto
    let ?check = "check_lookup C log (an_user_id a) (an_bundle a) (an_revocation a) (an_succession a) (an_logged a)"
    have bnd: "log_leaf C log lt_bundle (an_user_id a) = Some (bundle_leaf C b)" if "an_bundle a = Some b" for b
      using Ok that check_lookup_before_withheld check_lookup_bundle
      by (fastforce simp: check_answer_def log_leaf_def split: res.splits discrepancy.splits if_splits)
    have revoked: "log_leaf C log lt_revocation (an_user_id a) = map_option (revocation_leaf C) (an_revocation a) \<or>
        (\<exists>d \<in> set (lk_device_revocations lk). dr_device d = an_user_id a)"
    proof (cases ?check)
      case ok: (Ok v)
      then show ?thesis using check_lookup_revocation by (fastforce simp: log_leaf_def)
    next
      case (Err d)
      with Ok have "revocation_is_device_statement C log (an_user_id a) (an_device_revocations a)"
        by (simp add: check_answer_def split: discrepancy.splits if_splits)
      then obtain d p where "d \<in> set (an_device_revocations a)" "dr_device d = an_user_id a" "is_ok (dr_verify C d)"
        "Option.bind (latest_in C log (an_user_id a)) lt_revocation = Some p" "device_revocation_leaf C d = lp_leaf p"
        by (auto simp: revocation_is_device_statement_def list_ex_iff split: option.splits)
      then have "d \<in> set (lk_device_revocations lk)" "dr_device d = an_user_id a"
        by (simp_all add: lk borne_out_leaf log_leaf_def)
      then show ?thesis by blast
    next
      case Panic
      with Ok show ?thesis by (simp add: check_answer_def)
    qed
    have "handed_ok C log a lk"
      unfolding handed_ok_def
      using bnd revoked by (auto simp: lk check_device_leaf borne_out_leaf)
    with r show ?thesis by blast
  qed simp
next
  case (Err d)
  with assms show ?thesis by (auto simp: resolve_def refuse_def)
next
  case Panic
  then have "check_lookup C log (an_user_id a) (an_bundle a) (an_revocation a) (an_succession a) (an_logged a) = Panic"
    by (auto simp: check_answer_def split: res.splits discrepancy.splits if_splits)
  then show ?thesis by (auto simp: check_lookup_def Let_def split: option.splits if_splits)
qed

definition handed :: "effects \<Rightarrow> (nat \<times> lookup) set" where
  "handed st = {(r, lk). (r, Ok lk) \<in> set (st_replies st)}"

definition vouched :: "crypto \<Rightarrow> log_state \<Rightarrow> answer \<Rightarrow> nat \<times> lookup \<Rightarrow> bool" where
  "vouched C log a x \<longleftrightarrow> fst x \<in> set (an_replies a) \<and> handed_ok C log a (snd x) \<and>
    (\<forall>h. an_head a = Some h \<longrightarrow> lh_index h \<le> lh_index (ls_head log))"

lemma handed_simps [simp]:
  "handed no_effects = {}" "handed (push_event e st) = handed st"
  "handed (st\<lparr>st_send := x\<rparr>) = handed st" "handed (st\<lparr>st_events := y\<rparr>) = handed st"
  "handed (refuse C a reason st) = handed st"
  by (auto simp: handed_def no_effects_def push_event_def refuse_def)

lemma handed_cong: "st_replies st = st_replies st' \<Longrightarrow> handed st = handed st'"
  by (simp add: handed_def)

lemma handed_fail: "fail_deferred C reason t st = (t', e) \<Longrightarrow> handed e = handed st"
proof -
  have "handed (fold (\<lambda>d st. case d of DAnswer a \<Rightarrow> refuse C a reason st | DPeerHead _ _ \<Rightarrow> st) ds st) = handed st" for ds
    by (induction ds arbitrary: st) (auto split: deferred.split)
  then show "fail_deferred C reason t st = (t', e) \<Longrightarrow> handed e = handed st" by (auto simp: fail_deferred_def)
qed

lemma handed_resolve:
  "handed (resolve C log a st) \<subseteq> handed st \<union> {x. fst x \<in> set (an_replies a) \<and> handed_ok C log a (snd x)}"
  using resolve_hands by (fastforce simp: handed_def)

lemma handed_resolve_loop:
  "handed (snd (resolve_loop C log ds t st)) \<subseteq> handed st \<union> {x. \<exists>a \<in> set (held ds). vouched C log a x}"
proof (induction ds arbitrary: t st)
  case (Cons d ds)
  show ?case
  proof (cases "tl_mode t")
    case None
    show ?thesis
    proof (cases d)
      case (DAnswer a)
      show ?thesis
      proof (cases "\<exists>h. an_head a = Some h \<and> lh_index (ls_head log) < lh_index h")
        case True
        with None DAnswer show ?thesis by (auto simp: start_advance_def)
      next
        case False
        then have eq: "resolve_loop C log (d # ds) t st = resolve_loop C log ds t (resolve C log a st)"
          using None DAnswer by (auto split: option.split)
        have "handed (snd (resolve_loop C log ds t (resolve C log a st))) \<subseteq>
            handed (resolve C log a st) \<union> {x. \<exists>a \<in> set (held ds). vouched C log a x}"
          by (rule Cons.IH)
        moreover have "vouched C log a x" if "fst x \<in> set (an_replies a)" "handed_ok C log a (snd x)" for x
          using that False by (auto simp: vouched_def not_less)
        ultimately show ?thesis unfolding eq using handed_resolve [of C log a st] DAnswer by auto
      qed
    next
      case (DPeerHead w h)
      obtain t' st' where ch: "check_head log w h t st = (t', st')" by fastforce
      have "handed st' = handed st" using check_head_keeps [OF ch] by (intro handed_cong) simp
      moreover have "resolve_loop C log (d # ds) t st = resolve_loop C log ds t' st'"
        using ch None DPeerHead by simp
      ultimately show ?thesis
        using Cons.IH [of t' st'] DPeerHead by simp
    qed
  qed auto
qed simp

lemma handed_resolve_deferred:
  "resolve_deferred C log t st = (t', e) \<Longrightarrow>
    handed e \<subseteq> handed st \<union> {x. \<exists>a \<in> set (held (tl_deferred t)). vouched C log a x}"
  using handed_resolve_loop [of C log "tl_deferred t" t st] by (simp add: resolve_deferred_def)

text \<open>A page leads to lookups only by resolving what was deferred.\<close>

definition resolves :: "crypto \<Rightarrow> tail \<Rightarrow> tail \<Rightarrow> effects \<Rightarrow> bool" where
  "resolves C t t' e \<longleftrightarrow> handed e = {} \<or>
    (\<exists>log u st. resolve_deferred C log u st = (t', e) \<and> handed st = {} \<and>
      tl_deferred u = tl_deferred t \<and> tl_log u = Some log)"

lemma resolvesI:
  "resolve_deferred C log u st = (t', e) \<Longrightarrow> handed st = {} \<Longrightarrow> tl_deferred u = tl_deferred t \<Longrightarrow>
    tl_log u = Some log \<Longrightarrow> resolves C t t' e"
  unfolding resolves_def by blast

lemma resolves_fail: "fail_deferred C reason u st = (t', e) \<Longrightarrow> handed st = {} \<Longrightarrow> resolves C t t' e"
  unfolding resolves_def by (simp add: handed_fail)

lemma resolves_silent: "handed e = {} \<Longrightarrow> resolves C t t' e"
  unfolding resolves_def by simp

lemma on_advance_resolves:
  assumes "on_advance C now entries head goal asked_by log u = Ok (t', e)" "tl_deferred u = tl_deferred t"
  shows "resolves C t t' e"
proof (cases "apply_page C entries now log")
  case (Pair r log')
  note o = assms(1) [unfolded on_advance_def Pair Let_def prod.case]
  show ?thesis
  proof (cases r)
    case (Ok h)
    note o = o [unfolded Ok res.case]
    consider (more) "lh_index h < lh_index head" | (fork) "lh_index h = lh_index head \<and> lh_hash h \<noteq> lh_hash head"
      | (caught) "\<not> lh_index h < lh_index head" "\<not> (lh_index h = lh_index head \<and> lh_hash h \<noteq> lh_hash head)"
      by blast
    then show ?thesis
    proof cases
      case more
      with o show ?thesis by (cases "entries = []") (auto elim: resolves_fail intro: resolves_silent)
    next
      case fork
      with o show ?thesis by (auto elim: resolves_fail)
    next
      case caught
      with o assms(2) show ?thesis
        by (simp only: if_False res.inject simp_thms) (erule resolvesI, simp_all)
    qed
  qed (use o in \<open>auto elim: resolves_fail\<close>)
qed

lemma on_verify_resolves:
  assumes "on_verify C entries cur chk end_at who m log u = Ok (t', e)" "tl_deferred u = tl_deferred t" "tl_log u = Some log"
  shows "resolves C t t' e"
proof -
  obtain sg cur' m' where "verify_segment C chk end_at entries cur m = Ok (sg, cur', m')"
    using assms(1) by (auto simp: on_verify_def)
  with assms show ?thesis
    by (cases sg) (auto simp: on_verify_def split: if_splits elim: resolvesI intro: resolves_silent)
qed

lemma on_entries_hands:
  assumes "on_entries C now entries head t = Ok (t', e)" "x \<in> handed e" "tail_inv t"
  shows "\<exists>log. tl_log t' = Some log \<and> (\<exists>a \<in> set (held (tl_deferred t)). vouched C log a x)"
proof -
  have "resolves C t t' e"
    using assms(1) on_advance_resolves [of C now entries head _ _ _ "t\<lparr>tl_mode := None\<rparr>" t' e t]
      on_verify_resolves [of C entries _ _ _ _ _ _ "t\<lparr>tl_mode := None\<rparr>" t' e t]
    by (auto simp: on_entries_def Let_def resolves_def split: option.splits mode.splits)
  with assms(2) obtain log u st where r: "resolve_deferred C log u st = (t', e)" "handed st = {}"
    "tl_deferred u = tl_deferred t" "tl_log u = Some log" unfolding resolves_def by auto
  have "\<forall>a \<in> set (held (tl_deferred u)). an_head a \<noteq> None" using assms(3) r(3) by (simp add: tail_inv_def)
  with resolve_deferred_inv [OF r(1)] handed_resolve_deferred [OF r(1)] r(2-4) assms(2) show ?thesis by auto
qed

lemma tail_step_hands:
  assumes "tail_step C t x = Ok (t', e)" "y \<in> handed e" "tail_inv t" "tl_log t \<noteq> None"
  shows "\<exists>log a. tl_log t' = Some log \<and> a \<in> set (held (tl_deferred t)) \<union> set (received [x]) \<and>
    an_head a \<noteq> None \<and> vouched C log a y"
proof (cases x)
  case (RelayHead now h)
  then have "e = snd (on_relay_head now h t)" using assms(1) by auto
  then have "handed e = {}" by (auto simp: handed_def)
  with assms(2) show ?thesis by simp
next
  case (LookupAnswer now a)
  obtain h where h: "an_head a = Some h"
    using assms(1,2,4) LookupAnswer by (cases "an_head a") (auto simp: on_answer_def)
  let ?t1 = "fst (on_relay_head now h t)" and ?st = "snd (on_relay_head now h t)"
  obtain log where log: "tl_log ?t1 = Some log" using assms(4) on_relay_head_simps(4) [of now h t] by (metis not_Some_eq)
  have st: "handed ?st = {}" by (auto simp: handed_def)
  have "tl_mode ?t1 = None" "\<not> lh_index (ls_head log) < lh_index h" and t': "t' = ?t1" "e = resolve C log a ?st"
    using assms(1,2,4) LookupAnswer h log st
    by (auto simp: on_answer_def Let_def case_prod_beta start_advance_def split: if_splits)
  then have "vouched C log a y" using handed_resolve [of C log a ?st] st assms(2) h by (auto simp: vouched_def not_less)
  with log t'(1) h LookupAnswer show ?thesis by auto
next
  case (Entries now es h)
  with assms on_entries_hands [of C now es h t t' e y] obtain log a where
    "tl_log t' = Some log" "a \<in> set (held (tl_deferred t))" "vouched C log a y" by auto
  moreover from this(2) assms(3) have "an_head a \<noteq> None" by (simp add: tail_inv_def)
  ultimately show ?thesis by blast
next
  case (PeerHead w h)
  have "st_replies e = []"
    using assms(1,4) PeerHead
    by (auto simp: on_peer_head_def no_effects_def split: if_splits dest!: check_head_keeps)
  with assms(2) show ?thesis by (simp add: handed_def)
qed

section \<open>Catching up\<close>

text \<open>The log a client holds when it has replayed the first \<open>m\<close> entries of \<open>es\<close>.\<close>

definition at_log :: "crypto \<Rightarrow> log_entry list \<Rightarrow> nat \<Rightarrow> log_state \<Rightarrow> bool" where
  "at_log C es m s \<longleftrightarrow> m \<le> length es \<and> ls_head s = head_of C (take m es) \<and>
    ls_latest s = latest_of (take m es) \<and> ls_checkpoints s = checkpoints_of C (take m es)"

lemma apply_at_log:
  assumes ch: "chain C es" and at: "at_log C es m s"
  shows "\<exists>s'. apply_page C (take n (drop m es)) now s = (Ok (head_of C (take (m + n) es)), s') \<and>
    at_log C es (min (m + n) (length es)) s'"
proof -
  let ?new = "take n (drop m es)"
  have app: "take (m + n) es = take m es @ ?new" by (rule take_add)
  have m: "m \<le> length es" using at by (simp add: at_log_def)
  have r: "replay_from C EMPTY (take k es) = Ok (head_of C (take k es))" for k
    using ch replay_take [of C es "head_of C es" k] by (cases "k \<le> length es") (simp_all add: chain_def)
  have len: "length (take m es @ ?new) < 2 ^ 64" using ch by (simp add: chain_def min_def flip: app)
  have "replay_from C (head_of C (take m es)) ?new = Ok (head_of C (take (m + n) es))"
    using r [of "m + n"] r [of m] unfolding app replay_from_append by simp
  moreover have "fold (\<lambda>e. note_checkpoint (entry_head C e)) ?new (checkpoints_of C (take m es)) =
      checkpoints_of C (take (m + n) es)"
    using fold_note_checkpoint [of C "take m es" ?new, OF _ len] r [of "m + n"] by (simp add: app)
  ultimately show ?thesis
    using at by (auto simp: apply_page_def at_log_def fold_note_latest min_def app)
qed

text \<open>
  An honest relay answers a request for the entries after an index with the next page of its
  log and its head. \<open>follow\<close> plays the two against each other for at most \<open>n\<close> pages.
\<close>

fun follow ::
  "crypto \<Rightarrow> u64 \<Rightarrow> (u64 \<Rightarrow> log_entry list) \<Rightarrow> log_head \<Rightarrow> nat \<Rightarrow> tail \<Rightarrow> effects \<Rightarrow> (tail \<times> effects, string) res" where
  "follow C now page head 0 t st = Ok (t, st)"
| "follow C now page head (Suc n) t st =
    (case st_send st of
       [] \<Rightarrow> Ok (t, st)
     | i # is \<Rightarrow>
         and_then (on_entries C now (page i) head t) (\<lambda>(t', e).
           follow C now page head n t' (joined (st\<lparr>st_send := is\<rparr>) e)))"

definition is_alarm :: "client_event \<Rightarrow> bool" where
  "is_alarm e \<longleftrightarrow>
    (case e of Transparency (Synced _) \<Rightarrow> False | Transparency _ \<Rightarrow> True | _ \<Rightarrow> False)"

lemma goal_reached: "at_log C es (length es) s \<Longrightarrow> chain C es \<Longrightarrow> goal_events s (head_of C es) asked_by = []"
  using chain_head_index [of C es] by (cases es) (auto simp: goal_events_def at_log_def hash_at_def EMPTY_def)

text \<open>What resolving a checked answer leaves: the callers answered, and no alarm raised.\<close>

definition plain_lookup :: "answer \<Rightarrow> lookup" where
  "plain_lookup a = \<lparr>lk_bundle = an_bundle a, lk_device_bundles = an_device_bundles a, lk_device_revocations = []\<rparr>"

definition served_plainly :: "answer \<Rightarrow> effects \<Rightarrow> bool" where
  "served_plainly a st \<longleftrightarrow> st_send st = [] \<and> \<not> list_ex is_alarm (st_events st) \<and>
    st_replies st = map (\<lambda>r. (r, Ok (plain_lookup a))) (an_replies a)"

lemma resolve_plainly:
  assumes "check_answer C s a = Ok ()" "\<And>b. b \<in> set (an_device_bundles a) \<Longrightarrow> check_device C s [] b = Ok ()"
    and "an_device_revocations a = []" and "st_send st = []" "\<not> list_ex is_alarm (st_events st)" "st_replies st = []"
  shows "served_plainly a (resolve C s a st)"
proof -
  have "filter (\<lambda>b. is_ok (check_device C s [] b)) (an_device_bundles a) = an_device_bundles a"
    by (rule filter_True) (simp add: assms(2))
  moreover have "device_problems C s [] (an_device_bundles a) = []"
    using assms(2) by (auto simp: device_problems_def List.map_filter_def filter_empty_conv)
  ultimately show ?thesis
    using assms(1,3-)
    by (auto simp: resolve_def settle_def served_plainly_def plain_lookup_def statements_def is_alarm_def
        list_ex_iff split: option.splits)
qed

lemma follow_catches_up:
  assumes ch: "chain C es" and at: "at_log C es m s"
    and page: "\<And>i. unat i < length es \<Longrightarrow> page i = take k (drop (unat i) es)" and k: "0 < k"
    and t: "tl_log t = Some s" "tl_mode t = Some (Advance (head_of C es) None)" "tl_deferred t = [DAnswer a]"
    and st: "st_send st = [lh_index (head_of C (take m es))]" "\<not> list_ex is_alarm (st_events st)" "st_replies st = []"
    and a: "an_head a = Some (head_of C es)" "an_device_revocations a = []"
    and ok: "\<And>s. at_log C es (length es) s \<Longrightarrow> check_answer C s a = Ok ()"
      "\<And>s b. at_log C es (length es) s \<Longrightarrow> b \<in> set (an_device_bundles a) \<Longrightarrow> check_device C s [] b = Ok ()"
    and n: "length es - m < n" and m_less: "m < length es"
  shows "\<exists>t' st' s'. follow C now page (head_of C es) n t st = Ok (t', st') \<and> tl_mode t' = None \<and>
    tl_deferred t' = [] \<and> tl_log t' = Some s' \<and> at_log C es (length es) s' \<and> served_plainly a st'"
  using at t st n m_less
proof (induction n arbitrary: m s t st)
  case (Suc n)
  have m: "m \<le> length es" using Suc.prems by (simp add: at_log_def)
  have idx: "unat (lh_index (head_of C (take j es))) = j" if "j \<le> length es" for j
    by (rule chain_index [OF ch that])
  obtain s' where ap: "apply_page C (take k (drop m es)) now s = (Ok (head_of C (take (m + k) es)), s')"
    and at': "at_log C es (min (m + k) (length es)) s'"
    using apply_at_log [OF ch Suc.prems(1)] by blast
  have pg: "page (lh_index (head_of C (take m es))) = take k (drop m es)" using page idx [OF m] Suc.prems(9) by simp
  show ?case
  proof (cases "m + k < length es")
    case True
    let ?t = "t\<lparr>tl_mode := None, tl_log := Some s', tl_mode := Some (Advance (head_of C es) None)\<rparr>"
    let ?e = "no_effects\<lparr>st_send := [lh_index (head_of C (take (m + k) es))]\<rparr>"
    have "lh_index (head_of C (take (m + k) es)) < lh_index (head_of C es)"
      using idx [of "m + k"] chain_head_index [OF ch] True by (simp add: word_less_nat_alt)
    then have "on_entries C now (take k (drop m es)) (head_of C es) t = Ok (?t, ?e)"
      using True k Suc.prems(2,3) ap by (simp add: on_entries_def on_advance_def Let_def)
    then have "follow C now page (head_of C es) (Suc n) t st =
        follow C now page (head_of C es) n ?t (joined (st\<lparr>st_send := []\<rparr>) ?e)"
      using Suc.prems(5) pg by simp
    moreover have "at_log C es (m + k) s'" using at' True by simp
    moreover have "length es - (m + k) < n" using True k Suc.prems(8) by linarith
    ultimately show ?thesis
      using Suc.IH [of "m + k" s' ?t "joined (st\<lparr>st_send := []\<rparr>) ?e"] Suc.prems k True
      by (simp add: joined_def no_effects_def)
  next
    case False
    then have full: "take (m + k) es = es" and at'': "at_log C es (length es) s'" using at' by (auto simp: min_def split: if_splits)
    then have hd: "ls_head s' = head_of C es" by (simp add: at_log_def)
    let ?syn = "if tl_last_synced t \<noteq> Some (head_of C es) then [Transparency (Synced (head_of C es))] else []"
    let ?e = "resolve C s' a (no_effects\<lparr>st_events := ?syn\<rparr>)"
    let ?t = "t\<lparr>tl_mode := None, tl_log := Some s', tl_last_synced := Some (head_of C es), tl_deferred := []\<rparr>"
    have "on_entries C now (take k (drop m es)) (head_of C es) t = Ok (?t, ?e)"
      using Suc.prems(2-4) ap a(1) hd goal_reached [OF at'' ch]
      by (simp add: full on_entries_def on_advance_def Let_def resolve_deferred_def)
    then have f: "follow C now page (head_of C es) (Suc n) t st =
        follow C now page (head_of C es) n ?t (joined (st\<lparr>st_send := []\<rparr>) ?e)"
      using Suc.prems(5) pg by simp
    have "served_plainly a ?e"
      by (rule resolve_plainly [OF ok(1) [OF at''] ok(2) [OF at''] a(2)]) (simp_all add: no_effects_def is_alarm_def)
    then have plain: "served_plainly a (joined (st\<lparr>st_send := []\<rparr>) ?e)"
      using Suc.prems(6,7) by (simp add: served_plainly_def joined_def)
    then have "st_send (joined (st\<lparr>st_send := []\<rparr>) ?e) = []" by (simp add: served_plainly_def)
    then have "follow C now page (head_of C es) n ?t (joined (st\<lparr>st_send := []\<rparr>) ?e) =
        Ok (?t, joined (st\<lparr>st_send := []\<rparr>) ?e)" by (cases n) simp_all
    with f plain at'' show ?thesis by simp
  qed
qed simp

section \<open>Properties\<close>

text \<open>
  C14. Every lookup is answered once. After any history of a connection, the callers already
  answered (with a lookup or an error) and those of the answers still waiting are together
  exactly the callers of the answers received, each as often as it came; and when no page is
  awaited nothing waits, so then every caller has been answered exactly once.
\<close>

theorem lookups_answered_once:
  assumes "tail_run C log xs = Ok (t, st)"
  shows "answered st + callers (held (tl_deferred t)) = callers (received xs) \<and>
    (tl_mode t = None \<longrightarrow> tl_deferred t = [] \<and> answered st = callers (received xs))"
  using tail_run_inv [OF assms] by (auto simp: tail_inv_def)

definition demo_answer :: answer where
  "demo_answer = \<lparr>an_user_id = kb_user_id demo_bundle, an_bundle = Some demo_bundle, an_revocation = None,
     an_succession = None, an_head = Some (entry_head demo_crypto demo_bundle_entry), an_logged = None,
     an_device_bundles = [], an_device_revocations = [], an_replies = [7]\<rparr>"

definition demo_head :: log_head where
  "demo_head = entry_head demo_crypto demo_bundle_entry"

definition demo_waiting :: tail where
  "demo_waiting = \<lparr>tl_log = Some log_state_default, tl_mode = Some (Advance demo_head None),
     tl_deferred = [DAnswer demo_answer], tl_last_synced = None\<rparr>"

lemma demo_head_index [simp]: "lh_index demo_head = 1"
  by (simp add: demo_head_def entry_head_def demo_bundle_entry_def)

lemma demo_waits:
  "tail_run demo_crypto (Some log_state_default) [LookupAnswer 1 demo_answer] =
    Ok (demo_waiting, \<lparr>st_send = [0], st_events = [], st_replies = []\<rparr>)"
  by (simp add: tail_run_def tail_next_def on_answer_def on_relay_head_def new_tail_def start_advance_def
      ours_def demo_answer_def demo_waiting_def log_state_default_def no_effects_def joined_def Let_def
      flip: demo_head_def)

lemma demo_applied:
  "apply_page demo_crypto [demo_bundle_entry] 2 log_state_default =
    (Ok demo_head, rep demo_crypto (run (spec_step demo_crypto) spec_start [Apply [demo_bundle_entry] 2]))"
proof -
  have tot: "sp_total (run (spec_step demo_crypto) spec_start [Apply [demo_bundle_entry] 2]) < 2 ^ 64"
    by (simp add: spec_start_def)
  have "fst (apply_page demo_crypto [demo_bundle_entry] 2 log_state_default) = Ok demo_head"
    by (simp add: apply_page_def log_state_default_def follows_def demo_bundle_entry_def EMPTY_def demo_head_def)
  moreover have "snd (apply_page demo_crypto [demo_bundle_entry] 2 log_state_default) =
      rep demo_crypto (run (spec_step demo_crypto) spec_start [Apply [demo_bundle_entry] 2])"
    using client_state(1) [OF tot] by simp
  ultimately show ?thesis by (metis prod.collapse)
qed

lemma demo_handed:
  "\<exists>t e lk. tail_step demo_crypto demo_waiting (Entries 2 [demo_bundle_entry] demo_head) = Ok (t, e) \<and>
    st_replies e = [(7, Ok lk)]"
proof -
  let ?log = "rep demo_crypto (run (spec_step demo_crypto) spec_start [Apply [demo_bundle_entry] 2])"
  have rep: "?log = rep demo_crypto \<lparr>sp_entries = [demo_bundle_entry], sp_breaks = [], sp_time = 2, sp_total = 1\<rparr>"
    by (simp add: spec_start_def follows_def demo_bundle_entry_def EMPTY_def)
  have "check_answer demo_crypto ?log demo_answer = Ok ()"
    unfolding rep
    by (simp add: check_answer_def check_lookup_def latest_in_def rep_def latest_of_def position_of_def of_kind_def
        demo_bundle_entry_def demo_answer_def Let_def)
  moreover have "ls_head ?log = demo_head" unfolding rep by (simp add: rep_def head_of_def demo_head_def)
  ultimately show ?thesis
    by (simp add: on_entries_def on_advance_def demo_waiting_def demo_applied Let_def resolve_deferred_def
        resolve_def settle_def demo_answer_def no_effects_def del: run.simps flip: demo_head_def)
qed

theorem lookups_answered_once_witness:
  "answered \<lparr>st_send = [0], st_events = [], st_replies = []\<rparr> + callers (held (tl_deferred demo_waiting)) = {#7#}"
  using lookups_answered_once [OF demo_waits] by (simp add: demo_answer_def)

text \<open>
  C2. What is handed out is borne out by the log. A lookup handed to a caller at any step is
  that of an answer received on the connection; the log has then been replayed at least to the
  head that answer came with; the bundle is the identity's latest in that log, so is the
  bundle of each device that comes with it; each device revocation is validly signed and the
  latest one logged for its device; and if the log holds a revocation of the identity, the
  answer carried that very revocation or the device statement that stands for it.
\<close>

theorem handed_lookup_is_logged:
  assumes "tail_run C (Some log0) xs = Ok (t, st)" "tail_step C t x = Ok (t', e)"
    and "(caller, Ok lk) \<in> set (st_replies e)"
  shows "\<exists>log a h. tl_log t' = Some log \<and> a \<in> set (received (xs @ [x])) \<and> caller \<in> set (an_replies a) \<and>
    an_head a = Some h \<and> lh_index h \<le> lh_index (ls_head log) \<and> handed_ok C log a lk"
proof -
  note i = tail_run_inv [OF assms(1)]
  have "(caller, lk) \<in> handed e" using assms(3) by (simp add: handed_def)
  with tail_step_hands [OF assms(2) this] i show ?thesis by (fastforce simp: vouched_def)
qed

theorem handed_lookup_is_logged_witness:
  "\<exists>t e lk log a h. tail_step demo_crypto demo_waiting (Entries 2 [demo_bundle_entry] demo_head) = Ok (t, e) \<and>
    st_replies e = [(7, Ok lk)] \<and> tl_log t = Some log \<and> an_head a = Some h \<and>
    lh_index h \<le> lh_index (ls_head log) \<and> handed_ok demo_crypto log a lk"
proof -
  obtain t e lk where s: "tail_step demo_crypto demo_waiting (Entries 2 [demo_bundle_entry] demo_head) = Ok (t, e)"
    and r: "st_replies e = [(7, Ok lk)]" using demo_handed by blast
  from handed_lookup_is_logged [OF demo_waits s, of 7 lk] r s show ?thesis by auto
qed

end
