(* ===== verification/RelayState.thy ===== *)
theory RelayState
  imports RelayLog RelayMailbox RelayDeposit
begin

text \<open>
  The relay's handlers for identities (\<^verbatim>\<open>silver-relay/src/lib.rs\<close>), over the store's
  components put together: publishing a bundle with its one-time keys, revoking an identity or
  a device, handing over to a successor, the administrator's eviction and the undoing of a
  device revocation, what a login is refused for, and what a lookup answers. The rate limiters
  work on clocks and floating-point numbers; what they decide is an argument of each handler.
  Shown here: a revoked identity stays out, a device that no account of its own revoked
  cannot be cut off by anyone else, cutting off one identity touches no other, and one case in
  which an account's revocation of its device has no effect.
\<close>

section \<open>State\<close>

datatype error_code =
    Unauthenticated | BadSignature | Malformed | TooLarge | Forbidden | MailboxIsFull | RateLimited
  | InviteRequired | NotFound | StorageIsFull | StaleEpoch | AlreadyExists | Internal

type_synonym rejection = "error_code \<times> string"

text \<open>
  The tables and the registry of sessions; \<open>rs_admitted\<close> are the connections whose login was let
  through and that have not registered yet.
\<close>

record relay =
  rs_db :: log_db
  rs_mail :: mailbox_state
  rs_one_time :: deposit
  rs_pq_one_time :: deposit
  rs_packages :: package_store
  rs_admitted :: "user_id list"
  rs_online :: "user_id set"
  rs_invite :: "bytes option"

definition fresh_relay :: relay where
  "fresh_relay = \<lparr>rs_db = fresh_log_db, rs_mail = empty_mailbox, rs_one_time = empty_deposit,
     rs_pq_one_time = empty_deposit, rs_packages = empty_packages, rs_admitted = [], rs_online = {},
     rs_invite = None\<rparr>"

record policy =
  po_max_identities :: nat
  po_log_entries_per_user_per_hour :: nat
  po_hosts :: "string list"
  po_limits :: limits

text \<open>What the token buckets of the address and of the identities say at this call.\<close>

record verdicts =
  vd_registration :: bool
  vd_log_entry :: bool
  vd_handout :: "user_id \<Rightarrow> bool"

text \<open>JSON of the two typed values the tables hold as bytes.\<close>

record codecs =
  cd_envelope :: "envelope json"
  cd_pq :: "signed_pq_prekey json"

section \<open>Deposits of ML-KEM keys\<close>

definition set_pq_one_time_prekeys :: "codecs \<Rightarrow> user_id \<Rightarrow> signed_pq_prekey list \<Rightarrow> deposit \<Rightarrow> deposit" where
  "set_pq_one_time_prekeys K user keys d =
    replace_deposit user (map (\<lambda>k. (pqk_id k, to_json (cd_pq K) k)) keys) d"

definition take_pq_one_time_prekey ::
  "codecs \<Rightarrow> user_id \<Rightarrow> deposit \<Rightarrow> (signed_pq_prekey option, string) res \<times> deposit" where
  "take_pq_one_time_prekey K user d =
    (case take_from_deposit user d of
       (None, d') \<Rightarrow> (Ok None, d')
     | (Some (_, json), d') \<Rightarrow>
         (case of_json (cd_pq K) json of
            Some k \<Rightarrow> Ok (Some k)
          | None \<Rightarrow> Err ''stored one-time ML-KEM key is unreadable'', d'))"

section \<open>Everything kept for one user\<close>

record removed =
  rm_had_bundle :: bool
  rm_messages :: nat
  rm_bytes :: nat
  rm_prekeys :: nat
  rm_key_packages :: nat

definition no_removed :: removed where
  "no_removed = \<lparr>rm_had_bundle = False, rm_messages = 0, rm_bytes = 0, rm_prekeys = 0, rm_key_packages = 0\<rparr>"

definition remove_user_data :: "codecs \<Rightarrow> user_id \<Rightarrow> removed \<Rightarrow> relay \<Rightarrow> (removed \<times> relay, store_error) res" where
  "remove_user_data K user rm r =
    and_then (remove_user_mail (cd_envelope K) user (rs_mail r)) (\<lambda>((messages, bytes), mail).
      let (n1, d1) = clear_deposit user (rs_one_time r);
          (n2, d2) = clear_deposit user (rs_pq_one_time r);
          (n3, ps) = clear_packages user (rs_packages r)
      in Ok (rm\<lparr>rm_messages := rm_messages rm + messages, rm_bytes := rm_bytes rm + bytes,
                rm_prekeys := rm_prekeys rm + n1 + n2, rm_key_packages := rm_key_packages rm + n3\<rparr>,
             r\<lparr>rs_mail := mail, rs_one_time := d1, rs_pq_one_time := d2, rs_packages := ps\<rparr>))"

definition cut_off :: "codecs \<Rightarrow> user_id \<Rightarrow> relay \<Rightarrow> (removed \<times> relay, store_error) res" where
  "cut_off K user r = remove_user_data K user no_removed r"

definition remove_user :: "codecs \<Rightarrow> user_id \<Rightarrow> relay \<Rightarrow> (removed \<times> relay, store_error) res" where
  "remove_user K user r =
    (let (had, db) = remove_bundle user (rs_db r)
     in remove_user_data K user (no_removed\<lparr>rm_had_bundle := had\<rparr>) (r\<lparr>rs_db := db\<rparr>))"

text \<open>Taking a session out of the registry ends it.\<close>

definition disconnect :: "user_id \<Rightarrow> relay \<Rightarrow> relay" where
  "disconnect user r = r\<lparr>rs_online := rs_online r - {user}\<rparr>"

definition evict :: "codecs \<Rightarrow> user_id \<Rightarrow> relay \<Rightarrow> (removed, store_error) res \<times> relay" where
  "evict K user r =
    (let r1 = disconnect user r
     in case remove_user K user r1 of
          Ok (rm, r2) \<Rightarrow> (Ok rm, r2)
        | Err e \<Rightarrow> (Err e, r1)
        | Panic \<Rightarrow> (Panic, r1))"

section \<open>Who is refused\<close>

abbreviation account :: "key_bundle \<Rightarrow> user_id option" where
  "account \<equiv> bundle_account"

definition device_account :: "user_id \<Rightarrow> log_db \<Rightarrow> user_id option" where
  "device_account user db = Option.bind (bundle_of user db) account"

definition revoked_by :: "user_id \<Rightarrow> user_id \<Rightarrow> log_db \<Rightarrow> bool" where
  "revoked_by acct device db =
    (case device_revocation_of device db of Some r \<Rightarrow> dr_account r = acct | None \<Rightarrow> False)"

definition is_revoked_device :: "user_id \<Rightarrow> log_db \<Rightarrow> bool" where
  "is_revoked_device user db =
    (case device_account user db of Some acct \<Rightarrow> revoked_by acct user db | None \<Rightarrow> False)"

definition login_refusal :: "user_id \<Rightarrow> log_db \<Rightarrow> string option" where
  "login_refusal user db =
    (if is_revoked user db then Some ''this identity has been revoked''
     else if is_revoked_device user db then Some ''this device has been revoked by its account''
     else Option.bind (device_account user db) (\<lambda>acct.
       if is_revoked acct db then Some ''this device's account has been revoked'' else None))"

definition host_is_ours :: "policy \<Rightarrow> string \<Rightarrow> string option \<Rightarrow> bool" where
  "host_is_ours po host reached_as =
    (if po_hosts po = [] then reached_as = Some host else list_ex (\<lambda>h. h = host) (po_hosts po))"

section \<open>Lifecycle statements\<close>

definition apply_revocation ::
  "crypto \<Rightarrow> verdicts \<Rightarrow> revocation \<Rightarrow> u64 \<Rightarrow> relay \<Rightarrow> (unit, rejection) res \<times> relay" where
  "apply_revocation C vd rv now r =
    (if \<not> vd_registration vd then
       (Err (RateLimited, ''this address has made its share of identity changes for the hour''), r)
     else if \<not> is_ok (revocation_verify C rv) then
       (Err (BadSignature, ''revocation signature is invalid''), r)
     else case bundle_of (rev_identity rv) (rs_db r) of
       None \<Rightarrow> (Err (Forbidden, ''no such identity on this relay''), r)
     | Some b \<Rightarrow>
         (case set_revocation C rv now (rs_db r) of
            Ok db \<Rightarrow>
              (Ok (), fold disconnect (map dc_device (kb_devices b))
                        (disconnect (rev_identity rv) (r\<lparr>rs_db := db\<rparr>)))
          | Err _ \<Rightarrow> (Err (Internal, ''storage error''), r)
          | Panic \<Rightarrow> (Panic, r)))"

definition apply_succession ::
  "crypto \<Rightarrow> verdicts \<Rightarrow> succession \<Rightarrow> u64 \<Rightarrow> relay \<Rightarrow> (unit, rejection) res \<times> relay" where
  "apply_succession C vd s now r =
    (if \<not> vd_registration vd then
       (Err (RateLimited, ''this address has made its share of identity changes for the hour''), r)
     else if \<not> is_ok (succession_verify C s) then
       (Err (BadSignature, ''succession signature is invalid''), r)
     else if bundle_of (suc_old s) (rs_db r) = None then
       (Err (Forbidden, ''no such identity on this relay''), r)
     else if is_revoked (suc_old s) (rs_db r) then
       (Err (Forbidden, ''that identity has been revoked and cannot hand over''), r)
     else if is_revoked (suc_new s) (rs_db r) then
       (Err (Forbidden, ''the successor has been revoked''), r)
     else case set_succession C s now (rs_db r) of
       Ok db \<Rightarrow> (Ok (), r\<lparr>rs_db := db\<rparr>)
     | Err _ \<Rightarrow> (Err (Internal, ''storage error''), r)
     | Panic \<Rightarrow> (Panic, r))"

text \<open>
  Whether the bundle published under the device's id claims the account, and whether the
  account may revoke it: it does, or it is on the account's list and published nothing.
\<close>

definition claims_me :: "user_id \<Rightarrow> user_id \<Rightarrow> log_db \<Rightarrow> bool" where
  "claims_me me device db \<longleftrightarrow> device_account device db = Some me"

definition may_revoke_device :: "user_id \<Rightarrow> key_bundle \<Rightarrow> user_id \<Rightarrow> log_db \<Rightarrow> bool" where
  "may_revoke_device me mine device db \<longleftrightarrow>
    claims_me me device db \<or>
    list_ex (\<lambda>d. dc_device d = device) (kb_devices mine) \<and> bundle_of device db = None"

definition apply_device_revocation ::
  "crypto \<Rightarrow> codecs \<Rightarrow> verdicts \<Rightarrow> user_id \<Rightarrow> device_revocation \<Rightarrow> u64 \<Rightarrow> relay \<Rightarrow> (unit, rejection) res \<times> relay" where
  "apply_device_revocation C K vd me rv now r =
    (if \<not> vd_registration vd then
       (Err (RateLimited, ''this address has made its share of identity changes for the hour''), r)
     else if dr_account rv \<noteq> me then
       (Err (Forbidden, ''a device is revoked by its own account''), r)
     else if \<not> is_ok (dr_verify C rv) then
       (Err (BadSignature, ''device revocation signature is invalid''), r)
     else case bundle_of me (rs_db r) of
       None \<Rightarrow> (Err (Forbidden, ''publish a bundle first''), r)
     | Some mine \<Rightarrow>
         if \<not> may_revoke_device me mine (dr_device rv) (rs_db r) then
           (Err (Forbidden, ''that is not a device of this account on this relay''), r)
         else case set_device_revocation C rv now (rs_db r) of
           Ok (new, db) \<Rightarrow>
             let r1 = r\<lparr>rs_db := db\<rparr> in
             if claims_me me (dr_device rv) (rs_db r) then
               let r2 = (if new then (case cut_off K (dr_device rv) r1 of Ok (_, r2) \<Rightarrow> r2 | _ \<Rightarrow> r1) else r1)
               in (Ok (), disconnect (dr_device rv) r2)
             else (Ok (), r1)
         | Err _ \<Rightarrow> (Err (Internal, ''storage error''), r)
         | Panic \<Rightarrow> (Panic, r))"

definition unrevoke_device :: "user_id \<Rightarrow> relay \<Rightarrow> bool \<times> relay" where
  "unrevoke_device device r =
    (let (was, db) = remove_device_revocation device (rs_db r) in (was, r\<lparr>rs_db := db\<rparr>))"

section \<open>Publishing\<close>

definition MAX_ONE_TIME_PREKEYS :: nat where "MAX_ONE_TIME_PREKEYS = 200"
definition MAX_PQ_ONE_TIME_PREKEYS :: nat where "MAX_PQ_ONE_TIME_PREKEYS = 50"

record prekey_report =
  pr_one_time_remaining :: nat
  pr_consumed :: "u32 list"
  pr_pq_one_time_remaining :: nat
  pr_pq_consumed :: "u32 list"

text \<open>A device's claim to an account: one the relay knows and still serves.\<close>

definition claim_refusal :: "key_bundle \<Rightarrow> log_db \<Rightarrow> rejection option" where
  "claim_refusal b db =
    (case kb_device_of b of
       None \<Rightarrow> None
     | Some certificate \<Rightarrow>
         if bundle_of (dc_account certificate) db = None then
           Some (Forbidden, ''the account this device claims is not on this relay'')
         else if is_revoked (dc_account certificate) db then
           Some (Forbidden, ''the account this device claims has been revoked'')
         else None)"

text \<open>A new identity: the invite token, the room left and the rate of the address.\<close>

definition registration_refusal :: "policy \<Rightarrow> verdicts \<Rightarrow> user_id \<Rightarrow> bytes option \<Rightarrow> relay \<Rightarrow> rejection option" where
  "registration_refusal po vd me invite r =
    (if bundle_of me (rs_db r) \<noteq> None then None
     else if (case rs_invite r of
                Some token \<Rightarrow> token \<noteq> (case invite of Some given \<Rightarrow> given | None \<Rightarrow> [])
              | None \<Rightarrow> False) then
       Some (InviteRequired, ''this relay requires an invite token to register a new identity'')
     else if 0 < po_max_identities po \<and> po_max_identities po \<le> length (RBT.entries (rl_bundles (rs_db r))) then
       Some (Forbidden, ''this relay has all the identities it takes'')
     else if \<not> vd_registration vd then
       Some (RateLimited, ''too many new identities from this address; try again later'')
     else None)"

definition publish_refusal ::
  "crypto \<Rightarrow> policy \<Rightarrow> verdicts \<Rightarrow> user_id \<Rightarrow> key_bundle \<Rightarrow> bytes option \<Rightarrow> relay \<Rightarrow> rejection option" where
  "publish_refusal C po vd me b invite r =
    (let db = rs_db r in
     if kb_user_id b \<noteq> me then Some (Forbidden, ''bundle user_id does not match authenticated user'')
     else if \<not> is_ok (bundle_verify C b) then Some (BadSignature, ''bundle signature is invalid'')
     else if is_revoked me db then Some (Forbidden, ''this identity has been revoked'')
     else if (case account b of Some acct \<Rightarrow> revoked_by acct me db | None \<Rightarrow> False) \<or> is_revoked_device me db then
       Some (Forbidden, ''this device has been revoked by its account'')
     else if claim_refusal b db \<noteq> None then claim_refusal b db
     else if list_ex (\<lambda>d. revoked_by me (dc_device d) db) (kb_devices b) then
       Some (Forbidden, ''the device list names a device that has been revoked'')
     else if list_ex (\<lambda>d. case device_account (dc_device d) db of Some a \<Rightarrow> a \<noteq> me | None \<Rightarrow> False) (kb_devices b) then
       Some (Forbidden, ''the device list names another account's device'')
     else registration_refusal po vd me invite r)"

definition without_one_time :: "key_bundle \<Rightarrow> key_bundle" where
  "without_one_time b = b\<lparr>kb_prekeys := map_option (\<lambda>p. p\<lparr>pk_one_time := [], pq_one_time := []\<rparr>) (kb_prekeys b)\<rparr>"

text \<open>The one-time keys go to their own tables; the report says how the deposits stand.\<close>

definition deposit_keys ::
  "codecs \<Rightarrow> user_id \<Rightarrow> prekeys \<Rightarrow> relay \<Rightarrow> (prekey_report option, rejection) res \<times> relay" where
  "deposit_keys K me p r =
    (let r = r\<lparr>rs_one_time := set_one_time_prekeys me (pk_one_time p) (rs_one_time r)\<rparr>;
         r = r\<lparr>rs_pq_one_time := set_pq_one_time_prekeys K me (pq_one_time p) (rs_pq_one_time r)\<rparr>
     in case (deposit_status me (rs_one_time r), deposit_status me (rs_pq_one_time r)) of
          (Ok (n, consumed), Ok (m, pq_consumed)) \<Rightarrow>
            (Ok (Some \<lparr>pr_one_time_remaining = n, pr_consumed = consumed, pr_pq_one_time_remaining = m,
                       pr_pq_consumed = pq_consumed\<rparr>), r)
        | (Err _, _) \<Rightarrow> (Err (Internal, ''storage error''), r)
        | (Panic, _) \<Rightarrow> (Panic, r)
        | (_, Err _) \<Rightarrow> (Err (Internal, ''storage error''), r)
        | (_, Panic) \<Rightarrow> (Panic, r))"

definition publish ::
  "crypto \<Rightarrow> codecs \<Rightarrow> policy \<Rightarrow> verdicts \<Rightarrow> user_id \<Rightarrow> key_bundle \<Rightarrow> bytes option \<Rightarrow> u64 \<Rightarrow> relay \<Rightarrow>
    (prekey_report option, rejection) res \<times> relay" where
  "publish C K po vd me b invite now r =
    (case publish_refusal C po vd me b invite r of
       Some rejection \<Rightarrow> (Err rejection, r)
     | None \<Rightarrow>
         let stored = without_one_time b in
         if (case kb_prekeys b of Some p \<Rightarrow> MAX_ONE_TIME_PREKEYS < length (pk_one_time p) | None \<Rightarrow> False) then
           (Err (TooLarge, ''too many one-time prekeys''), r)
         else if (case kb_prekeys b of Some p \<Rightarrow> MAX_PQ_ONE_TIME_PREKEYS < length (pq_one_time p) | None \<Rightarrow> False) then
           (Err (TooLarge, ''too many one-time ML-KEM prekeys''), r)
         else if 0 < po_log_entries_per_user_per_hour po \<and> bundle_would_log C stored (rs_db r) \<and> \<not> vd_log_entry vd then
           (Err (RateLimited, ''too many key changes this hour; the transparency log keeps every one for good''), r)
         else case put_bundle C stored now (rs_db r) of
           Ok db \<Rightarrow>
             (case kb_prekeys b of
                None \<Rightarrow> (Ok None, r\<lparr>rs_db := db\<rparr>)
              | Some p \<Rightarrow> deposit_keys K me p (r\<lparr>rs_db := db\<rparr>))
         | Err _ \<Rightarrow> (Err (Internal, ''storage error''), r)
         | Panic \<Rightarrow> (Panic, r))"

section \<open>Lookups\<close>

text \<open>
  A lookup reads and takes in many transactions, and other connections' operations fall
  between them: \<open>env n\<close> is what they do to the relay before its transaction number \<open>n\<close>. The
  number and the relay go through the lookup together.
\<close>

type_synonym env = "nat \<Rightarrow> relay \<Rightarrow> relay"

abbreviation alone :: env where
  "alone \<equiv> \<lambda>n r. r"

definition turn :: "env \<Rightarrow> nat \<times> relay \<Rightarrow> nat \<times> relay" where
  "turn env m = (Suc (fst m), env (fst m) (snd m))"

definition pop_one_time_prekeys ::
  "env \<Rightarrow> codecs \<Rightarrow> verdicts \<Rightarrow> key_bundle \<Rightarrow> nat \<times> relay \<Rightarrow> key_bundle \<times> nat \<times> relay" where
  "pop_one_time_prekeys env K vd b m =
    (case kb_prekeys b of
       None \<Rightarrow> (b, m)
     | Some p \<Rightarrow>
         if \<not> vd_handout vd (kb_user_id b) then (b, m)
         else
           let (n, r) = turn env m;
               (taken, d) = take_one_time_prekey (kb_user_id b) (rs_one_time r);
               p = (case taken of Ok k \<Rightarrow> p\<lparr>pk_one_time := option_list k\<rparr> | _ \<Rightarrow> p);
               (n, r) = turn env (n, r\<lparr>rs_one_time := d\<rparr>);
               (pq_taken, pq_d) = take_pq_one_time_prekey K (kb_user_id b) (rs_pq_one_time r);
               p = (case pq_taken of Ok k \<Rightarrow> p\<lparr>pq_one_time := option_list k\<rparr> | _ \<Rightarrow> p)
           in (b\<lparr>kb_prekeys := Some p\<rparr>, (n, r\<lparr>rs_pq_one_time := pq_d\<rparr>)))"

definition bundle_with_one_time_prekey ::
  "env \<Rightarrow> codecs \<Rightarrow> verdicts \<Rightarrow> user_id \<Rightarrow> nat \<times> relay \<Rightarrow> key_bundle option \<times> nat \<times> relay" where
  "bundle_with_one_time_prekey env K vd user m =
    (let m = turn env m
     in case bundle_of user (rs_db (snd m)) of
          None \<Rightarrow> (None, m)
        | Some b \<Rightarrow> (let (b', m') = pop_one_time_prekeys env K vd b m in (Some b', m')))"

fun device_bundles_in ::
  "env \<Rightarrow> codecs \<Rightarrow> verdicts \<Rightarrow> user_id \<Rightarrow> device_certificate list \<Rightarrow> nat \<times> relay \<Rightarrow> key_bundle list \<times> nat \<times> relay" where
  "device_bundles_in env K vd acct [] m = ([], m)"
| "device_bundles_in env K vd acct (d # ds) m =
    (let m = turn env m
     in if revoked_by acct (dc_device d) (rs_db (snd m)) then device_bundles_in env K vd acct ds m
        else let m = turn env m
          in case bundle_of (dc_device d) (rs_db (snd m)) of
               None \<Rightarrow> device_bundles_in env K vd acct ds m
             | Some b \<Rightarrow>
                 if account b \<noteq> Some acct then device_bundles_in env K vd acct ds m
                 else
                   let (b', m1) = pop_one_time_prekeys env K vd b m;
                       (bs, m2) = device_bundles_in env K vd acct ds m1
                   in (b' # bs, m2))"

definition device_bundles ::
  "env \<Rightarrow> codecs \<Rightarrow> verdicts \<Rightarrow> user_id \<Rightarrow> key_bundle option \<Rightarrow> nat \<times> relay \<Rightarrow> key_bundle list \<times> nat \<times> relay" where
  "device_bundles env K vd acct b m =
    (case b of None \<Rightarrow> ([], m) | Some b \<Rightarrow> device_bundles_in env K vd acct (kb_devices b) m)"

text \<open>These read twice: the second database is the one the second read finds.\<close>

definition device_revocations :: "user_id \<Rightarrow> log_db \<Rightarrow> log_db \<Rightarrow> device_revocation list" where
  "device_revocations user db db' = device_revocations_by user db @ option_list (device_revocation_of user db')"

definition lifecycle :: "user_id \<Rightarrow> log_db \<Rightarrow> log_db \<Rightarrow> revocation option \<times> succession option" where
  "lifecycle user db db' =
    (case revocation_of user db of
       Some rv \<Rightarrow> (Some rv, None)
     | None \<Rightarrow> (None, succession_of user db'))"

definition log_view :: "crypto \<Rightarrow> user_id \<Rightarrow> log_db \<Rightarrow> log_db \<Rightarrow> log_head option \<times> log_position option" where
  "log_view C user db db' = (Some (log_head_of C db'), log_latest C user db)"

definition relay_log_since :: "crypto \<Rightarrow> u64 \<Rightarrow> log_db \<Rightarrow> log_db \<Rightarrow> log_entry list \<times> log_head" where
  "relay_log_since C index db db' = (log_since index LOG_PAGE db, log_head_of C db')"

record lookup_result =
  lr_user_id :: user_id
  lr_bundle :: "key_bundle option"
  lr_revocation :: "revocation option"
  lr_succession :: "succession option"
  lr_head :: "log_head option"
  lr_logged :: "log_position option"
  lr_device_bundles :: "key_bundle list"
  lr_device_revocations :: "device_revocation list"

text \<open>
  The \<^verbatim>\<open>Lookup\<close> frame: \<open>allowed\<close> is what the connection's own limiter says, \<open>prekeys\<close> and
  \<open>devices\<close> what its client declared it can use.
\<close>

definition on_lookup ::
  "env \<Rightarrow> crypto \<Rightarrow> codecs \<Rightarrow> verdicts \<Rightarrow> bool \<Rightarrow> bool \<Rightarrow> bool \<Rightarrow> user_id \<Rightarrow> relay \<Rightarrow>
    (lookup_result, rejection) res \<times> relay" where
  "on_lookup env C K vd allowed prekeys devices user r =
    (if \<not> allowed then (Err (RateLimited, ''too many lookups; slow down''), r)
     else
       let (b, m) = (if prekeys then bundle_with_one_time_prekey env K vd user (0, r)
                     else (bundle_of user (rs_db (snd (turn env (0, r)))), turn env (0, r)));
           m1 = turn env m; m2 = turn env m1;
           (rvk, suc) = lifecycle user (rs_db (snd m1)) (rs_db (snd m2));
           m3 = turn env m2; m4 = turn env m3;
           (head, logged) = log_view C user (rs_db (snd m3)) (rs_db (snd m4));
           (bs, m5) = (if devices then device_bundles env K vd user b m4 else ([], m4));
           m6 = turn env m5; m7 = turn env m6
       in (Ok \<lparr>lr_user_id = user, lr_bundle = b, lr_revocation = rvk, lr_succession = suc, lr_head = head,
               lr_logged = logged, lr_device_bundles = bs,
               lr_device_revocations = device_revocations user (rs_db (snd m6)) (rs_db (snd m7))\<rparr>, snd m7))"

text \<open>A lookup of its own accord takes one-time keys and nothing else.\<close>

definition leaves :: "(relay \<Rightarrow> 'a) \<Rightarrow> env \<Rightarrow> bool" where
  "leaves f env \<longleftrightarrow> (\<forall>n r. f (env n r) = f r) \<and> (\<forall>r d. f (r\<lparr>rs_one_time := d\<rparr>) = f r) \<and>
     (\<forall>r d. f (r\<lparr>rs_pq_one_time := d\<rparr>) = f r)"

lemma leaves_alone: "leaves rs_db alone" "leaves rs_online alone" "leaves rs_mail alone"
  by (simp_all add: leaves_def)

lemma turn_keeps: "leaves f env \<Longrightarrow> f (snd (turn env m)) = f (snd m)"
  by (simp add: turn_def leaves_def)

lemma pop_keeps:
  assumes "leaves f env"
  shows "f (snd (snd (pop_one_time_prekeys env K vd b m))) = f (snd m)"
proof -
  have "f (r\<lparr>rs_one_time := d\<rparr>) = f r" "f (r\<lparr>rs_pq_one_time := d\<rparr>) = f r" for r d
    using assms by (simp_all add: leaves_def)
  with turn_keeps [OF assms] show ?thesis
    by (simp add: pop_one_time_prekeys_def case_prod_beta Let_def split: option.split)
qed

lemma device_bundles_in_keeps:
  "leaves f env \<Longrightarrow> f (snd (snd (device_bundles_in env K vd acct ds m))) = f (snd m)"
  by (induction ds arbitrary: m) (simp_all add: pop_keeps turn_keeps case_prod_beta Let_def split: option.split)

lemma bundle_with_keeps:
  "leaves f env \<Longrightarrow> f (snd (snd (bundle_with_one_time_prekey env K vd user m))) = f (snd m)"
  by (simp add: bundle_with_one_time_prekey_def pop_keeps turn_keeps case_prod_beta Let_def split: option.split)

lemma on_lookup_keeps:
  "leaves f env \<Longrightarrow> f (snd (on_lookup env C K vd al pk dv user r)) = f r"
  by (simp add: on_lookup_def device_bundles_def device_bundles_in_keeps bundle_with_keeps turn_keeps
      case_prod_beta Let_def split: option.split)

section \<open>Mail\<close>

text \<open>
  Accepting an envelope for its recipient. Pushing it to a session of the recipient is a
  separate step, modelled with the sessions.
\<close>

definition route :: "codecs \<Rightarrow> limits \<Rightarrow> envelope \<Rightarrow> u64 \<Rightarrow> relay \<Rightarrow> (unit, rejection) res \<times> relay" where
  "route K l e now r =
    (if MAX_CIPHERTEXT_BYTES < length (ciphertext e) then (Err (TooLarge, ''ciphertext too large''), r)
     else if is_revoked_device (env_to e) (rs_db r) then
       (Err (NotFound, ''the recipient device has been revoked by its account''), r)
     else if bundle_of (env_to e) (rs_db r) = None then
       (Err (NotFound, ''no such recipient on this relay''), r)
     else case enqueue (cd_envelope K) e now l (rs_mail r) of
       Ok (Stored, mail) \<Rightarrow> (Ok (), r\<lparr>rs_mail := mail\<rparr>)
     | Ok (Duplicate, mail) \<Rightarrow> (Ok (), r\<lparr>rs_mail := mail\<rparr>)
     | Ok (MailboxFull, mail) \<Rightarrow> (Err (MailboxIsFull, ''recipient mailbox is full''), r\<lparr>rs_mail := mail\<rparr>)
     | Ok (StorageFull, mail) \<Rightarrow>
         (Err (StorageIsFull, ''this relay is holding as much queued mail as it will''), r\<lparr>rs_mail := mail\<rparr>)
     | Err _ \<Rightarrow> (Err (Internal, ''storage error''), r)
     | Panic \<Rightarrow> (Panic, r))"

section \<open>Histories\<close>

text \<open>
  A login that has proved its key: refused, or let through to registering its session. The
  check and the registration are separate steps, and statements of others may be taken in
  between; a connection let through always registers.
\<close>

definition login :: "user_id \<Rightarrow> relay \<Rightarrow> (unit, rejection) res \<times> relay" where
  "login user r =
    (case login_refusal user (rs_db r) of
       Some why \<Rightarrow> (Err (Forbidden, why), r)
     | None \<Rightarrow> (Ok (), r\<lparr>rs_admitted := user # rs_admitted r\<rparr>))"

definition register :: "user_id \<Rightarrow> relay \<Rightarrow> relay" where
  "register user r = r\<lparr>rs_admitted := remove1 user (rs_admitted r), rs_online := insert user (rs_online r)\<rparr>"

datatype relay_op =
    RPublish verdicts user_id key_bundle "bytes option" u64
  | RRevoke verdicts revocation u64
  | RSucceed verdicts succession u64
  | RRevokeDevice verdicts user_id device_revocation u64
  | RUnrevokeDevice user_id
  | REvict user_id
  | RLookup verdicts bool bool bool user_id
  | RLogin user_id
  | RRegister user_id
  | RClose user_id
  | RSend envelope u64
  | RAck user_id rstr

fun relay_step :: "crypto \<Rightarrow> codecs \<Rightarrow> policy \<Rightarrow> relay \<Rightarrow> relay_op \<Rightarrow> relay" where
  "relay_step C K po r (RPublish vd me b invite now) = snd (publish C K po vd me b invite now r)"
| "relay_step C K po r (RRevoke vd rv now) = snd (apply_revocation C vd rv now r)"
| "relay_step C K po r (RSucceed vd s now) = snd (apply_succession C vd s now r)"
| "relay_step C K po r (RRevokeDevice vd me rv now) = snd (apply_device_revocation C K vd me rv now r)"
| "relay_step C K po r (RUnrevokeDevice device) = snd (unrevoke_device device r)"
| "relay_step C K po r (REvict user) = snd (evict K user r)"
| "relay_step C K po r (RLookup vd allowed prekeys devices user) =
    snd (on_lookup alone C K vd allowed prekeys devices user r)"
| "relay_step C K po r (RLogin user) = snd (login user r)"
| "relay_step C K po r (RRegister user) = (if user \<in> set (rs_admitted r) then register user r else r)"
| "relay_step C K po r (RClose user) = disconnect user r"
| "relay_step C K po r (RSend e now) = snd (route K (po_limits po) e now r)"
| "relay_step C K po r (RAck user i) = r\<lparr>rs_mail := snd (ack user i (rs_mail r))\<rparr>"

text \<open>What an operation does to the database, in the terms of its own component.\<close>

lemma remove_user_data_db: "remove_user_data K user rm r = Ok (rm', r') \<Longrightarrow> rs_db r' = rs_db r"
  by (auto simp: remove_user_data_def Let_def case_prod_beta)

lemma disconnect_simps [simp]:
  "rs_db (disconnect user r) = rs_db r" "rs_mail (disconnect user r) = rs_mail r"
  "rs_online (disconnect user r) = rs_online r - {user}"
  "rs_one_time (disconnect user r) = rs_one_time r" "rs_pq_one_time (disconnect user r) = rs_pq_one_time r"
  "rs_packages (disconnect user r) = rs_packages r"
  by (simp_all add: disconnect_def)

lemma fold_disconnect_simps [simp]:
  "rs_db (fold disconnect us r) = rs_db r" "rs_mail (fold disconnect us r) = rs_mail r"
  "rs_online (fold disconnect us r) = rs_online r - set us"
  by (induction us arbitrary: r) auto

lemma on_lookup_keeps_parts [simp]:
  "rs_db (snd (on_lookup alone C K vd al pk dv user r)) = rs_db r"
  "rs_online (snd (on_lookup alone C K vd al pk dv user r)) = rs_online r"
  "rs_mail (snd (on_lookup alone C K vd al pk dv user r)) = rs_mail r"
  by (rule on_lookup_keeps, rule leaves_alone)+

lemma deposit_keys_db [simp]: "rs_db (snd (deposit_keys K me p r)) = rs_db r"
  by (auto simp: deposit_keys_def Let_def split: res.splits prod.splits)

definition db_ops :: "crypto \<Rightarrow> codecs \<Rightarrow> policy \<Rightarrow> relay \<Rightarrow> relay_op \<Rightarrow> log_op list" where
  "db_ops C K po r x =
    (case x of
       RPublish vd me b invite now \<Rightarrow>
         if rs_db (relay_step C K po r x) = rs_db r then [] else [OpPut (without_one_time b) now]
     | RRevoke vd rv now \<Rightarrow> if rs_db (relay_step C K po r x) = rs_db r then [] else [OpRevoke rv now]
     | RSucceed vd s now \<Rightarrow> if rs_db (relay_step C K po r x) = rs_db r then [] else [OpSucceed s now]
     | RRevokeDevice vd me rv now \<Rightarrow>
         if rs_db (relay_step C K po r x) = rs_db r then [] else [OpRevokeDevice rv now]
     | RUnrevokeDevice device \<Rightarrow> [OpUnrevokeDevice device]
     | REvict user \<Rightarrow> if rs_db (relay_step C K po r x) = rs_db r then [] else [OpRemove user]
     | _ \<Rightarrow> [])"

lemma publish_db:
  "rs_db (snd (publish C K po vd me b invite now r)) \<in>
    {rs_db r, log_step C (rs_db r) (OpPut (without_one_time b) now)}"
  by (auto simp: publish_def Let_def committed_def split: option.splits res.splits)

lemma apply_revocation_db:
  "rs_db (snd (apply_revocation C vd rv now r)) \<in> {rs_db r, log_step C (rs_db r) (OpRevoke rv now)}"
  by (auto simp: apply_revocation_def committed_def split: option.splits res.splits)

lemma apply_succession_db:
  "rs_db (snd (apply_succession C vd s now r)) \<in> {rs_db r, log_step C (rs_db r) (OpSucceed s now)}"
  by (auto simp: apply_succession_def committed_def split: option.splits res.splits)

lemma cut_off_keeps: "cut_off K user r = Ok (rm, r') \<Longrightarrow> rs_db r' = rs_db r \<and> rs_online r' = rs_online r"
  by (auto simp: cut_off_def remove_user_data_def Let_def case_prod_beta)

definition kept_off :: "codecs \<Rightarrow> user_id \<Rightarrow> bool \<Rightarrow> relay \<Rightarrow> relay" where
  "kept_off K device new r = (if new then (case cut_off K device r of Ok (_, r2) \<Rightarrow> r2 | _ \<Rightarrow> r) else r)"

lemma kept_off_keeps [simp]:
  "rs_db (kept_off K d new r) = rs_db r" "rs_online (kept_off K d new r) = rs_online r"
  using cut_off_keeps by (auto simp: kept_off_def split: res.splits)

lemma apply_device_revocation_cases:
  obtains (refused) "snd (apply_device_revocation C K vd me rv now r) = r"
  | (taken) mine new db where "dr_account rv = me" "bundle_of me (rs_db r) = Some mine"
    "may_revoke_device me mine (dr_device rv) (rs_db r)"
    "set_device_revocation C rv now (rs_db r) = Ok (new, db)"
    "snd (apply_device_revocation C K vd me rv now r) =
      (if claims_me me (dr_device rv) (rs_db r)
       then disconnect (dr_device rv) (kept_off K (dr_device rv) new (r\<lparr>rs_db := db\<rparr>)) else r\<lparr>rs_db := db\<rparr>)"
proof (cases "vd_registration vd \<and> dr_account rv = me \<and> is_ok (dr_verify C rv)")
  case True
  show thesis
  proof (cases "bundle_of me (rs_db r)")
    case (Some mine)
    show thesis
    proof (cases "may_revoke_device me mine (dr_device rv) (rs_db r)")
      case may: True
      show thesis
      proof (cases "set_device_revocation C rv now (rs_db r)")
        case (Ok p)
        then show thesis
          using True Some may taken
          by (cases p) (simp add: apply_device_revocation_def Let_def kept_off_def)
      qed (use True Some may refused in \<open>simp_all add: apply_device_revocation_def\<close>)
    qed (use True Some refused in \<open>simp add: apply_device_revocation_def\<close>)
  qed (use True refused in \<open>simp add: apply_device_revocation_def\<close>)
qed (use refused in \<open>auto simp: apply_device_revocation_def\<close>)

lemma apply_device_revocation_db:
  "rs_db (snd (apply_device_revocation C K vd me rv now r)) \<in> {rs_db r, log_step C (rs_db r) (OpRevokeDevice rv now)}"
  by (cases rule: apply_device_revocation_cases [of C K vd me rv now r]) (simp_all add: committed_def)

lemma evict_db: "rs_db (snd (evict K user r)) \<in> {rs_db r, log_step C (rs_db r) (OpRemove user)}"
  by (auto simp: evict_def remove_user_def Let_def case_prod_beta split: res.splits dest!: remove_user_data_db)

lemma route_keeps: "rs_db (snd (route K l e now r)) = rs_db r \<and> rs_online (snd (route K l e now r)) = rs_online r"
  by (auto simp: route_def split: res.splits prod.splits enqueue_outcome.splits)

lemma relay_step_db: "rs_db (relay_step C K po r x) = run (log_step C) (rs_db r) (db_ops C K po r x)"
proof (cases x)
  case (RPublish vd me b invite now)
  then show ?thesis using publish_db [of C K po vd me b invite now r] by (auto simp: db_ops_def)
next
  case (RRevoke vd rv now)
  then show ?thesis using apply_revocation_db [of C vd rv now r] by (auto simp: db_ops_def)
next
  case (RSucceed vd s now)
  then show ?thesis using apply_succession_db [of C vd s now r] by (auto simp: db_ops_def)
next
  case (RRevokeDevice vd me rv now)
  then show ?thesis using apply_device_revocation_db [of C K vd me rv now r] by (auto simp: db_ops_def)
next
  case (REvict user)
  then show ?thesis using evict_db [of K user r C] by (auto simp: db_ops_def)
next
  case (RLogin user)
  then show ?thesis by (auto simp: db_ops_def login_def split: option.split)
next
  case (RRegister user)
  then show ?thesis by (simp add: db_ops_def register_def)
next
  case (RSend e now)
  then show ?thesis by (simp add: db_ops_def route_keeps)
qed (simp_all add: db_ops_def unrevoke_device_def case_prod_beta Let_def)

section \<open>Revocations are kept\<close>

lemma append_log_same: "append_log C subj kind leaf t db = Ok (e, db') \<Longrightarrow> same_tables db db'"
  by (auto simp: append_log_def Let_def same_tables_def)

lemma put_bundle_tables:
  assumes "put_bundle C b t db = Ok db'"
  shows "rl_bundles db' = tput (kb_user_id b) b (rl_bundles db) \<and> rl_revocations db' = rl_revocations db \<and>
    rl_device_revocations db' = rl_device_revocations db"
  using assms
  by (auto simp: put_bundle_def log_bundle_in_def store_bundle_in_def Let_def same_tables_def split: if_splits
      dest!: append_log_same)

lemma set_revocation_tables:
  assumes "set_revocation C rv t db = Ok db'"
  shows "rl_bundles db' = rl_bundles db \<and> rl_revocations db' = tput (rev_identity rv) rv (rl_revocations db) \<and>
    rl_device_revocations db' = rl_device_revocations db"
  using assms by (auto simp: set_revocation_def same_tables_def dest!: append_log_same)

lemma set_succession_tables:
  assumes "set_succession C s t db = Ok db'"
  shows "rl_bundles db' = rl_bundles db \<and> rl_revocations db' = rl_revocations db \<and>
    rl_device_revocations db' = rl_device_revocations db"
  using assms by (auto simp: set_succession_def same_tables_def dest!: append_log_same)

lemma set_device_revocation_tables:
  assumes "set_device_revocation C rv t db = Ok (new, db')"
  shows "rl_bundles db' = rl_bundles db \<and> rl_revocations db' = rl_revocations db \<and>
    rl_device_revocations db' = (if new then tput (dr_device rv) rv (rl_device_revocations db) else rl_device_revocations db) \<and>
    (new \<longleftrightarrow> tget (rl_device_revocations db) (dr_device rv) = None) \<and> (\<not> new \<longrightarrow> db' = db)"
  using assms by (auto simp: set_device_revocation_def same_tables_def split: if_splits dest!: append_log_same)

text \<open>The three tables the refusals read, and the sessions, before and after an operation.\<close>

abbreviation "bundles r \<equiv> tget (rl_bundles (rs_db r))"
abbreviation "revocations r \<equiv> tget (rl_revocations (rs_db r))"
abbreviation "device_rows r \<equiv> tget (rl_device_revocations (rs_db r))"

lemma deposit_keys_online [simp]: "rs_online (snd (deposit_keys K me p r)) = rs_online r"
  by (auto simp: deposit_keys_def Let_def split: res.splits prod.splits)

lemma publish_tables:
  "relay_step C K po r (RPublish vd me b invite now) = r' \<Longrightarrow>
    revocations r' = revocations r \<and> device_rows r' = device_rows r \<and> rs_online r' = rs_online r \<and>
    (bundles r' = bundles r \<or>
      publish_refusal C po vd me b invite r = None \<and> bundles r' = (bundles r)(me \<mapsto> without_one_time b))"
proof -
  assume r': "relay_step C K po r (RPublish vd me b invite now) = r'"
  have me: "kb_user_id (without_one_time b) = me" if "publish_refusal C po vd me b invite r = None"
    using that by (auto simp: publish_refusal_def without_one_time_def Let_def split: if_splits)
  show ?thesis
  proof (cases "publish_refusal C po vd me b invite r")
    case None
    show ?thesis
      using r' None me put_bundle_tables [of C "without_one_time b" now "rs_db r"]
      by (auto simp: publish_def Let_def split: option.splits res.splits if_splits)
  qed (use r' in \<open>auto simp: publish_def\<close>)
qed

lemma revoke_tables:
  "relay_step C K po r (RRevoke vd rv now) = r' \<Longrightarrow>
    bundles r' = bundles r \<and> device_rows r' = device_rows r \<and>
    (revocations r' = revocations r \<and> rs_online r' = rs_online r \<or>
      revocations r' = (revocations r)(rev_identity rv \<mapsto> rv) \<and> is_ok (revocation_verify C rv) \<and>
      rs_online r' \<subseteq> rs_online r - {rev_identity rv})"
  using set_revocation_tables [of C rv now "rs_db r"]
  by (auto simp: apply_revocation_def split: option.splits res.splits if_splits)

lemma succeed_tables:
  "relay_step C K po r (RSucceed vd s now) = r' \<Longrightarrow>
    bundles r' = bundles r \<and> device_rows r' = device_rows r \<and> revocations r' = revocations r \<and>
    rs_online r' = rs_online r"
  using set_succession_tables [of C s now "rs_db r"]
  by (auto simp: apply_succession_def split: option.splits res.splits if_splits)

lemma revoke_device_tables:
  assumes "relay_step C K po r (RRevokeDevice vd me rv now) = r'"
  shows "bundles r' = bundles r \<and> revocations r' = revocations r \<and>
    (device_rows r' = device_rows r \<and> rs_online r' \<subseteq> rs_online r \<or>
      device_rows r' = (device_rows r)(dr_device rv \<mapsto> rv) \<and> device_rows r (dr_device rv) = None \<and>
      dr_account rv = me \<and>
      (if device_account (dr_device rv) (rs_db r) = Some me then rs_online r' = rs_online r - {dr_device rv}
       else bundles r (dr_device rv) = None \<and> rs_online r' = rs_online r))"
proof (cases rule: apply_device_revocation_cases [of C K vd me rv now r])
  case refused
  then show ?thesis using assms by simp
next
  case (taken mine new db)
  let ?claims = "claims_me me (dr_device rv) (rs_db r)"
  note t = set_device_revocation_tables [OF taken(4)]
  have db: "rs_db r' = db" and on: "rs_online r' = (if ?claims then rs_online r - {dr_device rv} else rs_online r)"
    unfolding assms [symmetric] relay_step.simps taken(5) by simp_all
  have "bundles r (dr_device rv) = None" if "\<not> ?claims"
    using taken(3) that by (simp add: may_revoke_device_def bundle_of_def)
  with t taken(1) db on show ?thesis by (auto simp: claims_me_def)
qed

lemma unrevoke_tables:
  "relay_step C K po r (RUnrevokeDevice d) = r' \<Longrightarrow>
    bundles r' = bundles r \<and> revocations r' = revocations r \<and> device_rows r' = (device_rows r)(d := None) \<and>
    rs_online r' = rs_online r"
  by (auto simp: unrevoke_device_def remove_device_revocation_def Let_def case_prod_beta fun_eq_iff split: option.splits)

lemma evict_tables:
  "relay_step C K po r (REvict u) = r' \<Longrightarrow>
    revocations r' = revocations r \<and> device_rows r' = device_rows r \<and> rs_online r' \<subseteq> rs_online r \<and>
    (bundles r' = bundles r \<or> bundles r' = (bundles r)(u := None))"
proof -
  assume r': "relay_step C K po r (REvict u) = r'"
  show ?thesis
  proof (cases "remove_user K u (disconnect u r)")
    case (Ok p)
    then obtain rm where "remove_user K u (disconnect u r) = Ok (rm, r')" using r' by (cases p) (simp add: evict_def)
    then have "rs_db r' = snd (remove_bundle u (rs_db r))" "rs_online r' = rs_online r - {u}"
      by (auto simp: remove_user_def remove_user_data_def Let_def case_prod_beta)
    then show ?thesis by (auto simp: remove_bundle_def Let_def fun_eq_iff)
  qed (use r' in \<open>auto simp: evict_def\<close>)
qed

lemma lookup_tables:
  "relay_step C K po r (RLookup vd al pk dv u) = r' \<Longrightarrow> rs_db r' = rs_db r \<and> rs_online r' = rs_online r"
  by auto

lemma login_tables:
  "relay_step C K po r (RLogin u) = r' \<Longrightarrow> rs_db r' = rs_db r \<and> rs_online r' = rs_online r"
  "relay_step C K po r (RRegister u) = r' \<Longrightarrow>
    rs_db r' = rs_db r \<and> rs_online r' = (if u \<in> set (rs_admitted r) then insert u (rs_online r) else rs_online r)"
  "relay_step C K po r (RClose u) = r' \<Longrightarrow> rs_db r' = rs_db r \<and> rs_online r' = rs_online r - {u}"
  by (auto simp: login_def register_def split: option.splits)

lemma mail_tables:
  "relay_step C K po r (RSend e now) = r' \<Longrightarrow> rs_db r' = rs_db r \<and> rs_online r' = rs_online r"
  "relay_step C K po r (RAck u i) = r' \<Longrightarrow> rs_db r' = rs_db r \<and> rs_online r' = rs_online r"
  by (drule sym, simp add: route_keeps) (drule sym, simp)

lemma account_without_one_time [simp]: "account (without_one_time b) = account b"
  by (simp add: bundle_account_def without_one_time_def)

lemma is_revoked_rows: "is_revoked u (rs_db r) \<longleftrightarrow> revocations r u \<noteq> None"
  by (simp add: is_revoked_def)

lemma is_revoked_device_rows:
  "is_revoked_device u (rs_db r) \<longleftrightarrow>
    (\<exists>b row. bundles r u = Some b \<and> device_rows r u = Some row \<and> account b = Some (dr_account row))"
  by (auto simp: is_revoked_device_def device_account_def revoked_by_def bundle_of_def device_revocation_of_def
      bind_eq_Some_conv split: option.splits)

lemma publish_allowed:
  "publish_refusal C po vd me b invite r = None \<Longrightarrow>
    kb_user_id b = me \<and> is_ok (bundle_verify C b) \<and> \<not> is_revoked me (rs_db r) \<and> \<not> is_revoked_device me (rs_db r) \<and>
    (\<forall>acct. account b = Some acct \<longrightarrow> \<not> revoked_by acct me (rs_db r))"
  by (auto simp: publish_refusal_def Let_def split: if_splits option.splits)

text \<open>
  No session is left to an identity that is revoked, or revoked as a device, unless a login
  that was checked before the revocation registers after it.
\<close>

definition cut_out :: "user_id \<Rightarrow> relay \<Rightarrow> bool" where
  "cut_out u r \<longleftrightarrow> is_revoked u (rs_db r) \<or> is_revoked_device u (rs_db r)"

definition registers_late :: "user_id \<Rightarrow> relay \<Rightarrow> relay_op \<Rightarrow> bool" where
  "registers_late u r x \<longleftrightarrow> x = RRegister u \<and> u \<in> set (rs_admitted r) \<and> cut_out u r"

definition session_ok :: "user_id \<Rightarrow> relay \<Rightarrow> bool" where
  "session_ok u r \<longleftrightarrow> (u \<in> rs_online r \<longrightarrow> \<not> cut_out u r)"

lemmas session_rows = session_ok_def cut_out_def is_revoked_rows is_revoked_device_rows

lemma session_ok_step:
  assumes "session_ok u r" "\<not> registers_late u r x"
  shows "session_ok u (relay_step C K po r x)"
proof (cases x)
  case (RPublish vd me b invite now)
  with publish_tables [OF refl, of C K po r vd me b invite now]
    publish_allowed [of C po vd me b invite r] assms(1) show ?thesis
    unfolding session_rows by (fastforce simp: revoked_by_def device_revocation_of_def split: if_splits)
next
  case (RRevoke vd rv now)
  with revoke_tables [OF refl, of C K po r vd rv now] assms(1) show ?thesis
    unfolding session_rows by (auto split: if_splits)
next
  case (RSucceed vd s now)
  with succeed_tables [OF refl, of C K po r vd s now] assms(1) show ?thesis
    unfolding session_rows by simp
next
  case (RRevokeDevice vd me rv now)
  with revoke_device_tables [OF refl, of C K po r vd me rv now] assms(1) show ?thesis
    unfolding session_rows
    by (auto simp: device_account_def bundle_of_def bind_eq_None_conv split: if_splits)
next
  case (RUnrevokeDevice d)
  with unrevoke_tables [OF refl, of C K po r d] assms(1) show ?thesis
    unfolding session_rows by (auto split: if_splits)
next
  case (REvict v)
  with evict_tables [OF refl, of C K po r v] assms(1) show ?thesis
    unfolding session_rows by (auto split: if_splits)
next
  case (RLookup vd al pk dv v)
  with lookup_tables [OF refl, of C K po r vd al pk dv v] assms(1) show ?thesis
    by (simp add: session_ok_def cut_out_def)
next
  case (RRegister v)
  with login_tables(2) [OF refl, of C K po r v] assms show ?thesis
    by (auto simp: session_ok_def cut_out_def registers_late_def split: if_splits)
qed (use login_tables [OF refl, of C K po r] mail_tables [OF refl, of C K po r] assms(1)
    in \<open>simp_all add: session_ok_def cut_out_def\<close>)

lemma session_ok_run:
  "session_ok u r \<Longrightarrow> True \<notin> set (trace (relay_step C K po) (registers_late u) r xs) \<Longrightarrow>
    session_ok u (run (relay_step C K po) r xs)"
  by (induction xs arbitrary: r) (simp_all add: session_ok_step)

text \<open>The revoked only become more.\<close>

lemma revoked_step: "is_revoked u (rs_db r) \<Longrightarrow> is_revoked u (rs_db (relay_step C K po r x))"
  unfolding is_revoked_rows
  using publish_tables [OF refl, of C K po r] revoke_tables [OF refl, of C K po r]
    succeed_tables [OF refl, of C K po r] revoke_device_tables [OF refl, of C K po r]
    unrevoke_tables [OF refl, of C K po r] evict_tables [OF refl, of C K po r]
    lookup_tables [OF refl, of C K po r] login_tables [OF refl, of C K po r] mail_tables [OF refl, of C K po r]
  by (cases x) (metis fun_upd_apply option.distinct(1))+

definition spares :: "user_id \<Rightarrow> relay_op \<Rightarrow> bool" where
  "spares d x \<longleftrightarrow> x \<noteq> RUnrevokeDevice d \<and> x \<noteq> REvict d"

lemma revoked_device_step:
  assumes "is_revoked_device d (rs_db r)" "spares d x"
  shows "is_revoked_device d (rs_db (relay_step C K po r x))"
proof (cases x)
  case (RPublish vd me b invite now)
  with publish_tables [OF refl, of C K po r vd me b invite now]
    publish_allowed [of C po vd me b invite r] assms show ?thesis
    unfolding is_revoked_device_rows by (cases "me = d") auto
next
  case (RRevokeDevice vd me rv now)
  with revoke_device_tables [OF refl, of C K po r vd me rv now] assms show ?thesis
    unfolding is_revoked_device_rows by (cases "dr_device rv = d") auto
next
  case (RUnrevokeDevice e)
  with unrevoke_tables [OF refl, of C K po r e] assms show ?thesis
    unfolding is_revoked_device_rows by (auto simp: spares_def)
next
  case (REvict u)
  with evict_tables [OF refl, of C K po r u] assms show ?thesis
    unfolding is_revoked_device_rows by (auto simp: spares_def)
qed (use assms revoke_tables [OF refl, of C K po r] succeed_tables [OF refl, of C K po r]
    lookup_tables [OF refl, of C K po r] login_tables [OF refl, of C K po r] mail_tables [OF refl, of C K po r]
    in \<open>auto simp: is_revoked_device_rows\<close>)

section \<open>Mailboxes and deposits of the others\<close>

lemma cut_off_mail:
  "rs_mail (case cut_off K u r of Ok (_, r') \<Rightarrow> r' | _ \<Rightarrow> r) =
    mailbox_step (cd_envelope K) l (rs_mail r) (RemoveUser u)"
  by (auto simp: cut_off_def remove_user_data_def mailbox_step_def Let_def case_prod_beta split: res.splits)

lemma deposit_keys_mail [simp]: "rs_mail (snd (deposit_keys K me p r)) = rs_mail r"
  by (auto simp: deposit_keys_def Let_def split: res.splits prod.splits)

lemma evict_mail:
  "rs_mail (snd (evict K u r)) = mailbox_step (cd_envelope K) l (rs_mail r) (RemoveUser u)"
  by (auto simp: evict_def remove_user_def remove_user_data_def mailbox_step_def Let_def case_prod_beta split: res.splits)

lemma route_mail:
  "rs_mail (snd (route K l e now r)) \<in> {rs_mail r, mailbox_step (cd_envelope K) l (rs_mail r) (Enqueue e now)}"
  by (auto simp: route_def mailbox_step_def split: res.splits prod.splits enqueue_outcome.splits)

lemma kept_off_mail:
  "rs_mail (kept_off K u new r) \<in> {rs_mail r, mailbox_step (cd_envelope K) l (rs_mail r) (RemoveUser u)}"
  using cut_off_mail [where K = K and u = u and l = l and r = r] by (simp add: kept_off_def)

lemma revoke_device_mail:
  "rs_mail (snd (apply_device_revocation C K vd me rv now r)) \<in>
    {rs_mail r, mailbox_step (cd_envelope K) l (rs_mail r) (RemoveUser (dr_device rv))}"
proof (cases rule: apply_device_revocation_cases [of C K vd me rv now r])
  case (taken mine new db)
  with kept_off_mail [of K "dr_device rv" new "r\<lparr>rs_db := db\<rparr>" l] show ?thesis by simp
qed simp

lemma relay_mail:
  assumes "json_reads_back (cd_envelope K)" "mailbox_inv (cd_envelope K) (rs_mail r)"
  shows "mailbox_inv (cd_envelope K) (rs_mail (relay_step C K po r x))"
proof -
  note i = mailbox_inv_step [OF assms, of "po_limits po"]
  show ?thesis
  proof (cases x)
    case (RPublish vd me b invite now)
    with assms(2) show ?thesis by (auto simp: publish_def Let_def split: option.split res.split)
  next
    case (RRevoke vd rv now)
    with assms(2) show ?thesis by (auto simp: apply_revocation_def split: option.split res.split)
  next
    case (RSucceed vd s now)
    with assms(2) show ?thesis by (auto simp: apply_succession_def split: option.split res.split)
  next
    case (RRevokeDevice vd me rv now)
    with assms(2) i [of "RemoveUser (dr_device rv)"] revoke_device_mail [of C K vd me rv now r "po_limits po"]
    show ?thesis by auto
  next
    case (REvict u)
    with i [of "RemoveUser u"] evict_mail [of K u r "po_limits po"] show ?thesis by simp
  next
    case (RLogin u)
    with assms(2) show ?thesis by (auto simp: login_def split: option.split)
  next
    case (RRegister u)
    with assms(2) show ?thesis by (simp add: register_def)
  next
    case (RSend e now)
    with assms(2) i [of "Enqueue e now"] route_mail [of K "po_limits po" e now r] show ?thesis by auto
  next
    case (RAck u j)
    with i [of "Ack u j"] show ?thesis by (simp add: mailbox_step_def)
  qed (use assms(2) in \<open>simp_all add: unrevoke_device_def Let_def case_prod_beta\<close>)
qed

interpretation relay_mailboxes: run_invariant "json_reads_back (cd_envelope K)" "relay_step C K po" fresh_relay
  "\<lambda>r. mailbox_inv (cd_envelope K) (rs_mail r)" for C K po
  by unfold_locales (simp_all add: relay_mail, simp add: fresh_relay_def mailbox_inv_empty)

text \<open>Everything the relay keeps for one identity besides the log and the statements.\<close>

definition belongings ::
  "codecs \<Rightarrow> user_id \<Rightarrow> relay \<Rightarrow>
    (u64 \<times> envelope) list \<times> (u32 \<rightharpoonup> bytes) \<times> (u32 \<rightharpoonup> unit) \<times> (u32 \<rightharpoonup> bytes) \<times> (u32 \<rightharpoonup> unit) \<times>
    (nat \<rightharpoonup> key_package) \<times> (bytes \<rightharpoonup> unit) \<times> key_package option" where
  "belongings K u r =
    (letters_of (cd_envelope K) (rs_mail r) u,
     (\<lambda>i. tget (deposited (rs_one_time r)) (u, i)), (\<lambda>i. tget (used_keys (rs_one_time r)) (u, i)),
     (\<lambda>i. tget (deposited (rs_pq_one_time r)) (u, i)), (\<lambda>i. tget (used_keys (rs_pq_one_time r)) (u, i)),
     (\<lambda>i. tget (packages (rs_packages r)) (u, i)), (\<lambda>i. tget (packages_used (rs_packages r)) (u, i)),
     tget (last_resorts (rs_packages r)) u)"

lemma remove_user_data_belongings:
  assumes "remove_user_data K v rm r = Ok (rm', r')" "json_reads_back (cd_envelope K)"
    "mailbox_inv (cd_envelope K) (rs_mail r)"
  shows "belongings K u r' =
    (if u = v then ([], Map.empty, Map.empty, Map.empty, Map.empty, Map.empty, Map.empty, None) else belongings K u r)"
proof -
  obtain c mail d1 d2 ps n1 n2 n3 where m: "remove_user_mail (cd_envelope K) v (rs_mail r) = Ok (c, mail)"
    and d: "clear_deposit v (rs_one_time r) = (n1, d1)" "clear_deposit v (rs_pq_one_time r) = (n2, d2)"
      "clear_packages v (rs_packages r) = (n3, ps)"
    and r': "r' = r\<lparr>rs_mail := mail, rs_one_time := d1, rs_pq_one_time := d2, rs_packages := ps\<rparr>"
    using assms(1)
    by (cases "clear_deposit v (rs_one_time r)"; cases "clear_deposit v (rs_pq_one_time r)";
        cases "clear_packages v (rs_packages r)") (auto simp: remove_user_data_def)
  show ?thesis
    using letters_remove [OF assms(2,3) m] clear_deposit_rows [OF d(1)] clear_deposit_rows [OF d(2)]
      clear_packages_rows [OF d(3)]
    by (auto simp: belongings_def r' fun_eq_iff)
qed

section \<open>Operations that go through\<close>

text \<open>The log has room for \<open>n\<close> more entries.\<close>

definition roomy :: "crypto \<Rightarrow> nat \<Rightarrow> log_db \<Rightarrow> bool" where
  "roomy C n db \<longleftrightarrow> log_inv C db \<and> length (log_list db) + n < 2 ^ 64"

lemma roomy_cong:
  "rl_log db' = rl_log db \<Longrightarrow> rl_latest db' = rl_latest db \<Longrightarrow> roomy C n db' = roomy C n db"
  using log_inv_cong [of db' db C] by (simp add: roomy_def log_list_def)

lemma append_roomy:
  assumes "roomy C (Suc n) db" "sha256_length C" "length subj = 32" "length leaf = 32"
  shows "\<exists>e db'. append_log C subj kind leaf t db = Ok (e, db') \<and> roomy C n db'"
proof -
  have inv: "log_inv C db" and len: "length (log_list db) + Suc n < 2 ^ 64" using assms(1) by (auto simp: roomy_def)
  then have "unat (lh_index (head_in C (rl_log db))) = length (log_list db)"
    using log_head_index by (simp add: log_inv_def)
  with len have "lh_index (head_in C (rl_log db)) \<noteq> - 1" by (auto simp: unat_max)
  then obtain e db' where a: "append_log C subj kind leaf t db = Ok (e, db')"
    by (auto simp: append_log_def entry_after_def Let_def)
  with append_log_inv [OF inv a assms(3,4,2)] len show ?thesis by (auto simp: roomy_def)
qed

lemma put_roomy:
  assumes "roomy C (Suc n) db" "sha256_length C"
  shows "\<exists>db'. put_bundle C b t db = Ok db' \<and> roomy C n db'"
proof -
  let ?db = "store_bundle_in b db"
  have "roomy C (Suc n) ?db = roomy C (Suc n) db"
    by (rule roomy_cong) (simp_all add: store_bundle_in_def Let_def)
  with assms(1) have r: "roomy C (Suc n) ?db" by simp
  then have r': "roomy C n ?db" by (simp add: roomy_def)
  obtain e db' where "append_log C (subject C (kb_user_id b)) Bundle (bundle_leaf C b) t ?db = Ok (e, db')" "roomy C n db'"
    using append_roomy [OF r assms(2), of "subject C (kb_user_id b)" "bundle_leaf C b" Bundle t] assms(2) by auto
  with r' show ?thesis by (auto simp: put_bundle_def log_bundle_in_def Let_def)
qed

definition open_policy :: "policy \<Rightarrow> verdicts \<Rightarrow> bool" where
  "open_policy po vd \<longleftrightarrow> vd_registration vd \<and> po_max_identities po = 0 \<and> po_log_entries_per_user_per_hour po = 0"

lemma publish_taken:
  assumes "roomy C (Suc n) (rs_db r)" "sha256_length C" "publish_refusal C po vd me b invite r = None"
    "kb_prekeys b = None" "open_policy po vd"
  shows "\<exists>r'. publish C K po vd me b invite t r = (Ok None, r') \<and> roomy C n (rs_db r') \<and>
    bundles r' = (bundles r)(me \<mapsto> b) \<and> revocations r' = revocations r \<and> device_rows r' = device_rows r \<and>
    rs_online r' = rs_online r \<and> rs_invite r' = rs_invite r"
proof -
  have b: "without_one_time b = b" "kb_user_id b = me"
    using assms(3,4) publish_allowed by (auto simp: without_one_time_def)
  obtain db where "put_bundle C b t (rs_db r) = Ok db" "roomy C n db"
    using put_roomy [OF assms(1,2)] by blast
  with put_bundle_tables [OF this(1)] assms(3-5) b show ?thesis
    by (auto simp: publish_def open_policy_def Let_def)
qed

lemma revoke_device_taken:
  assumes "roomy C (Suc n) (rs_db r)" "sha256_length C" "vd_registration vd" "dr_account rv = me"
    "is_ok (dr_verify C rv)" "bundle_of me (rs_db r) = Some mine"
    "list_ex (\<lambda>d. dc_device d = dr_device rv) (kb_devices mine)" "bundle_of (dr_device rv) (rs_db r) = None"
    "device_rows r (dr_device rv) = None"
  shows "\<exists>r'. apply_device_revocation C K vd me rv t r = (Ok (), r') \<and> roomy C n (rs_db r') \<and>
    bundles r' = bundles r \<and> revocations r' = revocations r \<and>
    device_rows r' = (device_rows r)(dr_device rv \<mapsto> rv) \<and> rs_online r' = rs_online r \<and> rs_invite r' = rs_invite r"
proof -
  let ?db = "(rs_db r)\<lparr>rl_device_revocations := tput (dr_device rv) rv (rl_device_revocations (rs_db r)),
           rl_revoked_by := tput (dr_account rv, dr_device rv) () (rl_revoked_by (rs_db r))\<rparr>"
  have "roomy C (Suc n) ?db = roomy C (Suc n) (rs_db r)" by (rule roomy_cong) simp_all
  with assms(1) have "roomy C (Suc n) ?db" by simp
  from append_roomy [OF this assms(2), of "subject C (dr_device rv)" "device_revocation_leaf C rv" Revocation t] assms(2)
  obtain e db where a: "append_log C (subject C (dr_device rv)) Revocation (device_revocation_leaf C rv) t ?db = Ok (e, db)"
    and r: "roomy C n db" by auto
  have s: "set_device_revocation C rv t (rs_db r) = Ok (True, db)"
    using a assms(9) by (simp add: set_device_revocation_def)
  show ?thesis
    using assms(3-8) s r set_device_revocation_tables [OF s]
    by (simp add: apply_device_revocation_def may_revoke_device_def claims_me_def device_account_def)
qed

lemma plain_publish_allowed:
  assumes "kb_user_id b = me" "is_ok (bundle_verify C b)" "revocations r me = None"
    "case device_rows r me of Some row \<Rightarrow> account b \<noteq> Some (dr_account row) | None \<Rightarrow> True"
    "\<forall>acct. account b = Some acct \<longrightarrow> bundles r acct \<noteq> None \<and> revocations r acct = None"
    "\<forall>d \<in> set (kb_devices b). bundles r (dc_device d) = None \<and> device_rows r (dc_device d) = None"
    "bundles r me = None" "rs_invite r = None" "open_policy po vd"
  shows "publish_refusal C po vd me b invite r = None"
  using assms
  by (auto simp: publish_refusal_def registration_refusal_def claim_refusal_def open_policy_def is_revoked_def
      revoked_by_def device_revocation_of_def is_revoked_device_def device_account_def bundle_of_def bundle_account_def
      list_ex_iff Let_def split: option.splits)

text \<open>An account's bundle with one listed device, and a device's bundle that claims an account.\<close>

lemma listing_verifies:
  assumes "signature_laws C" "certify_device C i device name t = Ok c"
    "with_devices C i [c] (identity_key_bundle C i) = Ok b"
  shows "is_ok (bundle_verify C b) \<and> kb_user_id b = identity_user_id C i \<and> kb_prekeys b = None \<and>
    kb_devices b = [c] \<and> account b = None"
  using assms certified_device_verifies [OF assms(1,2)]
  by (auto simp: with_devices_def identity_key_bundle_def bundle_verify_def bundle_account_def is_ok_def Let_def)

lemma claiming_verifies:
  assumes "signature_laws C" "certify_device C i (identity_user_id C d) name t = Ok c"
    "countersign_device C d c = Ok c'"
  shows "is_ok (bundle_verify C (as_device_of c' (identity_key_bundle C d))) \<and>
    account (as_device_of c' (identity_key_bundle C d)) = Some (identity_user_id C i)"
  using assms certified_device_verifies [OF assms(1,2)] certify_device_fields [OF assms(2)]
  by (auto simp: as_device_of_def identity_key_bundle_def bundle_verify_def bundle_account_def is_ok_def Let_def
      countersign_device_def verify_presented_def dc_verify_def is_countersigned_def split: if_splits)

lemma revoke_device_verifies:
  "signature_laws C \<Longrightarrow> identity_user_id C i \<noteq> device \<Longrightarrow> is_ok (dr_verify C (revoke_device C i device t))"
  by (simp add: dr_verify_def revoke_device_def Let_def is_ok_def)

lemma revoke_device_fields [simp]:
  "dr_account (revoke_device C i device t) = identity_user_id C i" "dr_device (revoke_device C i device t) = device"
  by (simp_all add: revoke_device_def Let_def)

text \<open>
  The history of a shadowed revocation: \<open>E\<close> lists the id \<open>D\<close> of a device that has published
  nothing yet and revokes it; the account \<open>A\<close> registers; then \<open>D\<close> publishes a bundle that
  claims \<open>A\<close>.
\<close>

definition shadow_history ::
  "crypto \<Rightarrow> verdicts \<Rightarrow> identity \<Rightarrow> identity \<Rightarrow> identity \<Rightarrow> key_bundle \<Rightarrow> device_certificate \<Rightarrow> relay_op list" where
  "shadow_history C vd e a d listing claim =
    [RPublish vd (identity_user_id C e) listing None 1,
     RRevokeDevice vd (identity_user_id C e) (revoke_device C e (identity_user_id C d) 2) 2,
     RPublish vd (identity_user_id C a) (identity_key_bundle C a) None 3,
     RPublish vd (identity_user_id C d) (as_device_of claim (identity_key_bundle C d)) None 4]"

lemma plain_bundle_verifies:
  "signature_laws C \<Longrightarrow> is_ok (bundle_verify C (identity_key_bundle C i)) \<and> account (identity_key_bundle C i) = None \<and>
    kb_user_id (identity_key_bundle C i) = identity_user_id C i \<and> kb_prekeys (identity_key_bundle C i) = None \<and>
    kb_devices (identity_key_bundle C i) = []"
  by (simp add: identity_key_bundle_def bundle_verify_def bundle_account_def is_ok_def Let_def)

lemma shadow_history_state:
  assumes C: "signature_laws C" "sha256_length C" and po: "open_policy po vd"
    and ids: "distinct [identity_user_id C e, identity_user_id C a, identity_user_id C d]"
    and e: "certify_device C e (identity_user_id C d) name t = Ok ce"
      "with_devices C e [ce] (identity_key_bundle C e) = Ok listing"
    and a: "certify_device C a (identity_user_id C d) name t = Ok ca" "countersign_device C d ca = Ok claim"
    and r: "r = run (relay_step C K po) fresh_relay (shadow_history C vd e a d listing claim)"
  shows "bundles r (identity_user_id C a) = Some (identity_key_bundle C a) \<and>
    device_account (identity_user_id C d) (rs_db r) = Some (identity_user_id C a) \<and>
    device_rows r (identity_user_id C d) = Some (revoke_device C e (identity_user_id C d) 2) \<and>
    revocations r = Map.empty \<and> roomy C 2 (rs_db r)"
proof -
  let ?E = "identity_user_id C e" and ?A = "identity_user_id C a" and ?D = "identity_user_id C d"
  let ?rv = "revoke_device C e ?D 2" and ?bd = "as_device_of claim (identity_key_bundle C d)"
  note pl = listing_verifies [OF C(1) e] and pd = claiming_verifies [OF C(1) a] and pa = plain_bundle_verifies [OF C(1)]
  have dev: "dc_device ce = ?D" using certify_device_fields [OF e(1)] by simp
  have fresh: "bundles fresh_relay = Map.empty" "revocations fresh_relay = Map.empty"
    "device_rows fresh_relay = Map.empty" "rs_invite fresh_relay = None" "roomy C 6 (rs_db fresh_relay)"
    by (auto simp: fresh_relay_def fresh_log_db_def roomy_def log_inv_fresh [unfolded fresh_log_db_def] log_list_def)
  have "publish_refusal C po vd ?E listing None fresh_relay = None"
    by (rule plain_publish_allowed) (use pl fresh po in auto)
  from publish_taken [OF _ C(2) this _ po, of 5 K 1] fresh pl
  obtain r1 where r1: "relay_step C K po fresh_relay (RPublish vd ?E listing None 1) = r1" "roomy C 5 (rs_db r1)"
    "bundles r1 = [?E \<mapsto> listing]" "revocations r1 = Map.empty" "device_rows r1 = Map.empty" "rs_invite r1 = None"
    by (auto simp: eval_nat_numeral)
  have "is_ok (dr_verify C ?rv)" using revoke_device_verifies [OF C(1)] ids by simp
  from revoke_device_taken [OF _ C(2) _ _ this, of 4 r1 vd ?E listing K 2] r1 pl ids po dev
  obtain r2 where r2: "relay_step C K po r1 (RRevokeDevice vd ?E ?rv 2) = r2" "roomy C 4 (rs_db r2)"
    "bundles r2 = [?E \<mapsto> listing]" "revocations r2 = Map.empty" "device_rows r2 = [?D \<mapsto> ?rv]" "rs_invite r2 = None"
    by (auto simp: eval_nat_numeral bundle_of_def open_policy_def)
  have "publish_refusal C po vd ?A (identity_key_bundle C a) None r2 = None"
    by (rule plain_publish_allowed) (use pa [of a] r2 po ids in auto)
  from publish_taken [OF _ C(2) this _ po, of 3 K 3] r2 pa [of a]
  obtain r3 where r3: "relay_step C K po r2 (RPublish vd ?A (identity_key_bundle C a) None 3) = r3" "roomy C 3 (rs_db r3)"
    "bundles r3 = [?E \<mapsto> listing, ?A \<mapsto> identity_key_bundle C a]" "revocations r3 = Map.empty"
    "device_rows r3 = [?D \<mapsto> ?rv]" "rs_invite r3 = None"
    by (auto simp: eval_nat_numeral)
  have bd: "kb_user_id ?bd = ?D" "kb_devices ?bd = []" "kb_prekeys ?bd = None"
    using pa [of d] by (simp_all add: as_device_of_def)
  have "publish_refusal C po vd ?D ?bd None r3 = None"
    by (rule plain_publish_allowed) (use pd bd r3 po ids in auto)
  from publish_taken [OF _ C(2) this bd(3) po, of 2 K 4] r3
  obtain r4 where r4: "relay_step C K po r3 (RPublish vd ?D ?bd None 4) = r4" "roomy C 2 (rs_db r4)"
    "bundles r4 = [?E \<mapsto> listing, ?A \<mapsto> identity_key_bundle C a, ?D \<mapsto> ?bd]" "revocations r4 = Map.empty"
    "device_rows r4 = [?D \<mapsto> ?rv]"
    by (auto simp: eval_nat_numeral)
  have "r = r4" unfolding r shadow_history_def run.simps r1(1) r2(1) r3(1) r4(1) ..
  with r4 ids pd show ?thesis by (simp add: device_account_def bundle_of_def)
qed

section \<open>A concrete history\<close>

definition demo_policy :: policy where
  "demo_policy = \<lparr>po_max_identities = 0, po_log_entries_per_user_per_hour = 0, po_hosts = [], po_limits = default_limits\<rparr>"

definition demo_verdicts :: verdicts where
  "demo_verdicts = \<lparr>vd_registration = True, vd_log_entry = True, vd_handout = (\<lambda>_. True)\<rparr>"

definition demo_codecs :: codecs where
  "demo_codecs = \<lparr>cd_envelope = demo_envelope_json,
     cd_pq = demo_json
       (\<lambda>k. [[unat (pqk_id k)], map unat (pqk_public k), [unat (pqk_created_at_ms k)], map unat (pqk_signature k)])
       (\<lambda>xs. \<lparr>pqk_id = of_nat (hd (xs ! 0)), pqk_public = map of_nat (xs ! 1),
               pqk_created_at_ms = of_nat (hd (xs ! 2)), pqk_signature = map of_nat (xs ! 3)\<rparr>)\<rparr>"

definition demo_id :: "u8 \<Rightarrow> user_id" where
  "demo_id n = identity_user_id demo_crypto (demo_identity n)"

definition got :: "('a, 'e) res \<Rightarrow> 'a" where
  "got r = (case r of Ok x \<Rightarrow> x | _ \<Rightarrow> undefined)"

definition demo_listing :: key_bundle where
  "demo_listing = got (with_devices demo_crypto (demo_identity 1) [demo_certificate]
     (identity_key_bundle demo_crypto (demo_identity 1)))"

definition demo_claim_by_account :: device_certificate where
  "demo_claim_by_account = got (certify_device demo_crypto (demo_identity 3) (demo_id 2) (lit ''pc'') 7)"

definition demo_claim :: device_certificate where
  "demo_claim = got (countersign_device demo_crypto (demo_identity 2) demo_claim_by_account)"

definition demo_history :: "relay_op list" where
  "demo_history = shadow_history demo_crypto demo_verdicts (demo_identity 1) (demo_identity 3) (demo_identity 2)
     demo_listing demo_claim"

definition demo_relay :: relay where
  "demo_relay = run (relay_step demo_crypto demo_codecs demo_policy) fresh_relay demo_history"

lemma demo_open: "open_policy demo_policy demo_verdicts"
  by (simp add: open_policy_def demo_policy_def demo_verdicts_def)

lemma demo_ids_distinct:
  "distinct [identity_user_id demo_crypto (demo_identity 1), identity_user_id demo_crypto (demo_identity 3),
    identity_user_id demo_crypto (demo_identity 2)]"
  by (simp add: demo_ids)

lemma demo_ids_differ: "demo_id 2 \<noteq> demo_id 3"
  by (simp add: demo_ids demo_id_def)

lemma demo_listed:
  "with_devices demo_crypto (demo_identity 1) [demo_certificate]
    (identity_key_bundle demo_crypto (demo_identity 1)) = Ok demo_listing"
proof -
  have "check_device_list demo_crypto (identity_user_id demo_crypto (demo_identity 1)) [demo_certificate] = Ok ()"
    using certified_device_verifies [OF signature_laws_demo demo_certified]
    by (simp add: check_device_list_Ok_iff MAX_DEVICES_def)
  then show ?thesis by (simp add: demo_listing_def got_def with_devices_def identity_key_bundle_def Let_def)
qed

lemma demo_claimed_by_account:
  "certify_device demo_crypto (demo_identity 3) (identity_user_id demo_crypto (demo_identity 2)) (lit ''pc'') 7 =
    Ok demo_claim_by_account"
proof -
  have "check_new_name (lit ''pc'') = Ok ()" using demo_certified by (auto simp: certify_device_def)
  then show ?thesis
    using demo_ids_distinct by (simp add: demo_claim_by_account_def got_def certify_device_def Let_def demo_id_def)
qed

lemma demo_claimed: "countersign_device demo_crypto (demo_identity 2) demo_claim_by_account = Ok demo_claim"
  using certified_device_verifies [OF signature_laws_demo demo_claimed_by_account]
  by (simp add: demo_claim_def got_def countersign_device_def)

lemmas demo_shadow = shadow_history_state [OF signature_laws_demo demo_crypto_laws(9) demo_open demo_ids_distinct
    demo_certified demo_listed demo_claimed_by_account demo_claimed refl, of demo_codecs,
    folded demo_history_def, folded demo_relay_def, folded demo_id_def]

lemma append_log_latest:
  "append_log C subj kind leaf t db = Ok (e, db') \<Longrightarrow> s \<noteq> subj \<Longrightarrow> tget (rl_latest db') s = tget (rl_latest db) s"
  by (auto simp: append_log_def Let_def)

lemma revoke_device_log:
  "rl_successions (rs_db (snd (apply_device_revocation C K vd me rv now r))) = rl_successions (rs_db r) \<and>
    (subject C u \<noteq> subject C (dr_device rv) \<longrightarrow>
      log_latest C u (rs_db (snd (apply_device_revocation C K vd me rv now r))) = log_latest C u (rs_db r))"
proof (cases rule: apply_device_revocation_cases [of C K vd me rv now r])
  case (taken mine new db)
  have db: "rs_db (snd (apply_device_revocation C K vd me rv now r)) = db" unfolding taken(5) by simp
  show ?thesis
    unfolding db using taken(4) append_log_same [where C = C] append_log_latest [where C = C and s = "subject C u"]
    by (fastforce simp: set_device_revocation_def log_latest_def same_tables_def split: if_splits)
qed simp

section \<open>Properties\<close>

lemma revoked_run: "is_revoked u (rs_db r) \<Longrightarrow> is_revoked u (rs_db (run (relay_step C K po) r ys))"
  by (induction ys arbitrary: r) (simp_all add: revoked_step)

lemma revoked_device_run:
  "is_revoked_device d (rs_db r) \<Longrightarrow> list_all (spares d) ys \<Longrightarrow>
    is_revoked_device d (rs_db (run (relay_step C K po) r ys))"
  by (induction ys arbitrary: r) (simp_all add: revoked_device_step)


lemma demo_set_revocation:
  "\<exists>db. set_revocation demo_crypto (make_revocation demo_crypto (demo_identity 3) 6) 6 (rs_db demo_relay) = Ok db"
proof -
  let ?rv = "make_revocation demo_crypto (demo_identity 3) 6"
  let ?db = "(rs_db demo_relay)\<lparr>rl_revocations := tput (rev_identity ?rv) ?rv (rl_revocations (rs_db demo_relay))\<rparr>"
  have "roomy demo_crypto (Suc 1) ?db = roomy demo_crypto (Suc 1) (rs_db demo_relay)" by (rule roomy_cong) simp_all
  then have "roomy demo_crypto (Suc 1) ?db" using demo_shadow by (simp add: eval_nat_numeral)
  from append_roomy [OF this demo_crypto_laws(9), of "subject demo_crypto (rev_identity ?rv)"
      "revocation_leaf demo_crypto ?rv" Revocation 6] demo_crypto_laws(9)
  show ?thesis by (auto simp: set_revocation_def)
qed

lemma demo_revoked:
  "is_revoked (demo_id 3) (rs_db (run (relay_step demo_crypto demo_codecs demo_policy) fresh_relay
    (demo_history @ [RRevoke demo_verdicts (make_revocation demo_crypto (demo_identity 3) 6) 6])))"
proof -
  let ?rv = "make_revocation demo_crypto (demo_identity 3) 6"
  have rv: "rev_identity ?rv = demo_id 3" "is_ok (revocation_verify demo_crypto ?rv)"
    by (simp_all add: make_revocation_def revocation_verify_def demo_id_def is_ok_def Let_def)
  obtain db where s: "set_revocation demo_crypto ?rv 6 (rs_db demo_relay) = Ok db" using demo_set_revocation by blast
  have "bundle_of (demo_id 3) (rs_db demo_relay) \<noteq> None" "vd_registration demo_verdicts"
    using demo_shadow demo_open by (simp_all add: bundle_of_def open_policy_def)
  with rv s set_revocation_tables [OF s] show ?thesis
    by (auto simp: apply_revocation_def is_revoked_def simp flip: demo_relay_def)
qed

lemma trace_never: "(\<And>r x. x \<in> set zs \<Longrightarrow> \<not> P r x) \<Longrightarrow> True \<notin> set (trace st P r zs)"
  by (induction zs arbitrary: r) auto


text \<open>
  C10. Only its own account cuts a device off. Whatever device revocation an account sends, an
  identity that has published a bundle here and does not claim that account keeps everything.
  A revocation that names it is refused and changes nothing at all. One that names another
  device leaves its bundle, the statements held about it, its place in the log, its login, its
  session, its mail, its deposits of one-time keys and its key packages as they were.
\<close>

theorem only_own_account_cuts_off:
  assumes "json_reads_back (cd_envelope K)" "r = run (relay_step C K po) fresh_relay xs"
    and "bundle_of u (rs_db r) \<noteq> None" "device_account u (rs_db r) \<noteq> Some me"
    and "apply_device_revocation C K vd me rv now r = (res, r')"
  shows "(dr_device rv = u \<longrightarrow> (\<exists>e. res = Err e) \<and> r' = r) \<and>
    login_refusal u (rs_db r') = login_refusal u (rs_db r) \<and> (u \<in> rs_online r' \<longleftrightarrow> u \<in> rs_online r) \<and>
    belongings K u r' = belongings K u r \<and> bundle_of u (rs_db r') = bundle_of u (rs_db r) \<and>
    lifecycle u (rs_db r') (rs_db r') = lifecycle u (rs_db r) (rs_db r) \<and>
    device_revocation_of u (rs_db r') = device_revocation_of u (rs_db r) \<and>
    (subject C u \<noteq> subject C (dr_device rv) \<longrightarrow> log_latest C u (rs_db r') = log_latest C u (rs_db r))"
proof (cases "dr_device rv = u")
  case True
  with assms(3,4) have "\<not> may_revoke_device me mine (dr_device rv) (rs_db r)" for mine
    by (auto simp: may_revoke_device_def claims_me_def)
  with assms(5) have "(\<exists>e. res = Err e) \<and> r' = r"
    by (auto simp: apply_device_revocation_def split: option.splits if_splits)
  then show ?thesis by simp
next
  case False
  have r': "r' = snd (apply_device_revocation C K vd me rv now r)" using assms(5) by simp
  have inv: "mailbox_inv (cd_envelope K) (rs_mail r)"
    unfolding assms(2) by (rule relay_mailboxes.inv_reachable) (rule assms(1))
  have keep: "belongings K u (kept_off K (dr_device rv) new q) = belongings K u q"
    if "rs_mail q = rs_mail r" for q new
    using remove_user_data_belongings [of K "dr_device rv" no_removed q _ _ u] False assms(1) inv that
    by (auto simp: kept_off_def cut_off_def split: res.split)
  have db: "belongings K u (r\<lparr>rs_db := d\<rparr>) = belongings K u r" "belongings K u (disconnect v q) = belongings K u q" for d v q
    by (simp_all add: belongings_def)
  have same: "belongings K u r' = belongings K u r \<and> (u \<in> rs_online r' \<longleftrightarrow> u \<in> rs_online r)"
  proof (cases rule: apply_device_revocation_cases [of C K vd me rv now r])
    case (taken mine new d)
    show ?thesis
      unfolding r' taken(5) using keep [of "r\<lparr>rs_db := d\<rparr>" new] db False by (simp del: insert_Diff_single)
  qed (simp add: r')
  have t: "bundles r' = bundles r" "revocations r' = revocations r" "device_rows r' u = device_rows r u"
    using revoke_device_tables [of C K po r vd me rv now r'] r' False by auto
  then have "is_revoked v (rs_db r') = is_revoked v (rs_db r)" "device_account u (rs_db r') = device_account u (rs_db r)"
    "revoked_by v u (rs_db r') = revoked_by v u (rs_db r)" for v
    by (simp_all add: is_revoked_def device_account_def bundle_of_def revoked_by_def device_revocation_of_def)
  then have "login_refusal u (rs_db r') = login_refusal u (rs_db r)"
    by (simp only: login_refusal_def is_revoked_device_def)
  moreover have "succession_of u (rs_db r') = succession_of u (rs_db r) \<and>
      (subject C u \<noteq> subject C (dr_device rv) \<longrightarrow> log_latest C u (rs_db r') = log_latest C u (rs_db r))"
    unfolding r' using revoke_device_log [of C K vd me rv now r u] by (simp add: succession_of_def)
  ultimately show ?thesis
    using same t False
    by (simp add: lifecycle_def revocation_of_def bundle_of_def device_revocation_of_def split: option.split)
qed

theorem only_own_account_cuts_off_witness:
  "belongings demo_codecs (demo_id 3) (snd (apply_device_revocation demo_crypto demo_codecs demo_verdicts (demo_id 1)
      (revoke_device demo_crypto (demo_identity 1) (demo_id 3) 5) 5 demo_relay)) =
   belongings demo_codecs (demo_id 3) demo_relay"
proof -
  have J: "json_reads_back (cd_envelope demo_codecs)" by (simp add: demo_codecs_def demo_envelope_reads_back)
  have "bundle_of (demo_id 3) (rs_db demo_relay) \<noteq> None" "device_account (demo_id 3) (rs_db demo_relay) \<noteq> Some (demo_id 1)"
    using demo_shadow by (simp_all add: bundle_of_def device_account_def bundle_account_def identity_key_bundle_def Let_def)
  from only_own_account_cuts_off [OF J demo_relay_def this surjective_pairing] show ?thesis by blast
qed

text \<open>
  C37. A shadowed device revocation. Device revocations are kept by device alone, so after the
  history above the account's own revocation of its device is answered as done and changes
  nothing but ending the device's present session: it is neither stored nor logged, and the
  device is not refused its next login.
\<close>

theorem device_revocation_shadowed:
  assumes "signature_laws C" "sha256_length C" "open_policy po vd"
    and "distinct [identity_user_id C e, identity_user_id C a, identity_user_id C d]"
    and "certify_device C e (identity_user_id C d) name t = Ok ce"
      "with_devices C e [ce] (identity_key_bundle C e) = Ok listing"
    and "certify_device C a (identity_user_id C d) name t = Ok ca" "countersign_device C d ca = Ok claim"
    and "r = run (relay_step C K po) fresh_relay (shadow_history C vd e a d listing claim)"
  shows "apply_device_revocation C K vd (identity_user_id C a) (revoke_device C a (identity_user_id C d) 5) 5 r =
      (Ok (), disconnect (identity_user_id C d) r) \<and>
    login_refusal (identity_user_id C d) (rs_db (disconnect (identity_user_id C d) r)) = None"
proof -
  note s = shadow_history_state [OF assms]
  have "identity_user_id C a \<noteq> identity_user_id C d" "identity_user_id C e \<noteq> identity_user_id C a"
    using assms(4) by auto
  moreover have "is_ok (dr_verify C (revoke_device C a (identity_user_id C d) 5))"
    using revoke_device_verifies [OF assms(1)] assms(4) by simp
  moreover have "r\<lparr>rs_db := rs_db r\<rparr> = r" by simp
  ultimately show ?thesis
    using s assms(3)
    by (simp add: apply_device_revocation_def open_policy_def bundle_of_def may_revoke_device_def claims_me_def
        set_device_revocation_def login_refusal_def is_revoked_def is_revoked_device_def revoked_by_def
        device_revocation_of_def)
qed

theorem device_revocation_shadowed_witness:
  "fst (apply_device_revocation demo_crypto demo_codecs demo_verdicts (demo_id 3)
      (revoke_device demo_crypto (demo_identity 3) (demo_id 2) 5) 5 demo_relay) = Ok () \<and>
   login_refusal (demo_id 2) (rs_db (disconnect (demo_id 2) demo_relay)) = None"
  using device_revocation_shadowed [OF signature_laws_demo demo_crypto_laws(9) demo_open demo_ids_distinct
      demo_certified demo_listed demo_claimed_by_account demo_claimed refl, of demo_codecs]
  unfolding demo_history_def [symmetric] demo_relay_def [symmetric] demo_id_def [symmetric] by simp

text \<open>
  C38. A session that outlives its account. Revoking an account ends the sessions of the
  devices on the account's published list; a device that claims the account and is not on the
  list keeps its session, although its next login would be refused.
\<close>

theorem unlisted_device_keeps_session:
  assumes "apply_revocation C vd rv now r = (Ok (), r')" "bundle_of (rev_identity rv) (rs_db r) = Some b"
    and "device_account d (rs_db r) = Some (rev_identity rv)" "d \<notin> dc_device ` set (kb_devices b)"
    and "d \<in> rs_online r" "d \<noteq> rev_identity rv"
  shows "d \<in> rs_online r' \<and> login_refusal d (rs_db r') \<noteq> None"
proof -
  obtain db where s: "set_revocation C rv now (rs_db r) = Ok db"
    and r': "r' = fold disconnect (map dc_device (kb_devices b)) (disconnect (rev_identity rv) (r\<lparr>rs_db := db\<rparr>))"
    using assms(1,2) by (auto simp: apply_revocation_def split: if_splits res.splits)
  have "device_account d db = Some (rev_identity rv)" "is_revoked (rev_identity rv) db"
    using set_revocation_tables [OF s] assms(3) by (simp_all add: device_account_def bundle_of_def is_revoked_def)
  then show ?thesis using assms(4-6) by (simp add: r' login_refusal_def)
qed

theorem unlisted_device_keeps_session_witness:
  "\<exists>r'. apply_revocation demo_crypto demo_verdicts (make_revocation demo_crypto (demo_identity 3) 6) 6
      (register (demo_id 2) (snd (login (demo_id 2) demo_relay))) = (Ok (), r') \<and>
    demo_id 2 \<in> rs_online r' \<and> login_refusal (demo_id 2) (rs_db r') \<noteq> None"
proof -
  let ?rv = "make_revocation demo_crypto (demo_identity 3) 6"
  let ?r = "register (demo_id 2) (snd (login (demo_id 2) demo_relay))"
  have rv: "rev_identity ?rv = demo_id 3" "is_ok (revocation_verify demo_crypto ?rv)"
    by (simp_all add: make_revocation_def revocation_verify_def demo_id_def is_ok_def Let_def)
  have refusal: "login_refusal (demo_id 2) (rs_db demo_relay) = None"
    using demo_shadow demo_ids_distinct
    by (simp add: login_refusal_def is_revoked_def is_revoked_device_def revoked_by_def device_revocation_of_def
        demo_id_def)
  have r: "rs_db ?r = rs_db demo_relay" "demo_id 2 \<in> rs_online ?r"
    using refusal by (simp_all add: login_def register_def)
  obtain db where "set_revocation demo_crypto ?rv 6 (rs_db demo_relay) = Ok db"
    using demo_set_revocation by blast
  then obtain r' where ok: "apply_revocation demo_crypto demo_verdicts ?rv 6 ?r = (Ok (), r')"
    using demo_shadow demo_open rv r by (auto simp: apply_revocation_def bundle_of_def open_policy_def)
  have "bundle_of (rev_identity ?rv) (rs_db ?r) = Some (identity_key_bundle demo_crypto (demo_identity 3))"
    "device_account (demo_id 2) (rs_db ?r) = Some (rev_identity ?rv)"
    using demo_shadow rv r by (simp_all add: bundle_of_def)
  from unlisted_device_keeps_session [OF ok this] ok rv r demo_ids_differ show ?thesis
    by (simp add: identity_key_bundle_def Let_def)
qed

end
