(* ===== verification/KeyLookup.thy ===== *)
theory KeyLookup
  imports RelayState Tail
begin

text \<open>
  A key lookup end to end: the relay of \<open>RelayState\<close> answers, the client of \<open>Tail\<close> catches up
  with the relay's log and checks the answer against it. The frame arm that hands a
  \<^verbatim>\<open>LookupResult\<close> to the tail is that of \<^verbatim>\<open>silver-client/src/connection.rs\<close>. The relay's index of the
  latest entries and the client's are functions of one list of entries, and what the relay
  serves is its latest logged state, so an honest answer passes the client's check.
\<close>

definition answer_of :: "lookup_result \<Rightarrow> nat list \<Rightarrow> answer" where
  "answer_of res replies =
    \<lparr>an_user_id = lr_user_id res, an_bundle = lr_bundle res, an_revocation = lr_revocation res,
     an_succession = lr_succession res, an_head = lr_head res, an_logged = lr_logged res,
     an_device_bundles = lr_device_bundles res, an_device_revocations = lr_device_revocations res,
     an_replies = replies\<rparr>"

section \<open>Two indexes of one log\<close>

lemma hex_digit_inj: "m < 16 \<Longrightarrow> n < 16 \<Longrightarrow> hex_digit m = hex_digit n \<longleftrightarrow> m = n"
  by (auto simp: hex_digit_def char_of_eq_iff take_bit_nat_eq_self split: if_splits)

lemma key_inj [simp]: "key a = key b \<longleftrightarrow> a = b"
proof (induction a arbitrary: b)
  case Nil
  show ?case by (cases b) (simp_all add: key_def)
next
  case (Cons x a)
  show ?case
  proof (cases b)
    case (Cons y b')
    have "unat x < 256" "unat y < 256" using unat_less_2p [of x] unat_less_2p [of y] by simp_all
    then have "hex_digit (unat x div 16) = hex_digit (unat y div 16) \<and>
        hex_digit (unat x mod 16) = hex_digit (unat y mod 16) \<longleftrightarrow> x = y"
      using hex_digit_inj [of "unat x div 16" "unat y div 16"] hex_digit_inj [of "unat x mod 16" "unat y mod 16"]
      by (simp add: less_mult_imp_div_less) (metis div_mult_mod_eq word_unat_eq_iff)
    then show ?thesis using Cons.IH [of b'] Cons by (auto simp: key_def)
  qed (simp add: key_def)
qed

lemma position_of_kind:
  "map_option lp_leaf (position_of (of_kind (key subj) k) es) = latest_leaf k subj es"
  by (simp add: position_of_def of_kind_def [abs_def] latest_leaf_def option.map_comp comp_def)

lemma latest_of_leaves:
  "map_option lp_leaf (Option.bind (latest_of es (key subj)) lt_bundle) = latest_leaf Bundle subj es"
  "map_option lp_leaf (Option.bind (latest_of es (key subj)) lt_revocation) = latest_leaf Revocation subj es"
  "map_option lp_leaf (Option.bind (latest_of es (key subj)) lt_succession) = latest_leaf Succession subj es"
proof -
  have none: "latest_leaf k subj es = None" if "find (\<lambda>e. le_subject e = subj) (rev es) = None" for k
    using that by (auto simp: latest_leaf_None find_None_iff)
  show "map_option lp_leaf (Option.bind (latest_of es (key subj)) lt_bundle) = latest_leaf Bundle subj es"
    "map_option lp_leaf (Option.bind (latest_of es (key subj)) lt_revocation) = latest_leaf Revocation subj es"
    "map_option lp_leaf (Option.bind (latest_of es (key subj)) lt_succession) = latest_leaf Succession subj es"
    by (cases "find (\<lambda>e. le_subject e = subj) (rev es)"; simp add: latest_of_def position_of_kind none)+
qed

lemma latest_of_last:
  "map_option lt_last (latest_of es (key subj)) =
    map_option (\<lambda>e. \<lparr>lp_index = le_index e, lp_leaf = le_leaf e\<rparr>) (find (\<lambda>e. le_subject e = subj) (rev es))"
  by (simp add: latest_of_def option.map_comp comp_def)

text \<open>The check of a lookup, in terms of the log's entries.\<close>

lemma leaf_cases:
  "map_option lp_leaf x = Some l \<longleftrightarrow> (\<exists>p. x = Some p \<and> lp_leaf p = l)"
  by auto

lemma check_lookup_passes:
  assumes l: "ls_latest s = latest_of es"
    and claim: "claimed = map_option (\<lambda>e. \<lparr>lp_index = le_index e, lp_leaf = le_leaf e\<rparr>)
      (find (\<lambda>e. le_subject e = subject C u) (rev es))"
    and b: "\<And>b'. b = Some b' \<Longrightarrow> latest_leaf Bundle (subject C u) es = Some (bundle_leaf C b')"
    and rv: "latest_leaf Revocation (subject C u) es = map_option (revocation_leaf C) rvk"
    and su: "rvk = None \<Longrightarrow> latest_leaf Succession (subject C u) es = map_option (succession_leaf C) suc"
  shows "check_lookup C s u b rvk suc claimed = Ok ()"
proof -
  let ?l = "latest_in C s u"
  have claim': "claimed = map_option lt_last ?l"
    by (simp add: claim latest_in_def l flip: latest_of_last)
  have b': "\<exists>p. Option.bind ?l lt_bundle = Some p \<and> lp_leaf p = bundle_leaf C b'" if "b = Some b'" for b'
    using b [OF that] by (simp add: latest_in_def l leaf_cases flip: latest_of_leaves)
  have rv': "map_option lp_leaf (Option.bind ?l lt_revocation) = map_option (revocation_leaf C) rvk"
    by (simp add: latest_in_def l latest_of_leaves rv)
  have su': "map_option lp_leaf (Option.bind ?l lt_succession) = map_option (succession_leaf C) suc" if "rvk = None"
    by (simp add: latest_in_def l latest_of_leaves su [OF that])
  have 1: "(case claimed of
         Some c \<Rightarrow>
           let seen = (case ?l of Some l' \<Rightarrow> lt_last l' | None \<Rightarrow> default_position)
           in if c \<noteq> seen then Err (ClaimMismatch (lp_index c) (lp_index seen)) else Ok ()
       | None \<Rightarrow> Ok ()) = Ok ()"
    by (cases ?l) (simp_all add: claim')
  show ?thesis
    unfolding check_lookup_def Let_def [of ?l] 1
    using b' rv' su' by (cases b; cases rvk; cases suc) (auto split: option.split)
qed

lemma check_device_passes:
  assumes "ls_latest s = latest_of es"
    and "latest_leaf Bundle (subject C (kb_user_id b)) es = Some (bundle_leaf C b)"
    and "latest_leaf Revocation (subject C (kb_user_id b)) es = None"
  shows "check_device C s [] b = Ok ()"
  using assms
  by (auto simp: check_device_def check_device_lookup_def Let_def latest_in_def simp flip: latest_of_leaves)

section \<open>What the relay serves\<close>

text \<open>
  The identities of a history are in \<open>U\<close>, and those revoked as devices in \<open>D\<close>, as for the log's
  own operations.
\<close>

fun relay_allowed :: "user_id set \<Rightarrow> user_id set \<Rightarrow> relay_op \<Rightarrow> bool" where
  "relay_allowed U D (RPublish _ _ b _ _) = (kb_user_id b \<in> U)"
| "relay_allowed U D (RRevoke _ rv _) = (rev_identity rv \<in> U)"
| "relay_allowed U D (RSucceed _ s _) = (suc_old s \<in> U)"
| "relay_allowed U D (RRevokeDevice _ _ rv _) = (dr_device rv \<in> U \<and> dr_device rv \<in> D)"
| "relay_allowed U D _ = True"

interpretation relay_served: guarded_invariant "sha256_length C \<and> inj_on (subject C) U" "relay_allowed U D"
  "relay_step C K po" fresh_relay "\<lambda>r. served_inv C U D (rs_db r)" for C K po U D
proof
  fix r :: relay and x assume "sha256_length C \<and> inj_on (subject C) U" "served_inv C U D (rs_db r)" "relay_allowed U D x"
  moreover from this have "list_all (log_allowed U D) (db_ops C K po r x)"
    by (cases x) (auto simp: db_ops_def without_one_time_def)
  ultimately show "served_inv C U D (rs_db (relay_step C K po r x))"
    unfolding relay_step_db by (intro served.guarded_run) 
qed (simp add: fresh_relay_def served_inv_fresh)

lemma popped_leaf [simp]:
  "bundle_leaf C (fst (pop_one_time_prekeys env K vd b m)) = bundle_leaf C b"
  "kb_user_id (fst (pop_one_time_prekeys env K vd b m)) = kb_user_id b"
  "kb_devices (fst (pop_one_time_prekeys env K vd b m)) = kb_devices b"
  by (auto simp: pop_one_time_prekeys_def bundle_leaf_def bundle_leaf_bytes_def prekeys_leaf_bytes_def
      devices_leaf_bytes_def case_prod_beta Let_def split: option.split res.split)

text \<open>Between the transactions of a lookup, other connections leave the database as it is.\<close>

definition db_quiet :: "env \<Rightarrow> bool" where
  "db_quiet env \<longleftrightarrow> (\<forall>n r. rs_db (env n r) = rs_db r)"

lemma quiet_leaves: "db_quiet env \<Longrightarrow> leaves rs_db env"
  by (simp add: db_quiet_def leaves_def)

lemmas quiet_keeps = turn_keeps [OF quiet_leaves] pop_keeps [OF quiet_leaves]
  device_bundles_in_keeps [OF quiet_leaves] bundle_with_keeps [OF quiet_leaves]

lemma device_bundles_in_served:
  assumes "db_quiet env"
  shows "b \<in> set (fst (device_bundles_in env K vd acct ds m)) \<Longrightarrow>
    \<exists>d b'. d \<in> set ds \<and> bundle_of (dc_device d) (rs_db (snd m)) = Some b' \<and> kb_user_id b = kb_user_id b' \<and>
      bundle_leaf C b = bundle_leaf C b'"
proof (induction ds arbitrary: m)
  case (Cons d ds)
  let ?m1 = "turn env m" and ?m2 = "turn env (turn env m)"
  let ?pop = "\<lambda>b'. pop_one_time_prekeys env K vd b' ?m2"
  note db = quiet_keeps(1) [OF assms, of m] quiet_keeps(1) [OF assms, of ?m1] quiet_keeps(2) [OF assms, of K vd _ ?m2]
  have later: ?case if "rs_db (snd m') = rs_db (snd m)" "b \<in> set (fst (device_bundles_in env K vd acct ds m'))" for m'
    using Cons.IH [OF that(2)] that(1) by auto
  show ?case
  proof (cases "revoked_by acct (dc_device d) (rs_db (snd m))")
    case True
    with Cons.prems db show ?thesis by (intro later [of ?m1]) simp_all
  next
    case False
    show ?thesis
    proof (cases "bundle_of (dc_device d) (rs_db (snd m))")
      case None
      with False Cons.prems db show ?thesis by (intro later [of ?m2]) simp_all
    next
      case (Some b')
      show ?thesis
      proof (cases "account b' = Some acct")
        case True
        with False Some Cons.prems db
        have "b = fst (?pop b') \<or> b \<in> set (fst (device_bundles_in env K vd acct ds (snd (?pop b'))))"
          by (simp add: Let_def case_prod_beta)
        then show ?thesis
          using Some db later [of "snd (?pop b')"] by auto
      next
        case no: False
        with False Some Cons.prems db show ?thesis by (intro later [of ?m2]) (simp_all add: Let_def)
      qed
    qed
  qed
qed simp

text \<open>What the parts of a lookup's answer are, over the database the relay stands at.\<close>

lemma on_lookup_parts:
  assumes quiet: "db_quiet env" and ok: "on_lookup env C K vd al pk dv u r = (Ok res, r')"
  shows "lr_user_id res = u" "lr_head res = Some (log_head_of C (rs_db r))"
    "lr_logged res = log_latest C u (rs_db r)"
    "(lr_revocation res, lr_succession res) = lifecycle u (rs_db r) (rs_db r)"
    "lr_device_revocations res = device_revocations u (rs_db r) (rs_db r)" "rs_db r' = rs_db r"
    "lr_bundle res = Some b \<Longrightarrow> \<exists>b'. bundle_of u (rs_db r) = Some b' \<and> bundle_leaf C b = bundle_leaf C b' \<and>
      kb_devices b = kb_devices b'"
    "b \<in> set (lr_device_bundles res) \<Longrightarrow>
      \<exists>acct d b'. bundle_of u (rs_db r) = Some acct \<and> d \<in> set (kb_devices acct) \<and>
        bundle_of (dc_device d) (rs_db r) = Some b' \<and> kb_user_id b = kb_user_id b' \<and> bundle_leaf C b = bundle_leaf C b'"
    "map_option (bundle_leaf C) (lr_bundle res) = map_option (bundle_leaf C) (bundle_of u (rs_db r))"
proof -
  note keeps = quiet_keeps [OF quiet]
  show "rs_db r' = rs_db r" using on_lookup_keeps [OF quiet_leaves [OF quiet], of C K vd al pk dv u r] ok by simp
  define b0 m0 where "b0 = fst (if pk then bundle_with_one_time_prekey env K vd u (0, r)
      else (bundle_of u (rs_db (snd (turn env (0, r)))), turn env (0, r)))"
    and "m0 = turn env (turn env (turn env (turn env (snd (if pk then bundle_with_one_time_prekey env K vd u (0, r)
      else (bundle_of u (rs_db (snd (turn env (0, r)))), turn env (0, r)))))))"
  have m0: "rs_db (snd m0) = rs_db r" by (simp add: m0_def keeps)
  have eq: "res = \<lparr>lr_user_id = u, lr_bundle = b0, lr_revocation = fst (lifecycle u (rs_db r) (rs_db r)),
      lr_succession = snd (lifecycle u (rs_db r) (rs_db r)), lr_head = Some (log_head_of C (rs_db r)),
      lr_logged = log_latest C u (rs_db r),
      lr_device_bundles = (if dv then fst (device_bundles env K vd u b0 m0) else []),
      lr_device_revocations = device_revocations u (rs_db r) (rs_db r)\<rparr>"
    using ok unfolding b0_def m0_def
    by (auto simp: on_lookup_def log_view_def device_bundles_def keeps case_prod_beta Let_def
        split: if_splits option.splits)
  then show "lr_user_id res = u" "lr_head res = Some (log_head_of C (rs_db r))"
    "lr_logged res = log_latest C u (rs_db r)"
    "(lr_revocation res, lr_succession res) = lifecycle u (rs_db r) (rs_db r)"
    "lr_device_revocations res = device_revocations u (rs_db r) (rs_db r)" by simp_all
  show bnd: "\<exists>b'. bundle_of u (rs_db r) = Some b' \<and> bundle_leaf C b = bundle_leaf C b' \<and>
      kb_devices b = kb_devices b'" if "lr_bundle res = Some b" for b
    using that eq unfolding b0_def
    by (auto simp: bundle_with_one_time_prekey_def keeps case_prod_beta Let_def split: if_splits option.splits)
  show "map_option (bundle_leaf C) (lr_bundle res) = map_option (bundle_leaf C) (bundle_of u (rs_db r))"
    using eq unfolding b0_def
    by (auto simp: bundle_with_one_time_prekey_def keeps case_prod_beta Let_def split: option.splits)
  show "\<exists>acct d b'. bundle_of u (rs_db r) = Some acct \<and> d \<in> set (kb_devices acct) \<and>
      bundle_of (dc_device d) (rs_db r) = Some b' \<and> kb_user_id b = kb_user_id b' \<and> bundle_leaf C b = bundle_leaf C b'"
    if "b \<in> set (lr_device_bundles res)"
  proof -
    have "b \<in> set (fst (device_bundles env K vd u b0 m0))" using that eq by (auto split: if_splits)
    then obtain own where own: "b0 = Some own"
      and b: "b \<in> set (fst (device_bundles_in env K vd u (kb_devices own) m0))"
      by (cases b0) (simp_all add: device_bundles_def)
    obtain acct where "bundle_of u (rs_db r) = Some acct" "kb_devices own = kb_devices acct"
      using bnd [of own] own eq by auto
    with device_bundles_in_served [OF quiet b, of C] show ?thesis unfolding m0 by auto
  qed
qed

text \<open>
  The account's devices that an honest answer names: each published, none revoked by itself
  or by an account.
\<close>

definition devices_stand :: "user_id set \<Rightarrow> user_id set \<Rightarrow> user_id \<Rightarrow> log_db \<Rightarrow> bool" where
  "devices_stand U D u db \<longleftrightarrow>
    (case bundle_of u db of
       None \<Rightarrow> True
     | Some b \<Rightarrow> list_all (\<lambda>d. dc_device d \<in> U - D \<and> \<not> is_revoked (dc_device d) db) (kb_devices b))"

lemma honest_answer_passes:
  assumes inv: "served_inv C U D (rs_db r)" and u: "u \<in> U - D"
    and res: "db_quiet env" "on_lookup env C K vd al pk dv u r = (Ok res, r')"
    and s: "ls_latest s = latest_of (log_list (rs_db r))"
  shows "check_answer C s (answer_of res qs) = Ok ()"
    and "devices_stand U D u (rs_db r) \<Longrightarrow> b \<in> set (lr_device_bundles res) \<Longrightarrow> check_device C s [] b = Ok ()"
proof -
  let ?db = "rs_db r"
  note parts = on_lookup_parts [OF res]
  have bl: "bundles_logged C U (rl_bundles ?db) (log_list ?db)"
    and sl: "successions_logged C U (rl_successions ?db) (log_list ?db)"
    and rl: "revocations_logged C U D (rl_revocations ?db) (log_list ?db)"
    and li: "log_inv C ?db" using inv by (simp_all add: served_inv_def served_ok_def)
  have lb: "latest_leaf Bundle (subject C v) (log_list ?db) = Some (bundle_leaf C b')" "kb_user_id b' = v"
    if "bundle_of v ?db = Some b'" for v b'
    using bl that by (auto simp: bundles_logged_def bundle_of_def)
  have lr: "latest_leaf Revocation (subject C v) (log_list ?db) = map_option (revocation_leaf C) (revocation_of v ?db)"
    if "v \<in> U - D" for v
    using rl that by (auto simp: revocations_logged_def revocation_of_def)
  have "check_lookup C s u (lr_bundle res) (lr_revocation res) (lr_succession res) (lr_logged res) = Ok ()"
  proof (rule check_lookup_passes [OF s])
    show "lr_logged res = map_option (\<lambda>e. \<lparr>lp_index = le_index e, lp_leaf = le_leaf e\<rparr>)
        (find (\<lambda>e. le_subject e = subject C u) (rev (log_list ?db)))"
      using li by (simp add: parts(3) log_latest_def read_latest_def log_inv_def latest_view_def option.map_comp comp_def)
    show "latest_leaf Bundle (subject C u) (log_list ?db) = Some (bundle_leaf C b')" if "lr_bundle res = Some b'" for b'
      using parts(7) [OF that] lb by auto
    show "latest_leaf Revocation (subject C u) (log_list ?db) = map_option (revocation_leaf C) (lr_revocation res)"
      using parts(4) lr [OF u] by (auto simp: lifecycle_def split: option.splits)
    show "latest_leaf Succession (subject C u) (log_list ?db) = map_option (succession_leaf C) (lr_succession res)"
      if "lr_revocation res = None"
      using parts(4) that sl u by (auto simp: lifecycle_def successions_logged_def succession_of_def split: option.splits)
  qed
  then show "check_answer C s (answer_of res qs) = Ok ()" by (simp add: check_answer_def answer_of_def parts(1))
  show "check_device C s [] b = Ok ()" if st: "devices_stand U D u ?db" and b: "b \<in> set (lr_device_bundles res)"
  proof -
    obtain acct d b' where a: "bundle_of u ?db = Some acct" "d \<in> set (kb_devices acct)"
      and b': "bundle_of (dc_device d) ?db = Some b'" and same: "kb_user_id b = kb_user_id b'" "bundle_leaf C b = bundle_leaf C b'"
      using parts(8) [OF b] by blast
    have v: "dc_device d \<in> U - D" "revocation_of (dc_device d) ?db = None"
      using st a by (auto simp: devices_stand_def list_all_iff is_revoked_def revocation_of_def)
    show ?thesis by (rule check_device_passes [OF s]) (use lb [OF b'] lr [OF v(1)] v(2) same in simp_all)
  qed
qed

section \<open>The exchange\<close>

lemma relay_chain:
  assumes "log_inv C db"
  shows "chain C (log_list db)" "log_head_of C db = head_of C (log_list db)"
proof -
  have r: "replay_from C EMPTY (log_list db) = Ok (head_in C (rl_log db))" "length (log_list db) < 2 ^ 64"
    using assms by (simp_all add: log_inv_def log_ok_def)
  then show "log_head_of C db = head_of C (log_list db)" using replay_head_of by (simp add: log_head_of_def)
  with r show "chain C (log_list db)" by (simp add: chain_def log_head_of_def)
qed

lemma relay_pages:
  assumes "log_inv C db" "unat i < length (log_list db)"
  shows "fst (relay_log_since C i db db) = take LOG_PAGE (drop (unat i) (log_list db))"
proof -
  have "i \<noteq> - 1"
    using assms by (auto simp: log_inv_def log_ok_def unsigned_minus_1_eq_mask mask_eq_exp_minus_1)
  with assms log_since_list [of C db i LOG_PAGE] show ?thesis by (simp add: relay_log_since_def log_inv_def)
qed

text \<open>The relay answers a lookup, and goes on to serve the pages the client asks for.\<close>

definition exchange ::
  "crypto \<Rightarrow> u64 \<Rightarrow> nat \<Rightarrow> lookup_result \<Rightarrow> nat list \<Rightarrow> log_db \<Rightarrow> tail \<Rightarrow> (tail \<times> effects, string) res" where
  "exchange C now n res replies db t =
    (let (t1, st) = on_answer C now (answer_of res replies) t
     in follow C now (\<lambda>i. fst (relay_log_since C i db db)) (log_head_of C db) n t1 st)"

lemma exchange_answers:
  assumes inv: "served_inv C U D (rs_db r)" and u: "u \<in> U - D"
    and res: "db_quiet env" "on_lookup env C K vd al pk dv u r = (Ok res, r')"
    and dev: "devices_stand U D u (rs_db r)" "device_revocations u (rs_db r) (rs_db r) = []"
    and t: "tl_log t = Some s" "tl_mode t = None" "tl_deferred t = []" and at: "at_log C (log_list (rs_db r)) m s"
  shows "\<exists>t' st' s'. exchange C now (Suc (length (log_list (rs_db r)))) res replies (rs_db r) t = Ok (t', st') \<and>
    tl_mode t' = None \<and> tl_deferred t' = [] \<and> tl_log t' = Some s' \<and>
    at_log C (log_list (rs_db r)) (length (log_list (rs_db r))) s' \<and> served_plainly (answer_of res replies) st'"
proof -
  let ?es = "log_list (rs_db r)" and ?a = "answer_of res replies"
  note parts = on_lookup_parts [OF res]
  have li: "log_inv C (rs_db r)" using inv by (simp add: served_inv_def)
  note ch = relay_chain [OF li]
  have a: "an_head ?a = Some (head_of C ?es)" "an_device_revocations ?a = []"
    using parts dev ch by (simp_all add: answer_of_def)
  have ok: "check_answer C s ?a = Ok ()" "b \<in> set (an_device_bundles ?a) \<Longrightarrow> check_device C s [] b = Ok ()"
    if "at_log C ?es (length ?es) s" for s b
    using honest_answer_passes [OF inv u res, of s] dev(1) that by (simp_all add: at_log_def answer_of_def)
  have m: "m \<le> length ?es" "ls_head s = head_of C (take m ?es)" using at by (simp_all add: at_log_def)
  have idx: "unat (lh_index (head_of C (take m ?es))) = m" "unat (lh_index (head_of C ?es)) = length ?es"
    using chain_index [OF ch(1) m(1)] chain_head_index [OF ch(1)] by simp_all
  show ?thesis
  proof (cases "m = length ?es")
    case True
    have "on_answer C now ?a t = (t, resolve C s ?a no_effects)"
      using t m a(1) True by (simp add: on_answer_def on_relay_head_def Let_def)
    moreover have "served_plainly ?a (resolve C s ?a no_effects)"
      using ok [of s] at True a(2) by (intro resolve_plainly) (simp_all add: no_effects_def)
    ultimately show ?thesis
      using t at True by (auto simp: exchange_def served_plainly_def)
  next
    case False
    let ?t = "t\<lparr>tl_mode := Some (Advance (head_of C ?es) None), tl_deferred := [DAnswer ?a]\<rparr>"
    let ?st = "no_effects\<lparr>st_send := [lh_index (head_of C (take m ?es))]\<rparr>"
    have less: "m < length ?es" using m False by simp
    then have lt: "lh_index (head_of C (take m ?es)) < lh_index (head_of C ?es)"
      using idx by (simp add: word_less_nat_alt)
    have "on_answer C now ?a t = (?t, ?st)"
      using t m a(1) lt less_imp_neq [OF lt, symmetric] less_imp_not_less [OF lt]
      by (simp add: on_answer_def on_relay_head_def start_advance_def ours_def Let_def no_effects_def)
    then show ?thesis
      unfolding exchange_def Let_def
      using follow_catches_up [OF ch(1) at relay_pages [OF li], of ?t ?a ?st "Suc (length ?es)" now] t less a ok ch(2)
      by (simp add: no_effects_def LOG_PAGE_def)
  qed
qed

section \<open>A revocation the relay no longer holds\<close>

interpretation relay_log_grows: run_related "sha256_length C" "relay_step C K po" fresh_relay
  "\<lambda>r. log_inv C (rs_db r)" "\<lambda>r r'. log_grows (rs_db r) (rs_db r')" for C K po
proof
  show "log_inv C (rs_db (relay_step C K po r x))" if "sha256_length C" "log_inv C (rs_db r)" for r :: relay and x
    unfolding relay_step_db using that by (rule relay_log.inv_run)
  show "log_grows (rs_db r) (rs_db (relay_step C K po r x))" if "sha256_length C" "log_inv C (rs_db r)"
    for r :: relay and x
    unfolding relay_step_db using that by (rule relay_log.rel_run)
  show "log_grows (rs_db r) (rs_db r1) \<Longrightarrow> log_grows (rs_db r1) (rs_db r2) \<Longrightarrow> log_grows (rs_db r) (rs_db r2)"
    for r r1 r2 :: relay by (rule relay_log.rel_trans)
qed (simp_all add: fresh_relay_def log_inv_fresh log_grows_def)

definition rows_keyed :: "relay \<Rightarrow> bool" where
  "rows_keyed r \<longleftrightarrow> (\<forall>u rv. device_rows r u = Some rv \<longrightarrow> dr_device rv = u)"

lemma rows_keyed_step: "rows_keyed r \<Longrightarrow> rows_keyed (relay_step C K po r x)"
proof (cases x)
  case (RRevokeDevice vd me rv now)
  with revoke_device_tables [OF refl, of C K po r vd me rv now] show "rows_keyed r \<Longrightarrow> ?thesis"
    by (auto simp: rows_keyed_def split: if_splits)
next
  case (RUnrevokeDevice d)
  with unrevoke_tables [OF refl, of C K po r d] show "rows_keyed r \<Longrightarrow> ?thesis" by (auto simp: rows_keyed_def)
qed (use publish_tables [OF refl, of C K po r] revoke_tables [OF refl, of C K po r]
    succeed_tables [OF refl, of C K po r] evict_tables [OF refl, of C K po r] lookup_tables [OF refl, of C K po r]
    login_tables [OF refl, of C K po r] mail_tables [OF refl, of C K po r] in \<open>simp_all add: rows_keyed_def\<close>)

interpretation relay_rows: run_invariant True "relay_step C K po" fresh_relay rows_keyed for C K po
  by unfold_locales (simp_all add: rows_keyed_step, simp add: rows_keyed_def fresh_relay_def fresh_log_db_def)

lemma device_revocations_rows:
  assumes "rows_keyed r" "rv \<in> set (device_revocations u (rs_db r) (rs_db r))"
  shows "device_rows r (dr_device rv) \<noteq> None"
  using assms
  by (auto simp: device_revocations_def device_revocations_by_def device_revocation_of_def option_list_def
      List.map_filter_def rows_keyed_def split: option.splits dest: sym)

lemma no_rows_no_revocations: "device_rows r = Map.empty \<Longrightarrow> device_revocations u (rs_db r) (rs_db r) = []"
  by (simp add: device_revocations_def device_revocations_by_def device_revocation_of_def option_list_def
      List.map_filter_def case_prod_beta)

lemma taken_revocation_logged:
  assumes "sha256_length C" "log_inv C (rs_db r)" "fst (apply_device_revocation C K vd me rv now r) = Ok ()"
    and "device_revocation_of (dr_device rv) (rs_db r) = None"
  shows "latest_leaf Revocation (subject C (dr_device rv))
    (log_list (rs_db (snd (apply_device_revocation C K vd me rv now r)))) = Some (device_revocation_leaf C rv)"
proof -
  let ?db = "(rs_db r)\<lparr>rl_device_revocations := tput (dr_device rv) rv (rl_device_revocations (rs_db r)),
           rl_revoked_by := tput (dr_account rv, dr_device rv) () (rl_revoked_by (rs_db r))\<rparr>"
  obtain new db where "set_device_revocation C rv now (rs_db r) = Ok (new, db)"
    and db: "rs_db (snd (apply_device_revocation C K vd me rv now r)) = db"
    using assms(3) cut_off_keeps
    by (fastforce simp: apply_device_revocation_def Let_def split: if_splits option.splits res.splits)
  then obtain e where "append_log C (subject C (dr_device rv)) Revocation (device_revocation_leaf C rv) now ?db = Ok (e, db)"
    using assms(4) by (auto simp: set_device_revocation_def device_revocation_of_def)
  moreover have "log_inv C ?db" using assms(2) log_inv_cong [of ?db "rs_db r" C] by simp
  ultimately show ?thesis using append_log_inv [of C ?db] assms(1) db by fastforce
qed

text \<open>
  With a revocation logged for \<open>d\<close> and no statement served for it, its own lookup is refused
  and it is dropped from the device bundles of its account.
\<close>

lemma served_without_statement:
  assumes s: "log_leaf C s lt_revocation d \<noteq> None"
    and a: "an_device_revocations a = revs" "\<And>rv. rv \<in> set revs \<Longrightarrow> dr_device rv \<noteq> d"
  shows "an_user_id a = d \<Longrightarrow> an_revocation a = None \<Longrightarrow>
      \<exists>why. st_replies (resolve C s a no_effects) = map (\<lambda>q. (q, Err why)) (an_replies a)"
    and "(q, Ok lk) \<in> set (st_replies (resolve C s a no_effects)) \<Longrightarrow> d \<notin> kb_user_id ` set (lk_device_bundles lk)"
proof -
  obtain p where p: "Option.bind (latest_in C s d) lt_revocation = Some p" using s by (auto simp: log_leaf_def)
  show "\<exists>why. st_replies (resolve C s a no_effects) = map (\<lambda>q. (q, Err why)) (an_replies a)"
    if "an_user_id a = d" "an_revocation a = None"
  proof -
    have "\<not> revocation_is_device_statement C s d revs"
      using a p by (auto simp: revocation_is_device_statement_def list_ex_iff)
    moreover have "\<exists>e. check_lookup C s d (an_bundle a) None (an_succession a) (an_logged a) = Err e"
      using p by (simp add: check_lookup_def Let_def split: option.split)
    ultimately have "\<exists>e. check_answer C s a = Err e"
      using that a by (auto simp: check_answer_def split: discrepancy.split)
    then show ?thesis by (auto simp: resolve_def refuse_def no_effects_def)
  qed
  show "d \<notin> kb_user_id ` set (lk_device_bundles lk)" if "(q, Ok lk) \<in> set (st_replies (resolve C s a no_effects))"
  proof -
    have "\<not> is_ok (check_device C s (filter (borne_out C s) revs) b)" if "kb_user_id b = d" for b
    proof -
      have "find (\<lambda>rv. dr_device rv = d) (filter (borne_out C s) revs) = None" using a by (auto simp: find_None_iff)
      with that p show ?thesis
        by (auto simp: check_device_def check_device_lookup_def Let_def is_ok_def split: option.splits res.splits)
    qed
    with that a show ?thesis
      by (auto simp: resolve_def refuse_def settle_def no_effects_def Let_def split: res.splits)
  qed
qed

section \<open>A concrete exchange\<close>

text \<open>The first identity of a relay publishes.\<close>

lemma first_publication:
  assumes "is_ok (bundle_verify demo_crypto b)" "account b = None" "kb_prekeys b = None"
    and "r = run (relay_step demo_crypto demo_codecs demo_policy) fresh_relay [RPublish demo_verdicts (kb_user_id b) b None 1]"
  shows "bundles r = [kb_user_id b \<mapsto> b] \<and> revocations r = Map.empty \<and> device_rows r = Map.empty \<and>
    roomy demo_crypto 5 (rs_db r)"
proof -
  have fresh: "bundles fresh_relay = Map.empty" "revocations fresh_relay = Map.empty"
    "device_rows fresh_relay = Map.empty" "rs_invite fresh_relay = None" "roomy demo_crypto 6 (rs_db fresh_relay)"
    by (auto simp: fresh_relay_def fresh_log_db_def roomy_def log_inv_fresh [unfolded fresh_log_db_def] log_list_def)
  have "publish_refusal demo_crypto demo_policy demo_verdicts (kb_user_id b) b None fresh_relay = None"
    by (rule plain_publish_allowed) (use assms fresh demo_open in auto)
  from publish_taken [OF _ demo_crypto_laws(9) this _ demo_open, of 5 demo_codecs 1] fresh assms
  show ?thesis by (auto simp: eval_nat_numeral)
qed

definition demo_own :: key_bundle where
  "demo_own = identity_key_bundle demo_crypto (demo_identity 3)"

definition demo_first :: relay where
  "demo_first = run (relay_step demo_crypto demo_codecs demo_policy) fresh_relay
     [RPublish demo_verdicts (demo_id 3) demo_own None 1]"

lemma demo_own_id: "kb_user_id demo_own = demo_id 3"
  using plain_bundle_verifies [OF signature_laws_demo] by (simp add: demo_own_def demo_id_def)

lemma demo_first_state:
  "bundles demo_first = [demo_id 3 \<mapsto> demo_own] \<and> revocations demo_first = Map.empty \<and>
    device_rows demo_first = Map.empty"
  using first_publication [of demo_own] plain_bundle_verifies [OF signature_laws_demo, of "demo_identity 3"] demo_own_id
  by (simp add: demo_first_def demo_own_def)

definition demo_served :: lookup_result where
  "demo_served = got (fst (on_lookup alone demo_crypto demo_codecs demo_verdicts True True True (demo_id 3) demo_first))"

lemma on_lookup_allowed: "\<exists>res r'. on_lookup env C K vd True pk dv u r = (Ok res, r')"
  by (simp add: on_lookup_def case_prod_beta Let_def)

lemma demo_lookup:
  "on_lookup alone demo_crypto demo_codecs demo_verdicts True True True (demo_id 3) demo_first =
    (Ok demo_served, snd (on_lookup alone demo_crypto demo_codecs demo_verdicts True True True (demo_id 3) demo_first))"
  using on_lookup_allowed [of alone demo_crypto demo_codecs demo_verdicts True True "demo_id 3" demo_first]
  by (auto simp: demo_served_def got_def)

lemma demo_devices_stand: "devices_stand {demo_id 3} {} (demo_id 3) (rs_db demo_first)"
  using demo_first_state plain_bundle_verifies [OF signature_laws_demo, of "demo_identity 3"]
  by (simp add: devices_stand_def bundle_of_def demo_own_def)

text \<open>An account cancels a device on its list, and the operator lifts the revocation.\<close>

definition demo_publication :: "relay_op list" where
  "demo_publication = [RPublish demo_verdicts (demo_id 1) demo_listing None 1]"

definition demo_published :: relay where
  "demo_published = run (relay_step demo_crypto demo_codecs demo_policy) fresh_relay demo_publication"

definition demo_cancellation :: device_revocation where
  "demo_cancellation = revoke_device demo_crypto (demo_identity 1) (demo_id 2) 2"

lemma demo_published_state:
  "bundles demo_published = [demo_id 1 \<mapsto> demo_listing] \<and> revocations demo_published = Map.empty \<and>
    device_rows demo_published = Map.empty \<and> roomy demo_crypto 5 (rs_db demo_published)"
  using first_publication [of demo_listing] listing_verifies [OF signature_laws_demo demo_certified demo_listed]
  by (simp add: demo_published_def demo_publication_def demo_id_def)

definition demo_lifted :: "relay_op list" where
  "demo_lifted = demo_publication @ RRevokeDevice demo_verdicts (demo_id 1) demo_cancellation 2 # [RUnrevokeDevice (demo_id 2)]"

lemma demo_cancellation_fields [simp]:
  "dr_account demo_cancellation = demo_id 1" "dr_device demo_cancellation = demo_id 2"
  by (simp_all add: demo_cancellation_def revoke_device_def Let_def demo_id_def)

lemma demo_cancelled:
  "\<exists>r. apply_device_revocation demo_crypto demo_codecs demo_verdicts (demo_id 1) demo_cancellation 2 demo_published = (Ok (), r) \<and>
    revocations r = Map.empty \<and> device_rows r = [demo_id 2 \<mapsto> demo_cancellation]"
proof -
  note pl = listing_verifies [OF signature_laws_demo demo_certified demo_listed]
  have "is_ok (dr_verify demo_crypto demo_cancellation)"
    using revoke_device_verifies [OF signature_laws_demo] demo_ids_distinct
    by (simp add: demo_cancellation_def demo_id_def)
  from revoke_device_taken [OF _ demo_crypto_laws(9) _ _ this, of 4 demo_published demo_verdicts "demo_id 1"
      demo_listing demo_codecs 2] pl
    demo_published_state certify_device_fields [OF demo_certified] demo_ids_distinct
  show ?thesis by (auto simp: eval_nat_numeral bundle_of_def demo_verdicts_def demo_id_def)
qed

lemma demo_lifted_state:
  assumes "r = run (relay_step demo_crypto demo_codecs demo_policy) fresh_relay demo_lifted"
  shows "\<not> is_revoked (demo_id 2) (rs_db r) \<and> \<not> is_device_revoked (demo_id 2) (rs_db r)"
proof -
  obtain r1 where r1: "apply_device_revocation demo_crypto demo_codecs demo_verdicts (demo_id 1) demo_cancellation 2
      demo_published = (Ok (), r1)" "revocations r1 = Map.empty" "device_rows r1 = [demo_id 2 \<mapsto> demo_cancellation]"
    using demo_cancelled by blast
  have "r = relay_step demo_crypto demo_codecs demo_policy r1 (RUnrevokeDevice (demo_id 2))"
    using r1(1) by (simp add: assms demo_lifted_def run_append flip: demo_published_def)
  with unrevoke_tables [OF this [symmetric]] r1 show ?thesis by (simp add: is_revoked_def is_device_revoked_def)
qed

text \<open>A client that holds the whole log.\<close>

definition caught_up :: "crypto \<Rightarrow> log_entry list \<Rightarrow> log_state" where
  "caught_up C es = log_state_default\<lparr>ls_head := head_of C es, ls_latest := latest_of es, ls_checkpoints := checkpoints_of C es\<rparr>"

lemma caught_up_at_log: "at_log C es (length es) (caught_up C es)"
  by (simp add: at_log_def caught_up_def)

end
