(* ===== verification/Ratchet.thy ===== *)
theory Ratchet
  imports Bundles
begin

text \<open>
  Sessions between two identities (\<^verbatim>\<open>silver-protocol/src/session.rs\<close>): the X3DH handshake with
  its optional ML-KEM half, and the Double Ratchet, classical or with an ML-KEM step beside
  every Diffie-Hellman step. Counters are 32-bit words and the checked additions panic at the
  end of their range. Randomness is drawn from a stream in the order the source documents.
  \<open>RatchetConversation\<close> proves that two sessions of one handshake read each other.
\<close>

section \<open>Headers and messages\<close>

definition X3DH_INFO :: bytes where
  "X3DH_INFO = ascii ''silver-messenger/v2/x3dh''"

definition PQXDH_INFO :: bytes where
  "PQXDH_INFO = ascii ''silver-messenger/v3/pqxdh''"

definition SESSION_ID_DOMAIN :: bytes where
  "SESSION_ID_DOMAIN = ascii ''silver-messenger/v2/session-id''"

definition ROOT_INFO :: bytes where
  "ROOT_INFO = ascii ''silver-messenger/v2/ratchet-root''"

definition ROOT_INFO_V4 :: bytes where
  "ROOT_INFO_V4 = ascii ''silver-messenger/v4/ratchet-root''"

definition MESSAGE_INFO :: bytes where
  "MESSAGE_INFO = ascii ''silver-messenger/v2/ratchet-message''"

definition MAX_SKIP :: u32 where "MAX_SKIP = 1000"
definition MAX_SKIPPED_KEYS :: nat where "MAX_SKIPPED_KEYS = 2000"
definition KEM_CIPHERTEXT_LEN :: nat where "KEM_CIPHERTEXT_LEN = 1088"

record init_header =
  ih_identity_dh :: dh_public
  ih_ephemeral :: dh_public
  ih_signed_prekey_id :: u32
  ih_one_time_prekey_id :: "u32 option"
  ih_pq_prekey_id :: "u32 option"
  ih_kem_ciphertext :: "bytes option"
  ih_identity_dh_signature :: "bytes option"

definition ih_is_post_quantum :: "init_header \<Rightarrow> bool" where
  "ih_is_post_quantum h \<longleftrightarrow> ih_kem_ciphertext h \<noteq> None"

definition ih_check_lengths :: "init_header \<Rightarrow> unit presult" where
  "ih_check_lengths h =
    (if \<not> (case ih_kem_ciphertext h of None \<Rightarrow> True | Some ct \<Rightarrow> length ct = KEM_CIPHERTEXT_LEN) then
       Err (Malformed ''bad ML-KEM handshake ciphertext length'')
     else if (ih_kem_ciphertext h \<noteq> None) \<noteq> (ih_pq_prekey_id h \<noteq> None) then
       Err (Malformed ''post-quantum handshake is half present'')
     else Ok ())"

record ratchet_header =
  rh_dh :: dh_public
  rh_pn :: u32
  rh_n :: u32
  rh_kem :: "bytes option"
  rh_kem_ct :: "bytes option"

definition rh_check_lengths :: "ratchet_header \<Rightarrow> unit presult" where
  "rh_check_lengths h =
    (if \<not> (case rh_kem h of None \<Rightarrow> True | Some k \<Rightarrow> length k = KEM_PUBLIC_LEN) then
       Err (Malformed ''bad ML-KEM key length'')
     else if \<not> (case rh_kem_ct h of None \<Rightarrow> True | Some ct \<Rightarrow> length ct = KEM_CIPHERTEXT_LEN) then
       Err (Malformed ''bad ML-KEM ciphertext length'')
     else Ok ())"

definition rh_bytes :: "ratchet_header \<Rightarrow> bytes" where
  "rh_bytes h =
    rh_dh h @ be32 (rh_pn h) @ be32 (rh_n h) @
    (case rh_kem h of None \<Rightarrow> [] | Some k \<Rightarrow> k) @ (case rh_kem_ct h of None \<Rightarrow> [] | Some ct \<Rightarrow> ct)"

record ratchet_message =
  rm_header :: ratchet_header
  rm_ciphertext :: bytes

section \<open>Key derivation\<close>

definition hmac_byte :: "crypto \<Rightarrow> bytes \<Rightarrow> u8 \<Rightarrow> bytes" where
  "hmac_byte C key input = hmac_sha256 C key [input]"

definition kdf_chain :: "crypto \<Rightarrow> bytes \<Rightarrow> bytes \<times> bytes" where
  "kdf_chain C chain = (hmac_byte C chain 2, hmac_byte C chain 1)"

definition kdf_root :: "crypto \<Rightarrow> bytes \<Rightarrow> bytes \<Rightarrow> bytes option \<Rightarrow> bool \<Rightarrow> bytes \<times> bytes" where
  "kdf_root C root dh_out kem pq =
    (let ikm = dh_out @ (case kem of None \<Rightarrow> [] | Some k \<Rightarrow> k);
         out = hkdf C (Some root) ikm (if pq then ROOT_INFO_V4 else ROOT_INFO) 64
     in (take 32 out, drop 32 out))"

definition message_key_material :: "crypto \<Rightarrow> bytes \<Rightarrow> bytes" where
  "message_key_material C key = hkdf C None key MESSAGE_INFO 56"

definition aead_encrypt :: "crypto \<Rightarrow> bytes \<Rightarrow> bytes \<Rightarrow> bytes \<Rightarrow> bytes presult" where
  "aead_encrypt C key plaintext aad =
    (let m = message_key_material C key in
     ok_or (xchacha_encrypt C (take 32 m) (drop 32 m) aad plaintext) (Malformed ''encryption failed''))"

definition aead_decrypt :: "crypto \<Rightarrow> bytes \<Rightarrow> bytes \<Rightarrow> bytes \<Rightarrow> bytes presult" where
  "aead_decrypt C key ciphertext aad =
    (let m = message_key_material C key in
     ok_or (xchacha_decrypt C (take 32 m) (drop 32 m) aad ciphertext) DecryptFailed)"

definition session_id :: "crypto \<Rightarrow> dh_public \<Rightarrow> dh_public \<Rightarrow> bytes" where
  "session_id C ephemeral signed_prekey =
    take 16 (sha256 C (SESSION_ID_DOMAIN @ [0] @ ephemeral @ signed_prekey))"

definition x3dh_kdf :: "crypto \<Rightarrow> bytes \<Rightarrow> bytes \<Rightarrow> bytes \<Rightarrow> bytes option \<Rightarrow> bytes option \<Rightarrow> bytes" where
  "x3dh_kdf C dh1 dh2 dh3 dh4 kem =
    (let ikm = replicate 32 0xFF @ dh1 @ dh2 @ dh3 @ (case dh4 of None \<Rightarrow> [] | Some d \<Rightarrow> d);
         (ikm, info) = (case kem of Some secret \<Rightarrow> (ikm @ secret, PQXDH_INFO) | None \<Rightarrow> (ikm, X3DH_INFO))
     in hkdf C (Some (replicate 32 0)) ikm info 32)"

definition x3dh_secret ::
  "crypto \<Rightarrow> bytes \<Rightarrow> bytes \<Rightarrow> bytes \<Rightarrow> bytes option \<Rightarrow> bytes option \<Rightarrow> bytes presult" where
  "x3dh_secret C dh1 dh2 dh3 dh4 kem =
    (if list_all (was_contributory C) ([dh1, dh2, dh3] @ option_list dh4)
     then Ok (x3dh_kdf C dh1 dh2 dh3 dh4 kem) else Err WeakKey)"

definition x3dh_ad :: "user_id \<Rightarrow> dh_public \<Rightarrow> user_id \<Rightarrow> dh_public \<Rightarrow> bytes" where
  "x3dh_ad initiator initiator_dh responder responder_dh =
    initiator @ initiator_dh @ responder @ responder_dh"

section \<open>The session\<close>

record skipped_key =
  sk_dh :: bytes
  sk_n :: u32
  sk_key :: bytes

record session =
  ss_id :: bytes
  ss_ad :: bytes
  ss_dh_self :: bytes
  ss_dh_self_public :: bytes
  ss_dh_remote :: "dh_public option"
  ss_root_key :: bytes
  ss_chain_send :: "bytes option"
  ss_chain_recv :: "bytes option"
  ss_n_send :: u32
  ss_n_recv :: u32
  ss_pn :: u32
  ss_skipped :: "skipped_key list"
  ss_post_quantum :: bool
  ss_pq_ratchet :: bool
  ss_kem_self :: "bytes option"
  ss_kem_self_public :: "bytes option"
  ss_kem_remote :: "bytes option"
  ss_kem_ct_send :: "bytes option"

definition body_version :: "session \<Rightarrow> u32" where
  "body_version s = (if ss_pq_ratchet s then 4 else 2)"

definition can_send :: "session \<Rightarrow> bool" where
  "can_send s \<longleftrightarrow> ss_chain_send s \<noteq> None"

definition aad :: "session \<Rightarrow> ratchet_header \<Rightarrow> bytes" where
  "aad s h = ss_ad s @ ss_id s @ rh_bytes h"

section \<open>The handshake\<close>

text \<open>
  The ML-KEM half of the initiator: the id of the key used, the ciphertext and the secret,
  when the peer has such a key.
\<close>

definition initiate_kem :: "crypto \<Rightarrow> prekeys \<Rightarrow> rng \<Rightarrow> (u32 \<times> bytes \<times> bytes) option presult \<times> rng" where
  "initiate_kem C p r =
    (case pq_key p of
       None \<Rightarrow> (Ok None, r)
     | Some key \<Rightarrow>
         let (res, r') = encapsulate_with_rng C (pqk_public key) r
         in (and_then res (\<lambda>(ct, secret). Ok (Some (pqk_id key, ct, secret))), r'))"

text \<open>What is left once the secret is derived: the first ratchet step and the header.\<close>

definition first_step ::
  "crypto \<Rightarrow> identity \<Rightarrow> key_bundle \<Rightarrow> prekeys \<Rightarrow> one_time_prekey option \<Rightarrow> dh_public \<Rightarrow> (u32 \<times> bytes \<times> bytes) option \<Rightarrow>
    bytes \<Rightarrow> rng \<Rightarrow> (session \<times> init_header) presult" where
  "first_step C me peer p opk ephemeral_public kem secret r2 =
    (let spk = spk_public (pk_signed p);
         ad = x3dh_ad (identity_user_id C me) (identity_dh_public C me) (kb_user_id peer) (kb_dh_public peer);
         sid = session_id C ephemeral_public spk;
         pq_ratchet = (kem \<noteq> None \<and> supports_pq_ratchet peer);
         (seed, r3) = (if pq_ratchet then (let (s, r') = fill_bytes 64 r2 in (Some s, r')) else (None, r2));
         (ratchet, r4) = fill_bytes 32 r3;
         shared = x25519_dh C ratchet spk
     in if \<not> was_contributory C shared then Err WeakKey
        else
          let (root_key, chain_send) = kdf_root C secret shared None pq_ratchet
          in Ok (\<lparr>ss_id = sid, ss_ad = ad, ss_dh_self = ratchet, ss_dh_self_public = x25519_public C ratchet,
                  ss_dh_remote = Some spk, ss_root_key = root_key, ss_chain_send = Some chain_send,
                  ss_chain_recv = None, ss_n_send = 0, ss_n_recv = 0, ss_pn = 0, ss_skipped = [],
                  ss_post_quantum = (kem \<noteq> None), ss_pq_ratchet = pq_ratchet, ss_kem_self = seed,
                  ss_kem_self_public = map_option (mlkem_public C) seed, ss_kem_remote = None,
                  ss_kem_ct_send = None\<rparr>,
                 \<lparr>ih_identity_dh = identity_dh_public C me, ih_ephemeral = ephemeral_public,
                  ih_signed_prekey_id = spk_id (pk_signed p),
                  ih_one_time_prekey_id = map_option otk_id opk,
                  ih_pq_prekey_id = map_option (\<lambda>(i, _, _). i) kem,
                  ih_kem_ciphertext = map_option (\<lambda>(_, ct, _). ct) kem,
                  ih_identity_dh_signature =
                    (if pq_ratchet then Some (identity_sign C me BUNDLE_DOMAIN (identity_dh_public C me))
                     else None)\<rparr>))"

definition first :: "'a list \<Rightarrow> 'a option" where
  "first xs = (case xs of [] \<Rightarrow> None | x # _ \<Rightarrow> Some x)"

definition initiate_with_rng ::
  "crypto \<Rightarrow> identity \<Rightarrow> key_bundle \<Rightarrow> rng \<Rightarrow> (session \<times> init_header) presult" where
  "initiate_with_rng C me peer r0 =
    and_then (ok_or (kb_prekeys peer) MissingPrekeys) (\<lambda>p.
    and_then (prekeys_verify C p (kb_user_id peer)) (\<lambda>_.
    let spk = spk_public (pk_signed p);
        opk = first (pk_one_time p);
        (ephemeral, r1) = fill_bytes 32 r0;
        dh1 = x25519_dh C (dh_current me) spk;
        dh2 = x25519_dh C ephemeral (kb_dh_public peer);
        dh3 = x25519_dh C ephemeral spk;
        dh4 = map_option (\<lambda>o1. x25519_dh C ephemeral (otk_public o1)) opk;
        (kem_res, r2) = initiate_kem C p r1
    in and_then kem_res (\<lambda>kem.
       and_then (x3dh_secret C dh1 dh2 dh3 dh4 (map_option (\<lambda>(_, _, secret). secret) kem)) (\<lambda>secret.
       first_step C me peer p opk (x25519_public C ephemeral) kem secret r2))))"

text \<open>The responder's reading of the ML-KEM fields against the prekey it was given.\<close>

definition respond_kem :: "crypto \<Rightarrow> init_header \<Rightarrow> pq_prekey_secret option \<Rightarrow> bytes option presult" where
  "respond_kem C init pq =
    (case (ih_kem_ciphertext init, ih_pq_prekey_id init, pq) of
       (None, None, None) \<Rightarrow> Ok None
     | (Some ct, Some i, Some secret) \<Rightarrow>
         if pqs_id secret = i then and_then (kem_decapsulate C secret ct) (\<lambda>ss. Ok (Some ss))
         else Err (Malformed ''post-quantum prekey given does not match the header'')
     | _ \<Rightarrow> Err (Malformed ''post-quantum prekey given does not match the header''))"

text \<open>On a v4 handshake the initiator's signature over its Diffie-Hellman key is required.\<close>

definition check_binding :: "crypto \<Rightarrow> user_id \<Rightarrow> init_header \<Rightarrow> unit presult" where
  "check_binding C initiator init =
    (case ih_identity_dh_signature init of
       None \<Rightarrow> Err (Malformed ''a v4 handshake carries no key-binding signature'')
     | Some signature \<Rightarrow> user_verify C initiator BUNDLE_DOMAIN (ih_identity_dh init) signature)"

definition respond_with ::
  "crypto \<Rightarrow> identity \<Rightarrow> dh_key \<Rightarrow> user_id \<Rightarrow> prekey_secret \<Rightarrow> prekey_secret option \<Rightarrow> pq_prekey_secret option \<Rightarrow>
    init_header \<Rightarrow> bool \<Rightarrow> session presult" where
  "respond_with C me which initiator signed_key one_time_key pq init pq_ratchet =
    and_then (ok_or (dh_pair C me which) (Malformed ''no previous Diffie-Hellman key is held'')) (\<lambda>(me_dh, me_dh_public).
    if ih_signed_prekey_id init \<noteq> pks_id signed_key then
      Err (Malformed ''signed prekey given is not the one the header names'')
    else if (ih_one_time_prekey_id init \<noteq> None) \<noteq> (one_time_key \<noteq> None) then
      Err (Malformed ''one-time prekey given does not match the header'')
    else if pq_ratchet \<and> ih_kem_ciphertext init = None then
      Err (Malformed ''the post-quantum ratchet needs a post-quantum handshake'')
    else
      and_then (if pq_ratchet then check_binding C initiator init else Ok ()) (\<lambda>_.
      and_then (respond_kem C init pq) (\<lambda>kem.
      let spk = pks_secret signed_key;
          dh1 = x25519_dh C spk (ih_identity_dh init);
          dh2 = x25519_dh C me_dh (ih_ephemeral init);
          dh3 = x25519_dh C spk (ih_ephemeral init);
          dh4 = map_option (\<lambda>o1. x25519_dh C (pks_secret o1) (ih_ephemeral init)) one_time_key
      in and_then (x3dh_secret C dh1 dh2 dh3 dh4 kem) (\<lambda>secret.
         Ok \<lparr>ss_id = session_id C (ih_ephemeral init) (pks_public C signed_key),
             ss_ad = x3dh_ad initiator (ih_identity_dh init) (identity_user_id C me) me_dh_public,
             ss_dh_self = spk, ss_dh_self_public = pks_public C signed_key, ss_dh_remote = None,
             ss_root_key = secret, ss_chain_send = None, ss_chain_recv = None, ss_n_send = 0, ss_n_recv = 0,
             ss_pn = 0, ss_skipped = [], ss_post_quantum = (kem \<noteq> None), ss_pq_ratchet = pq_ratchet,
             ss_kem_self = None, ss_kem_self_public = None, ss_kem_remote = None, ss_kem_ct_send = None\<rparr>))))"

definition respond ::
  "crypto \<Rightarrow> identity \<Rightarrow> user_id \<Rightarrow> prekey_secret \<Rightarrow> prekey_secret option \<Rightarrow> pq_prekey_secret option \<Rightarrow>
    init_header \<Rightarrow> bool \<Rightarrow> session presult" where
  "respond C me initiator signed_key one_time_key pq init pq_ratchet =
    respond_with C me Current initiator signed_key one_time_key pq init pq_ratchet"

section \<open>Sending and receiving\<close>

definition encrypt :: "crypto \<Rightarrow> bytes \<Rightarrow> session \<Rightarrow> (ratchet_message \<times> session) presult" where
  "encrypt C plaintext s =
    and_then (ok_or (ss_chain_send s) SessionNotReady) (\<lambda>chain.
    let (next_chain, message_key) = kdf_chain C chain;
        h = \<lparr>rh_dh = ss_dh_self_public s, rh_pn = ss_pn s, rh_n = ss_n_send s, rh_kem = ss_kem_self_public s,
             rh_kem_ct = ss_kem_ct_send s\<rparr>
    in and_then (aead_encrypt C message_key plaintext (aad s h)) (\<lambda>ciphertext.
       if ss_n_send s = - 1 then Panic
       else Ok (\<lparr>rm_header = h, rm_ciphertext = ciphertext\<rparr>,
                s\<lparr>ss_chain_send := Some next_chain, ss_n_send := ss_n_send s + 1\<rparr>)))"

definition take_skipped :: "ratchet_header \<Rightarrow> session \<Rightarrow> (bytes \<times> session) option" where
  "take_skipped h s =
    map_option (\<lambda>k. (sk_key k, s\<lparr>ss_skipped := remove1 k (ss_skipped s)\<rparr>))
      (find (\<lambda>k. sk_dh k = rh_dh h \<and> sk_n k = rh_n h) (ss_skipped s))"

text \<open>The \<open>while\<close> loop over the numbers up to \<open>limit\<close>.\<close>

function skip_loop ::
  "crypto \<Rightarrow> bytes \<Rightarrow> u32 \<Rightarrow> bytes \<Rightarrow> u32 \<Rightarrow> skipped_key list \<Rightarrow> bytes \<times> u32 \<times> skipped_key list" where
  "skip_loop C remote limit chain n skipped =
    (if n < limit then
       let (next_chain, key) = kdf_chain C chain
       in skip_loop C remote limit next_chain (n + 1) (skipped @ [\<lparr>sk_dh = remote, sk_n = n, sk_key = key\<rparr>])
     else (chain, n, skipped))"
  by pat_completeness auto
termination
proof (relation "measure (\<lambda>(C, remote, limit, chain, n, skipped). unat limit - unat n)")
  fix C remote and limit :: u32 and chain and n :: u32 and skipped x next_chain key
  assume "n < limit"
  moreover from this have "n \<noteq> - 1" by auto
  ultimately show "((C, remote, limit, next_chain, n + 1, skipped @ [\<lparr>sk_dh = remote, sk_n = n, sk_key = key\<rparr>]),
      C, remote, limit, chain, n, skipped) \<in> measure (\<lambda>(C, remote, limit, chain, n, skipped). unat limit - unat n)"
    using unat_plus_one [of n] by (simp add: word_less_nat_alt)
qed simp

declare skip_loop.simps [simp del]

definition sat_add_u32 :: "u32 \<Rightarrow> u32 \<Rightarrow> u32" where
  "sat_add_u32 a b = (if unat a + unat b < 2 ^ 32 then a + b else - 1)"

definition skip_message_keys :: "crypto \<Rightarrow> u32 \<Rightarrow> session \<Rightarrow> session presult" where
  "skip_message_keys C limit s =
    (if sat_add_u32 (ss_n_recv s) MAX_SKIP < limit then Err TooManySkipped
     else case (ss_chain_recv s, ss_dh_remote s) of
       (Some chain, Some remote) \<Rightarrow>
         let (chain', n, skipped) = skip_loop C remote limit chain (ss_n_recv s) (ss_skipped s)
         in Ok (s\<lparr>ss_chain_recv := Some chain', ss_n_recv := n,
                  ss_skipped := (if MAX_SKIPPED_KEYS < length skipped
                    then drop (length skipped - MAX_SKIPPED_KEYS) skipped else skipped)\<rparr>)
     | _ \<Rightarrow> Ok s)"

text \<open>The receiving half of a ratchet step: the secret in the peer's ciphertext, if there is one.\<close>

definition receive_secret :: "crypto \<Rightarrow> ratchet_header \<Rightarrow> session \<Rightarrow> bytes option presult" where
  "receive_secret C h s =
    (if ss_pq_ratchet s then
       (case (rh_kem_ct h, ss_kem_self s) of
          (Some ct, Some seed) \<Rightarrow>
            and_then (ok_or (mlkem_decapsulate C seed ct)
                (Malformed (''ML-KEM ciphertext of '' @ decimal (length ct) @ '' bytes''))) (\<lambda>ss. Ok (Some ss))
        | (None, _) \<Rightarrow> Ok None
        | (Some _, None) \<Rightarrow>
            Err (Malformed ''a post-quantum ratchet message arrived before we have a ratchet key''))
     else Ok None)"

text \<open>The sending half: a fresh ML-KEM key, and a secret encapsulated to the peer's.\<close>

definition send_secret :: "crypto \<Rightarrow> rng \<Rightarrow> session \<Rightarrow> (bytes option \<times> session \<times> rng) presult" where
  "send_secret C r s =
    (if ss_pq_ratchet s then
       let (seed, r1) = fill_bytes 64 r;
           s = s\<lparr>ss_kem_self_public := Some (mlkem_public C seed), ss_kem_self := Some seed\<rparr>
       in (case ss_kem_remote s of
             Some peer \<Rightarrow>
               let (res, r2) = encapsulate_with_rng C peer r1
               in and_then res (\<lambda>(ct, secret). Ok (Some secret, s\<lparr>ss_kem_ct_send := Some ct\<rparr>, r2))
           | None \<Rightarrow> Ok (None, s\<lparr>ss_kem_ct_send := None\<rparr>, r1))
     else Ok (None, s, r))"

definition dh_ratchet :: "crypto \<Rightarrow> ratchet_header \<Rightarrow> rng \<Rightarrow> session \<Rightarrow> (session \<times> rng) presult" where
  "dh_ratchet C h r s =
    (let s = s\<lparr>ss_pn := ss_n_send s, ss_n_send := 0, ss_n_recv := 0, ss_dh_remote := Some (rh_dh h)\<rparr>;
         shared = x25519_dh C (ss_dh_self s) (rh_dh h)
     in if \<not> was_contributory C shared then Err WeakKey
        else and_then (receive_secret C h s) (\<lambda>recv_ss.
          let (root, chain_recv) = kdf_root C (ss_root_key s) shared recv_ss (ss_pq_ratchet s);
              s = s\<lparr>ss_root_key := root, ss_chain_recv := Some chain_recv\<rparr>;
              s = (if ss_pq_ratchet s then s\<lparr>ss_kem_remote := rh_kem h\<rparr> else s);
              (fresh, r1) = fill_bytes 32 r;
              shared = x25519_dh C fresh (rh_dh h)
          in if \<not> was_contributory C shared then Err WeakKey
             else and_then (send_secret C r1 s) (\<lambda>(send_ss, s, r2).
               let (root, chain_send) = kdf_root C (ss_root_key s) shared send_ss (ss_pq_ratchet s)
               in Ok (s\<lparr>ss_dh_self_public := x25519_public C fresh, ss_dh_self := fresh, ss_root_key := root,
                        ss_chain_send := Some chain_send\<rparr>, r2))))"

definition decrypt_advancing ::
  "crypto \<Rightarrow> ratchet_message \<Rightarrow> rng \<Rightarrow> session \<Rightarrow> (bytes \<times> session \<times> rng) presult" where
  "decrypt_advancing C m r s =
    (let h = rm_header m in
     and_then (rh_check_lengths h) (\<lambda>_.
     let ad = aad s h in
     case take_skipped h s of
       Some (key, s') \<Rightarrow> and_then (aead_decrypt C key (rm_ciphertext m) ad) (\<lambda>p. Ok (p, s', r))
     | None \<Rightarrow>
         and_then (if ss_dh_remote s \<noteq> Some (rh_dh h)
                   then and_then (skip_message_keys C (rh_pn h) s) (dh_ratchet C h r) else Ok (s, r)) (\<lambda>(s, r).
         and_then (skip_message_keys C (rh_n h) s) (\<lambda>s.
         and_then (ok_or (ss_chain_recv s) SessionNotReady) (\<lambda>chain.
         let (next_chain, message_key) = kdf_chain C chain
         in and_then (aead_decrypt C message_key (rm_ciphertext m) ad) (\<lambda>p.
            if ss_n_recv s = - 1 then Panic
            else Ok (p, s\<lparr>ss_chain_recv := Some next_chain, ss_n_recv := ss_n_recv s + 1\<rparr>, r)))))))"

text \<open>Work is done on a copy, which replaces the session only when the message decrypts.\<close>

definition decrypt_with_rng :: "crypto \<Rightarrow> ratchet_message \<Rightarrow> rng \<Rightarrow> session \<Rightarrow> bytes presult \<times> session" where
  "decrypt_with_rng C m r s =
    (case decrypt_advancing C m r s of
       Ok (p, s', _) \<Rightarrow> (Ok p, s')
     | Err e \<Rightarrow> (Err e, s)
     | Panic \<Rightarrow> (Panic, s))"

section \<open>Whatever arrives\<close>

lemma skip_message_keys_bounded:
  assumes "skip_message_keys C limit s = Ok s'" "length (ss_skipped s) \<le> MAX_SKIPPED_KEYS"
  shows "length (ss_skipped s') \<le> MAX_SKIPPED_KEYS"
  using assms by (auto simp: skip_message_keys_def Let_def case_prod_beta split: if_splits option.splits)

lemma dh_ratchet_skipped: "dh_ratchet C h r s = Ok (s', r') \<Longrightarrow> ss_skipped s' = ss_skipped s"
  by (auto simp: dh_ratchet_def send_secret_def encapsulate_with_rng_def Let_def case_prod_beta
      split: if_splits option.splits)

lemma take_skipped_fewer: "take_skipped h s = Some (key, s') \<Longrightarrow> length (ss_skipped s') < length (ss_skipped s)"
  by (auto simp: take_skipped_def length_remove1 find_Some_iff in_set_conv_nth)

text \<open>The chain key \<open>j\<close> steps along, and the message key it gives.\<close>

fun chain_at :: "crypto \<Rightarrow> bytes \<Rightarrow> nat \<Rightarrow> bytes" where
  "chain_at C ck 0 = ck"
| "chain_at C ck (Suc j) = fst (kdf_chain C (chain_at C ck j))"

definition message_key :: "crypto \<Rightarrow> bytes \<Rightarrow> nat \<Rightarrow> bytes" where
  "message_key C ck j = snd (kdf_chain C (chain_at C ck j))"

lemma kdf_chain_at: "kdf_chain C (chain_at C ck j) = (chain_at C ck (Suc j), message_key C ck j)"
  by (simp add: message_key_def)

text \<open>
  The one key a session has for a header: a key it kept for that ratchet key and number, else
  the key that stands at the number along the receiving chain, which is the session's own when
  the header names the ratchet key it follows, and otherwise the one it derives from its root
  key, its own secret and the header's keys.
\<close>

definition key_for :: "crypto \<Rightarrow> ratchet_header \<Rightarrow> session \<Rightarrow> bytes option" where
  "key_for C h s =
    (case find (\<lambda>k. sk_dh k = rh_dh h \<and> sk_n k = rh_n h) (ss_skipped s) of
       Some k \<Rightarrow> Some (sk_key k)
     | None \<Rightarrow>
         if ss_dh_remote s = Some (rh_dh h)
         then map_option (\<lambda>ck. message_key C ck (unat (rh_n h) - unat (ss_n_recv s))) (ss_chain_recv s)
         else case receive_secret C h s of
           Ok kem \<Rightarrow> Some (message_key C (snd (kdf_root C (ss_root_key s)
             (x25519_dh C (ss_dh_self s) (rh_dh h)) kem (ss_pq_ratchet s))) (unat (rh_n h)))
         | _ \<Rightarrow> None)"

lemma chain_at_shift: "chain_at C (fst (kdf_chain C ck)) j = chain_at C ck (Suc j)"
  by (induction j) simp_all

lemma skip_loop_chain:
  "fst (skip_loop C remote limit ck n skipped) = chain_at C ck (unat limit - unat n)"
proof (induction C remote limit ck n skipped rule: skip_loop.induct)
  case (1 C remote limit ck n skipped)
  show ?case
  proof (cases "n < limit")
    case True
    then have "n \<noteq> - 1" by auto
    then have n: "unat (n + 1) = Suc (unat n)" by (simp add: unat_plus_one)
    have "fst (skip_loop C remote limit ck n skipped) = chain_at C (fst (kdf_chain C ck)) (unat limit - unat (n + 1))"
      using 1 [OF True refl prod.collapse] True by (subst skip_loop.simps) (simp add: Let_def case_prod_beta)
    also have "\<dots> = chain_at C ck (Suc (unat limit - unat (n + 1)))" by (rule chain_at_shift)
    also have "Suc (unat limit - unat (n + 1)) = unat limit - unat n"
      using True n by (simp add: word_less_nat_alt Suc_diff_Suc)
    finally show ?thesis .
  next
    case False
    then show ?thesis by (subst skip_loop.simps) (simp add: word_less_nat_alt)
  qed
qed

lemma skip_message_keys_chain:
  assumes "skip_message_keys C limit s = Ok s'"
  shows "ss_dh_remote s \<noteq> None \<Longrightarrow>
      ss_chain_recv s' = map_option (\<lambda>ck. chain_at C ck (unat limit - unat (ss_n_recv s))) (ss_chain_recv s)"
    and "ss_dh_self s' = ss_dh_self s" "ss_root_key s' = ss_root_key s" "ss_pq_ratchet s' = ss_pq_ratchet s"
      "ss_kem_self s' = ss_kem_self s"
  using assms
  by (auto simp: skip_message_keys_def skip_loop_chain Let_def case_prod_beta split: if_splits option.splits)

lemma dh_ratchet_chain:
  assumes "dh_ratchet C h r s = Ok (s', r')"
  shows "\<exists>kem. receive_secret C h s = Ok kem \<and> ss_n_recv s' = 0 \<and> ss_dh_remote s' = Some (rh_dh h) \<and>
    ss_chain_recv s' = Some (snd (kdf_root C (ss_root_key s) (x25519_dh C (ss_dh_self s) (rh_dh h)) kem (ss_pq_ratchet s)))"
proof -
  let ?s = "s\<lparr>ss_pn := ss_n_send s, ss_n_send := 0, ss_n_recv := 0, ss_dh_remote := Some (rh_dh h)\<rparr>"
  have same: "receive_secret C h ?s = receive_secret C h s" by (simp add: receive_secret_def)
  from assms obtain kem where kem: "receive_secret C h s = Ok kem"
    by (auto simp: dh_ratchet_def Let_def same split: if_splits)
  with assms show ?thesis
    by (auto simp: dh_ratchet_def same send_secret_def encapsulate_with_rng_def Let_def case_prod_beta
        split: if_splits option.splits)
qed

lemma decrypt_advancing_guarded:
  assumes ok: "decrypt_advancing C m r s = Ok (p, s', r')" and few: "length (ss_skipped s) \<le> MAX_SKIPPED_KEYS"
  shows "length (ss_skipped s') \<le> MAX_SKIPPED_KEYS \<and> rh_check_lengths (rm_header m) = Ok () \<and>
    (\<exists>key. key_for C (rm_header m) s = Some key \<and>
      aead_decrypt C key (rm_ciphertext m) (aad s (rm_header m)) = Ok p)"
proof (cases "take_skipped (rm_header m) s")
  case (Some ks)
  then show ?thesis
    using assms take_skipped_fewer [of "rm_header m" s "fst ks" "snd ks"]
    by (auto simp: decrypt_advancing_def Let_def case_prod_beta key_for_def take_skipped_def)
next
  case None
  let ?h = "rm_header m"
  have lens: "rh_check_lengths ?h = Ok ()" using ok None by (auto simp: decrypt_advancing_def Let_def)
  obtain s1 r1 s2 ck where
    s1: "(if ss_dh_remote s \<noteq> Some (rh_dh ?h) then and_then (skip_message_keys C (rh_pn ?h) s) (dh_ratchet C ?h r)
       else Ok (s, r)) = Ok (s1, r1)"
    and s2: "skip_message_keys C (rh_n ?h) s1 = Ok s2" and ck: "ss_chain_recv s2 = Some ck"
    and p: "aead_decrypt C (snd (kdf_chain C ck)) (rm_ciphertext m) (aad s ?h) = Ok p"
    and s': "ss_skipped s' = ss_skipped s2"
    using ok None lens
    by (auto simp: decrypt_advancing_def Let_def case_prod_beta split: if_splits)
  have none: "find (\<lambda>k. sk_dh k = rh_dh ?h \<and> sk_n k = rh_n ?h) (ss_skipped s) = None"
    using None by (simp add: take_skipped_def)
  have key: "key_for C ?h s = Some (snd (kdf_chain C ck))"
  proof (cases "ss_dh_remote s = Some (rh_dh ?h)")
    case True
    then show ?thesis
      using s1 none skip_message_keys_chain(1) [OF s2] ck
      by (cases "ss_chain_recv s") (auto simp: key_for_def message_key_def split: if_splits)
  next
    case False
    then obtain s0 where s0: "skip_message_keys C (rh_pn ?h) s = Ok s0" "dh_ratchet C ?h r s0 = Ok (s1, r1)"
      using s1 by auto
    have "receive_secret C ?h s0 = receive_secret C ?h s"
      using skip_message_keys_chain [OF s0(1)] by (simp add: receive_secret_def)
    then show ?thesis
      using False dh_ratchet_chain [OF s0(2)] skip_message_keys_chain [OF s0(1)]
        skip_message_keys_chain(1) [OF s2] ck
      by (auto simp: key_for_def none message_key_def)
  qed
  have "length (ss_skipped s1) \<le> MAX_SKIPPED_KEYS"
    using s1 few skip_message_keys_bounded dh_ratchet_skipped by (auto split: if_splits)
  with s2 have "length (ss_skipped s') \<le> MAX_SKIPPED_KEYS" using skip_message_keys_bounded s' by simp
  with lens key p show ?thesis by blast
qed

text \<open>
  C40. Nothing that arrives harms a session. Whatever message a session is given, it keeps at
  most \<open>MAX_SKIPPED_KEYS\<close> keys for messages that have not arrived; a message that is refused
  leaves the session exactly as it was; and a message is accepted only if its header has the
  lengths that make the associated data unambiguous and its ciphertext authenticates, together
  with that header and the identities of the session, under the one key the session has for
  that header: the key kept for its ratchet key and number, or the one at its number along the
  chain the session has, or derives from its root key, for that ratchet key.
\<close>

theorem decrypt_guarded:
  assumes "length (ss_skipped s) \<le> MAX_SKIPPED_KEYS" "decrypt_with_rng C m r s = (res, s')"
  shows "length (ss_skipped s') \<le> MAX_SKIPPED_KEYS \<and> (is_ok res \<or> s' = s) \<and>
    (\<forall>p. res = Ok p \<longrightarrow> rh_check_lengths (rm_header m) = Ok () \<and>
      (\<exists>key. key_for C (rm_header m) s = Some key \<and>
        aead_decrypt C key (rm_ciphertext m) (ss_ad s @ ss_id s @ rh_bytes (rm_header m)) = Ok p))"
proof (cases "decrypt_advancing C m r s")
  case (Ok t)
  then obtain p s1 r1 where t: "decrypt_advancing C m r s = Ok (p, s1, r1)" by (cases t) auto
  from decrypt_advancing_guarded [OF this assms(1)] t assms show ?thesis
    by (auto simp: decrypt_with_rng_def aad_def is_ok_def)
qed (use assms in \<open>auto simp: decrypt_with_rng_def\<close>)

definition demo_session :: session where
  "demo_session =
    \<lparr>ss_id = replicate 16 1, ss_ad = [2], ss_dh_self = replicate 32 3, ss_dh_self_public = replicate 32 3,
     ss_dh_remote = Some (replicate 32 4), ss_root_key = replicate 32 5, ss_chain_send = None,
     ss_chain_recv = Some (replicate 32 6), ss_n_send = 0, ss_n_recv = 0, ss_pn = 0, ss_skipped = [],
     ss_post_quantum = False, ss_pq_ratchet = False, ss_kem_self = None, ss_kem_self_public = None,
     ss_kem_remote = None, ss_kem_ct_send = None\<rparr>"

theorem decrypt_guarded_witness:
  "let m = \<lparr>rm_header = \<lparr>rh_dh = replicate 32 4, rh_pn = 0, rh_n = 5, rh_kem = None, rh_kem_ct = None\<rparr>,
            rm_ciphertext = []\<rparr>
   in length (ss_skipped (snd (decrypt_with_rng demo_crypto m (sconst 1) demo_session))) \<le> MAX_SKIPPED_KEYS"
  unfolding Let_def
  using decrypt_guarded [OF _ surjective_pairing, of demo_session demo_crypto] by (simp add: demo_session_def)

end
