(* ===== verification/RatchetConversation.thy ===== *)
theory RatchetConversation
  imports Ratchet
begin

text \<open>
  Two sessions of one handshake read each other. A conversation passes through epochs: the
  responder's signed prekey is epoch 0, the initiator's first ratchet key epoch 1, and every
  ratchet step opens the next; the initiator owns the odd ones. Each epoch has a root key and
  a chain derived from the one before, so what either session holds is a function of the
  epochs, of how many messages each had sent, and of which messages are still under way.
\<close>

section \<open>Chains\<close>

definition skipped_at :: "crypto \<Rightarrow> bytes \<Rightarrow> bytes \<Rightarrow> nat \<Rightarrow> skipped_key" where
  "skipped_at C dh ck j = \<lparr>sk_dh = dh, sk_n = of_nat j, sk_key = message_key C ck j\<rparr>"

lemma unat_u32 [simp]: "j < 2 ^ 32 \<Longrightarrow> unat (of_nat j :: u32) = j"
  by (simp add: unat_of_nat)

lemma of_nat_u32_inj: "j < 2 ^ 32 \<Longrightarrow> k < 2 ^ 32 \<Longrightarrow> (of_nat j :: u32) = of_nat k \<longleftrightarrow> j = k"
  by (metis unat_u32)

lemma skip_loop_run:
  "n \<le> u \<Longrightarrow> u < 2 ^ 32 \<Longrightarrow> skip_loop C dh (of_nat u) (chain_at C ck n) (of_nat n) sk =
    (chain_at C ck u, of_nat u, sk @ map (skipped_at C dh ck) [n..<u])"
proof (induction "u - n" arbitrary: n sk)
  case 0
  then show ?case by (subst skip_loop.simps) simp
next
  case (Suc d)
  then have lt: "(of_nat n :: u32) < of_nat u" by (simp add: word_less_nat_alt)
  have "skip_loop C dh (of_nat u) (chain_at C ck (Suc n)) (of_nat (Suc n)) (sk @ [skipped_at C dh ck n]) =
      (chain_at C ck u, of_nat u, (sk @ [skipped_at C dh ck n]) @ map (skipped_at C dh ck) [Suc n..<u])"
    by (rule Suc.hyps(1)) (use Suc.hyps(2) Suc.prems in auto)
  then show ?case
    using lt Suc.hyps(2) by (subst skip_loop.simps)
      (simp add: kdf_chain_at skipped_at_def upt_conv_Cons add.commute del: chain_at.simps)
qed

section \<open>Epochs\<close>

record epoch =
  ep_dh :: bytes
  ep_kem :: "bytes option"
  ep_ct :: "bytes option"
  ep_root :: bytes
  ep_chain :: bytes

abbreviation public :: "crypto \<Rightarrow> (nat \<Rightarrow> epoch) \<Rightarrow> nat \<Rightarrow> bytes" where
  "public C st i \<equiv> x25519_public C (ep_dh (st i))"

text \<open>The secret the owner of the next epoch encapsulated to the key of this one.\<close>

definition shares :: "crypto \<Rightarrow> bool \<Rightarrow> epoch \<Rightarrow> epoch \<Rightarrow> bytes option \<Rightarrow> bool" where
  "shares C pq a b ss \<longleftrightarrow>
    (case ep_ct b of
       None \<Rightarrow> ss = None
     | Some ct \<Rightarrow> pq \<and> length ct = KEM_CIPHERTEXT_LEN \<and>
         (\<exists>seed k. ep_kem a = Some seed \<and> mlkem_decapsulate C seed ct = Some k \<and> ss = Some k))"

definition linked :: "crypto \<Rightarrow> bool \<Rightarrow> epoch \<Rightarrow> epoch \<Rightarrow> bool" where
  "linked C pq a b \<longleftrightarrow>
    (let shared = x25519_dh C (ep_dh b) (x25519_public C (ep_dh a)) in
     was_contributory C shared \<and>
     (\<exists>ss. shares C pq a b ss \<and> kdf_root C (ep_root a) shared ss pq = (ep_root b, ep_chain b)))"

definition epochs_ok :: "crypto \<Rightarrow> bool \<Rightarrow> (nat \<Rightarrow> epoch) \<Rightarrow> nat \<Rightarrow> bool" where
  "epochs_ok C pq st E \<longleftrightarrow>
    (\<forall>i < E. linked C pq (st i) (st (Suc i))) \<and> inj_on (public C st) {..E} \<and>
    (\<not> pq \<longrightarrow> (\<forall>i \<le> E. ep_kem (st i) = None \<and> ep_ct (st i) = None))"

definition before :: "(nat \<Rightarrow> nat) \<Rightarrow> nat \<Rightarrow> nat" where
  "before len i = (if 2 \<le> i then len (i - 2) else 0)"

definition header_of :: "crypto \<Rightarrow> (nat \<Rightarrow> epoch) \<Rightarrow> (nat \<Rightarrow> nat) \<Rightarrow> nat \<Rightarrow> nat \<Rightarrow> ratchet_header" where
  "header_of C st len i j =
    \<lparr>rh_dh = public C st i, rh_pn = of_nat (before len i), rh_n = of_nat j,
     rh_kem = map_option (mlkem_public C) (ep_kem (st i)), rh_kem_ct = ep_ct (st i)\<rparr>"

lemma header_of_simps [simp]:
  "rh_dh (header_of C st len i j) = public C st i" "rh_pn (header_of C st len i j) = of_nat (before len i)"
  "rh_n (header_of C st len i j) = of_nat j" "rh_kem (header_of C st len i j) = map_option (mlkem_public C) (ep_kem (st i))"
  "rh_kem_ct (header_of C st len i j) = ep_ct (st i)"
  by (simp_all add: header_of_def)

text \<open>
  The sending side of a session at its own epoch \<open>e\<close>; \<open>B\<close> is the associated data common to
  both sessions.
\<close>

definition sends :: "crypto \<Rightarrow> bytes \<Rightarrow> bool \<Rightarrow> (nat \<Rightarrow> epoch) \<Rightarrow> (nat \<Rightarrow> nat) \<Rightarrow> nat \<Rightarrow> session \<Rightarrow> bool" where
  "sends C B pq st len e s \<longleftrightarrow>
    ss_ad s @ ss_id s = B \<and> ss_pq_ratchet s = pq \<and> ss_dh_self s = ep_dh (st e) \<and>
    ss_dh_self_public s = public C st e \<and> ss_root_key s = ep_root (st e) \<and> ss_kem_self s = ep_kem (st e) \<and>
    ss_kem_self_public s = map_option (mlkem_public C) (ep_kem (st e)) \<and> ss_kem_ct_send s = ep_ct (st e) \<and>
    ss_n_send s = of_nat (len e) \<and> ss_pn s = of_nat (before len e) \<and>
    ss_chain_send s = (if e = 0 then None else Some (chain_at C (ep_chain (st e)) (len e)))"

text \<open>
  The receiving side: \<open>n\<close> numbers of the peer's epoch \<open>e - 1\<close> are behind it, \<open>und\<close> are the messages
  (by epoch and number) sent to it and not yet read. It keeps the key of each of them that is
  behind it, and nothing ahead of it has been read.
\<close>

definition key_of :: "crypto \<Rightarrow> (nat \<Rightarrow> epoch) \<Rightarrow> nat \<times> nat \<Rightarrow> skipped_key" where
  "key_of C st t = skipped_at C (public C st (fst t)) (ep_chain (st (fst t))) (snd t)"

definition behind :: "nat \<Rightarrow> nat \<Rightarrow> (nat \<times> nat) set" where
  "behind e n = {t. Suc (fst t) < e \<or> Suc (fst t) = e \<and> snd t < n}"

definition peer_len :: "(nat \<Rightarrow> nat) \<Rightarrow> nat \<Rightarrow> nat" where
  "peer_len len e = (if e = 0 then 0 else len (e - 1))"

definition sent_to :: "(nat \<Rightarrow> nat) \<Rightarrow> nat \<Rightarrow> nat \<Rightarrow> (nat \<times> nat) set" where
  "sent_to len E e = {t. fst t \<le> E \<and> snd t < len (fst t) \<and> odd (fst t + e)}"

definition hears ::
  "crypto \<Rightarrow> (nat \<Rightarrow> epoch) \<Rightarrow> (nat \<Rightarrow> nat) \<Rightarrow> nat \<Rightarrow> nat \<Rightarrow> nat \<Rightarrow> (nat \<times> nat) set \<Rightarrow> session \<Rightarrow> bool" where
  "hears C st len E e n und s \<longleftrightarrow>
    ss_n_recv s = of_nat n \<and> n \<le> peer_len len e \<and>
    ss_dh_remote s = (if e = 0 then None else Some (public C st (e - 1))) \<and>
    ss_chain_recv s = (if e \<le> 1 then None else Some (chain_at C (ep_chain (st (e - 1))) n)) \<and>
    distinct (ss_skipped s) \<and> set (ss_skipped s) = key_of C st ` (und \<inter> behind e n) \<and>
    und \<subseteq> sent_to len E e \<and>
    sent_to len E e - behind e n \<subseteq> und \<and>
    finite und \<and> card und \<le> 1000"

lemma key_of_inj:
  assumes "inj_on (public C st) {..E}" "fst t \<le> E" "fst t' \<le> E" "snd t < 2 ^ 32" "snd t' < 2 ^ 32"
    and "sk_dh (key_of C st t) = sk_dh (key_of C st t')" "sk_n (key_of C st t) = sk_n (key_of C st t')"
  shows "t = t'"
proof -
  have "fst t = fst t'" using assms by (auto simp: key_of_def skipped_at_def dest: inj_onD)
  moreover have "snd t = snd t'"
    using assms of_nat_u32_inj [of "snd t" "snd t'"] by (simp add: key_of_def skipped_at_def)
  ultimately show ?thesis by (simp add: prod_eq_iff)
qed

text \<open>What is bounded of the numbers, and what is known of the epochs, throughout.\<close>

definition lens_ok :: "(nat \<Rightarrow> nat) \<Rightarrow> bool" where
  "lens_ok len \<longleftrightarrow> len 0 = 0 \<and> (\<forall>i. len i < 2 ^ 32)"

lemma hears_undD:
  "hears C st len E e n und s \<Longrightarrow> t \<in> und \<Longrightarrow> fst t \<le> E \<and> snd t < len (fst t) \<and> odd (fst t + e)"
  unfolding hears_def sent_to_def by blast

section \<open>Skipping ahead\<close>

lemma skip_ahead:
  assumes h: "hears C st len E e n und s" and l: "lens_ok len" and e: "e \<le> Suc E" and u: "n \<le> u" "u \<le> peer_len len e"
    and inj: "inj_on (public C st) {..E}"
  shows "\<exists>cr nr sk. skip_message_keys C (of_nat u) s = Ok (s\<lparr>ss_chain_recv := cr, ss_n_recv := nr, ss_skipped := sk\<rparr>) \<and>
    hears C st len E e u und (s\<lparr>ss_chain_recv := cr, ss_n_recv := nr, ss_skipped := sk\<rparr>)"
proof -
  have small: "len i < 2 ^ 32" for i using l by (simp add: lens_ok_def)
  have u32: "u < 2 ^ 32" "n < 2 ^ 32" using u small [of "e - 1"] by (auto simp: peer_len_def split: if_splits)
  have n: "ss_n_recv s = of_nat n" using h by (simp add: hears_def)
  show ?thesis
  proof (cases "e \<le> 1")
    case True
    then have "peer_len len e = 0" using l by (cases e) (auto simp: peer_len_def lens_ok_def)
    then have z: "u = 0" "n = 0" using u by auto
    have "ss_chain_recv s = None" using h True by (simp add: hears_def)
    then have "skip_message_keys C (of_nat u) s = Ok s" using z by (simp add: skip_message_keys_def)
    with h z show ?thesis
      by (intro exI [of _ "ss_chain_recv s"] exI [of _ "ss_n_recv s"] exI [of _ "ss_skipped s"]) simp
  next
    case False
    let ?r = "e - 1" and ?ck = "ep_chain (st (e - 1))" and ?dh = "public C st (e - 1)"
    let ?new = "map (skipped_at C ?dh ?ck) [n..<u]"
    let ?s = "s\<lparr>ss_chain_recv := Some (chain_at C ?ck u), ss_n_recv := of_nat u, ss_skipped := ss_skipped s @ ?new\<rparr>"
    have st: "ss_chain_recv s = Some (chain_at C ?ck n)" "ss_dh_remote s = Some ?dh" "distinct (ss_skipped s)"
      "set (ss_skipped s) = key_of C st ` (und \<inter> behind e n)" "finite und" "card und \<le> 1000"
      and sub: "und \<subseteq> sent_to len E e"
      and ahead: "sent_to len E e - behind e n \<subseteq> und"
      using h False by (simp_all add: hears_def)
    have len: "u \<le> len ?r" using u False by (simp add: peer_len_def)
    have win: "(\<lambda>j. (?r, j)) ` {n..<u} \<subseteq> und - behind e n"
      using ahead len e False by (auto simp: behind_def sent_to_def subset_iff)
    have new: "set ?new = key_of C st ` ((\<lambda>j. (?r, j)) ` {n..<u})" by (simp add: key_of_def image_image)
    have kinj: "inj_on (key_of C st) und"
      using sub small by (intro inj_onI key_of_inj [OF inj]) (auto simp: sent_to_def intro: less_trans)
    have split: "und \<inter> behind e u = und \<inter> behind e n \<union> (\<lambda>j. (?r, j)) ` {n..<u}"
      using win u(1) False by (auto simp: behind_def image_iff)
    have dis: "distinct (ss_skipped s @ ?new)"
    proof -
      have "inj_on (\<lambda>j. key_of C st (?r, j)) {n..<u}"
        using win kinj by (intro comp_inj_on [of "\<lambda>j. (?r, j)" _ "key_of C st", unfolded comp_def])
          (auto simp: inj_on_def)
      then have "distinct ?new" by (simp add: distinct_map key_of_def)
      moreover have "set (ss_skipped s) \<inter> set ?new = {}"
        unfolding st(4) new using kinj win by (auto dest!: inj_onD [OF kinj])
      ultimately show ?thesis using st(3) by simp
    qed
    have set: "set (ss_skipped s @ ?new) = key_of C st ` (und \<inter> behind e u)"
      unfolding set_append st(4) new split image_Un ..
    have "length (ss_skipped s @ ?new) = card (key_of C st ` (und \<inter> behind e u))"
      using distinct_card [OF dis] set by simp
    also have "\<dots> \<le> card und"
      by (rule order_trans [OF card_image_le card_mono]) (use st(5) in auto)
    finally have few: "\<not> MAX_SKIPPED_KEYS < length (ss_skipped s @ ?new)" using st(6) by (simp add: MAX_SKIPPED_KEYS_def)
    have "u - n = card ((\<lambda>j. (?r, j)) ` {n..<u})" by (subst card_image) (auto simp: inj_on_def)
    also have "\<dots> \<le> card und" using win st(5) by (intro card_mono) auto
    finally have "u \<le> n + 1000" using st(6) by simp
    then have "\<not> sat_add_u32 (ss_n_recv s) MAX_SKIP < of_nat u"
      using u32 by (simp add: n sat_add_u32_def MAX_SKIP_def word_less_nat_alt unat_word_ariths
          unsigned_minus_1_eq_mask mask_eq_exp_minus_1)
    then have "skip_message_keys C (of_nat u) s = Ok ?s"
      using few by (simp add: skip_message_keys_def st(1,2) n skip_loop_run [OF u(1) u32(1)] del: length_append)
    moreover have "hears C st len E e u und ?s"
    proof -
      have "sent_to len E e - behind e u \<subseteq> und" using ahead u(1) by (auto simp: behind_def)
      with u(2) sub dis set False st show ?thesis unfolding hears_def by simp
    qed
    ultimately show ?thesis by blast
  qed
qed

section \<open>Reading a message\<close>

lemma hears_key_inj:
  assumes "hears C st len E e n und s" "lens_ok len" "inj_on (public C st) {..E}" "t \<in> und" "t' \<in> und"
    and "sk_dh (key_of C st t) = sk_dh (key_of C st t')" "sk_n (key_of C st t) = sk_n (key_of C st t')"
  shows "t = t'"
proof -
  have "fst t \<le> E" "fst t' \<le> E" "snd t < 2 ^ 32" "snd t' < 2 ^ 32"
    using hears_undD [OF assms(1,4)] hears_undD [OF assms(1,5)] assms(2) less_trans unfolding lens_ok_def by blast+
  then show ?thesis by (rule key_of_inj [OF assms(3) _ _ _ _ assms(6,7)])
qed

lemma take_skipped_behind:
  assumes h: "hears C st len E e n und s" and l: "lens_ok len" and inj: "inj_on (public C st) {..E}"
    and t: "(i, j) \<in> und" "(i, j) \<in> behind e n"
  shows "\<exists>sk. take_skipped (header_of C st len' i j) s = Some (message_key C (ep_chain (st i)) j, s\<lparr>ss_skipped := sk\<rparr>) \<and>
    hears C st len E e n (und - {(i, j)}) (s\<lparr>ss_skipped := sk\<rparr>)"
proof -
  let ?P = "\<lambda>k. sk_dh k = rh_dh (header_of C st len' i j) \<and> sk_n k = rh_n (header_of C st len' i j)"
  let ?k = "key_of C st (i, j)"
  have set: "set (ss_skipped s) = key_of C st ` (und \<inter> behind e n)" and dis: "distinct (ss_skipped s)"
    using h by (simp_all add: hears_def)
  have P: "?P k \<longleftrightarrow> sk_dh k = sk_dh ?k \<and> sk_n k = sk_n ?k" for k
    by (simp add: header_of_def key_of_def skipped_at_def)
  have only: "k = ?k" if "k \<in> set (ss_skipped s)" "?P k" for k
    using that hears_key_inj [OF h l inj _ t(1)] unfolding set P by auto
  have mem: "?k \<in> set (ss_skipped s)" "?P ?k" using t by (simp add: set) (simp add: key_of_def skipped_at_def)
  then obtain k where "find ?P (ss_skipped s) = Some k" using find_None_iff [of ?P "ss_skipped s"] by (cases "find ?P (ss_skipped s)") auto
  moreover from this have "k = ?k" using only by (auto simp: find_Some_iff in_set_conv_nth)
  ultimately have tk: "take_skipped (header_of C st len' i j) s =
      Some (message_key C (ep_chain (st i)) j, s\<lparr>ss_skipped := remove1 ?k (ss_skipped s)\<rparr>)"
    by (simp add: take_skipped_def) (simp add: key_of_def skipped_at_def)
  have "inj_on (key_of C st) und" using hears_key_inj [OF h l inj] by (auto intro: inj_onI)
  then have "key_of C st ` (und \<inter> behind e n) - {?k} = key_of C st ` ((und - {(i, j)}) \<inter> behind e n)"
    using t by (auto dest: inj_onD)
  moreover have "card (und - {(i, j)}) \<le> card und" using h by (intro card_mono) (auto simp: hears_def)
  ultimately have "hears C st len E e n (und - {(i, j)}) (s\<lparr>ss_skipped := remove1 ?k (ss_skipped s)\<rparr>)"
    using h t(2) set dis unfolding hears_def by (auto simp: set_remove1_eq)
  with tk show ?thesis by blast
qed

lemma take_skipped_ahead:
  assumes "hears C st len E e n und s" "lens_ok len" "inj_on (public C st) {..E}"
    and "(i, j) \<in> und" "(i, j) \<notin> behind e n"
  shows "take_skipped (header_of C st len' i j) s = None"
proof -
  have set: "set (ss_skipped s) = key_of C st ` (und \<inter> behind e n)" using assms(1) by (simp add: hears_def)
  have "\<not> (sk_dh k = public C st i \<and> sk_n k = of_nat j)" if "k \<in> set (ss_skipped s)" for k
  proof -
    obtain t where t: "t \<in> und" "t \<in> behind e n" "k = key_of C st t" using \<open>k \<in> set (ss_skipped s)\<close> unfolding set by blast
    then show ?thesis
      using hears_key_inj [OF assms(1-3) t(1) assms(4)] assms(5) by (auto simp: key_of_def skipped_at_def)
  qed
  then show ?thesis by (auto simp: take_skipped_def header_of_def find_None_iff)
qed

lemma hears_next:
  assumes h: "hears C st len E e n und s" and l: "lens_ok len" and e: "2 \<le> e" "(e - 1, n) \<in> und"
  shows "hears C st len E e (Suc n) (und - {(e - 1, n)})
    (s\<lparr>ss_chain_recv := Some (chain_at C (ep_chain (st (e - 1))) (Suc n)), ss_n_recv := of_nat (Suc n)\<rparr>)"
proof -
  have "n < len (e - 1)" using hears_undD [OF h e(2)] by simp
  moreover have "card und - Suc 0 \<le> 1000" using h by (auto simp: hears_def)
  moreover have "(und - {(e - 1, n)}) \<inter> behind e (Suc n) = und \<inter> behind e n"
    using e(1) by (auto simp: behind_def less_Suc_eq)
  moreover have step: "behind e (Suc n) = insert (e - 1, n) (behind e n)"
    using e(1) by (auto simp: behind_def less_Suc_eq prod_eq_iff)
  moreover have "sent_to len E e - behind e (Suc n) \<subseteq> und - {(e - 1, n)}"
    using h step by (auto simp: hears_def)
  moreover have "und - {(e - 1, n)} \<subseteq> sent_to len E e" using h by (auto simp: hears_def)
  ultimately show ?thesis
    using h e by (simp add: hears_def peer_len_def)
qed

section \<open>A ratchet step\<close>

text \<open>What the fresh keys of a step must be for it to go through.\<close>

definition good_draw :: "crypto \<Rightarrow> bool \<Rightarrow> ratchet_header \<Rightarrow> rng \<Rightarrow> bool" where
  "good_draw C pq h r \<longleftrightarrow>
    was_contributory C (x25519_dh C (fst (fill_bytes 32 r)) (rh_dh h)) \<and>
    (pq \<longrightarrow> (case rh_kem h of
       None \<Rightarrow> True
     | Some peer \<Rightarrow> is_ok (fst (encapsulate_with_rng C peer (snd (fill_bytes 64 (snd (fill_bytes 32 r))))))))"

lemma send_secret_ok:
  assumes C: "kem_inverts C" "kem_lengths C" and pq: "ss_pq_ratchet s = pq"
    and kem: "pq \<Longrightarrow> ss_kem_remote s = map_option (mlkem_public C) (ep_kem a)"
    and good: "\<And>seed. pq \<Longrightarrow> ep_kem a = Some seed \<Longrightarrow>
      is_ok (fst (encapsulate_with_rng C (mlkem_public C seed) (snd (fill_bytes 64 r))))"
    and none: "\<not> pq \<Longrightarrow> ss_kem_self s = None \<and> ss_kem_self_public s = None \<and> ss_kem_ct_send s = None"
  obtains secret ks ct r' where "send_secret C r s =
      Ok (secret, s\<lparr>ss_kem_self_public := map_option (mlkem_public C) ks, ss_kem_self := ks, ss_kem_ct_send := ct\<rparr>, r')"
    and "\<And>b. ep_ct b = ct \<Longrightarrow> shares C pq a b secret" and "\<not> pq \<Longrightarrow> ks = None \<and> ct = None"
proof (cases pq)
  case True
  let ?seed = "fst (fill_bytes 64 r)" and ?r1 = "snd (fill_bytes 64 r)"
  show thesis
  proof (cases "ep_kem a")
    case None
    then show thesis
      using True pq kem by (intro that [where secret = None and ks = "Some ?seed" and ct = None and r' = ?r1]) (simp_all add: send_secret_def shares_def case_prod_beta Let_def)
  next
    case (Some own)
    let ?m = "fst (fill_bytes 32 ?r1)"
    obtain ct k where e: "kem_encapsulate C (mlkem_public C own) ?m = Ok (ct, k)"
      using good [OF True Some] by (auto simp: encapsulate_with_rng_def case_prod_beta is_ok_def split: res.splits)
    then have "mlkem_encapsulate C (mlkem_public C own) ?m = Some (ct, k)"
      by (auto simp: kem_encapsulate_def ok_or_def split: if_splits option.splits)
    then have "mlkem_decapsulate C own ct = Some k" "length ct = KEM_CIPHERTEXT_LEN"
      using kem_invertsD [OF C(1)] kem_lengthsD(2) [OF C(2)] by (auto simp: KEM_CIPHERTEXT_LEN_def)
    then show thesis
      using True pq kem Some e
      by (intro that [where secret = "Some k" and ks = "Some ?seed" and ct = "Some ct" and r' = "snd (fill_bytes 32 ?r1)"])
        (simp_all add: send_secret_def shares_def encapsulate_with_rng_def case_prod_beta Let_def)
  qed
next
  case False
  then show thesis
    using pq none by (intro that [where secret = None and ks = None and ct = None and r' = r]) (simp_all add: send_secret_def shares_def)
qed

lemma ratchet_step:
  assumes C: "dh_commutes C" "kem_inverts C" "kem_lengths C"
    and ok: "epochs_ok C pq st E" "E = Suc e"
    and s: "sends C B pq st len e s" "hears C st len E e (peer_len len e) und s"
    and l: "lens_ok len" "len (Suc E) = 0"
    and r: "good_draw C pq (header_of C st len E j) r" "\<And>i. i \<le> E \<Longrightarrow> public C st i \<noteq> x25519_public C (fst (fill_bytes 32 r))"
  shows "\<exists>s' r' new. dh_ratchet C (header_of C st len E j) r s = Ok (s', r') \<and> ep_dh new = fst (fill_bytes 32 r) \<and>
    epochs_ok C pq (st(Suc E := new)) (Suc E) \<and>
    sends C B pq (st(Suc E := new)) len (Suc E) s' \<and> hears C (st(Suc E := new)) len (Suc E) (Suc E) 0 und s'"
proof -
  let ?h = "header_of C st len E j" and ?k = "fst (fill_bytes 32 r)" and ?r1 = "snd (fill_bytes 32 r)"
  let ?shared = "x25519_dh C (ep_dh (st E)) (public C st e)"
  have old: "x25519_dh C (ss_dh_self s) (public C st E) = ?shared" using s(1) C(1) by (simp add: sends_def dh_commutesD)
  obtain ss where ss: "was_contributory C ?shared" "shares C pq (st e) (st E) ss"
    "kdf_root C (ep_root (st e)) ?shared ss pq = (ep_root (st E), ep_chain (st E))"
    using ok unfolding epochs_ok_def linked_def Let_def by auto
  let ?s1 = "s\<lparr>ss_pn := ss_n_send s, ss_n_send := 0, ss_n_recv := 0, ss_dh_remote := Some (public C st E)\<rparr>"
  have recv: "receive_secret C ?h ?s1 = Ok ss"
    using ss(2) s(1) ok
    by (cases "ep_ct (st E)") (auto simp: receive_secret_def sends_def header_of_def shares_def epochs_ok_def)
  let ?s2 = "?s1\<lparr>ss_root_key := ep_root (st E), ss_chain_recv := Some (ep_chain (st E))\<rparr>"
  let ?s3 = "if pq then ?s2\<lparr>ss_kem_remote := map_option (mlkem_public C) (ep_kem (st E))\<rparr> else ?s2"
  have pq: "ss_pq_ratchet s = pq" using s(1) by (simp add: sends_def)
  obtain secret ks ct r2 where send: "send_secret C ?r1 ?s3 =
      Ok (secret, ?s3\<lparr>ss_kem_self_public := map_option (mlkem_public C) ks, ss_kem_self := ks, ss_kem_ct_send := ct\<rparr>, r2)"
    and sh: "\<And>new. ep_ct new = ct \<Longrightarrow> shares C pq (st E) new secret" and npq: "\<not> pq \<Longrightarrow> ks = None \<and> ct = None"
  proof (rule send_secret_ok [OF C(2,3), of ?s3 pq "st E" ?r1])
    show "is_ok (fst (encapsulate_with_rng C (mlkem_public C seed) (snd (fill_bytes 64 ?r1))))"
      if pq "ep_kem (st E) = Some seed" for seed
      using r(1) that by (simp add: good_draw_def header_of_def)
    show "ss_kem_self ?s3 = None \<and> ss_kem_self_public ?s3 = None \<and> ss_kem_ct_send ?s3 = None" if "\<not> pq"
      using that s(1) ok by (simp add: sends_def epochs_ok_def)
  qed (use pq in simp_all)
  let ?root = "kdf_root C (ep_root (st E)) (x25519_dh C ?k (public C st E)) secret pq"
  define new where "new = \<lparr>ep_dh = ?k, ep_kem = ks, ep_ct = ct, ep_root = fst ?root, ep_chain = snd ?root\<rparr>"
  let ?s4 = "?s3\<lparr>ss_kem_self_public := map_option (mlkem_public C) ks, ss_kem_self := ks, ss_kem_ct_send := ct,
      ss_dh_self_public := x25519_public C ?k, ss_dh_self := ?k, ss_root_key := fst ?root, ss_chain_send := Some (snd ?root)\<rparr>"
  have good: "was_contributory C (x25519_dh C ?k (public C st E))" using r(1) by (simp add: good_draw_def header_of_def)
  have "dh_ratchet C ?h r s = Ok (?s4, r2)"
    using recv send ss good old pq s(1) [unfolded sends_def]
    by (cases pq) (simp_all add: dh_ratchet_def case_prod_beta Let_def)
  moreover have "epochs_ok C pq (st(Suc E := new)) (Suc E)"
  proof -
    have link: "linked C pq (st E) new"
      using good sh [of new] by (auto simp: linked_def Let_def new_def)
    have "linked C pq ((st(Suc E := new)) i) ((st(Suc E := new)) (Suc i))" if "i < Suc E" for i
      using that ok(1) link by (cases "i = E") (auto simp: epochs_ok_def)
    moreover have "inj_on (public C (st(Suc E := new))) {..Suc E}"
      using ok(1) r(2) by (fastforce simp: epochs_ok_def inj_on_def new_def atMost_Suc)
    ultimately show ?thesis using ok(1) npq by (auto simp: epochs_ok_def new_def le_Suc_eq)
  qed
  moreover have "sends C B pq (st(Suc E := new)) len (Suc E) ?s4"
    using s(1) l(2) ok(2) by (simp add: sends_def new_def before_def)
  moreover have "hears C (st(Suc E := new)) len (Suc E) (Suc E) 0 und ?s4"
  proof -
    have u: "und \<subseteq> sent_to len E e"
      and a: "sent_to len E e - behind e (peer_len len e) \<subseteq> und"
      and sk: "set (ss_skipped s) = key_of C st ` (und \<inter> behind e (peer_len len e))"
      using s(2) by (simp_all add: hears_def)
    have "fst t \<le> E \<and> snd t < len (fst t) \<and> odd (fst t + e) \<longleftrightarrow>
        fst t \<le> Suc E \<and> snd t < len (fst t) \<and> odd (fst t + Suc E)" for t
      using ok(2) by (auto simp: le_Suc_eq)
    then have all: "sent_to len (Suc E) (Suc E) =
        sent_to len E e" unfolding sent_to_def by blast
    have beh: "t \<in> behind (Suc E) 0 \<longleftrightarrow> t \<in> behind e (peer_len len e)"
      if "t \<in> sent_to len E e" for t
      using that ok(2) by (auto simp: sent_to_def behind_def peer_len_def less_Suc_eq elim: oddE)
    have "und \<inter> behind (Suc E) 0 = und \<inter> behind e (peer_len len e)" using u beh by blast
    moreover have "key_of C (st(Suc E := new)) ` X = key_of C st ` X" if "X \<subseteq> und" for X
      using that u by (intro image_cong) (auto simp: key_of_def sent_to_def)
    ultimately have "set (ss_skipped s) = key_of C (st(Suc E := new)) ` (und \<inter> behind (Suc E) 0)" using sk by simp
    moreover have "sent_to len E e - behind (Suc E) 0 \<subseteq> und" using a beh by blast
    ultimately show ?thesis
      using s(2) u ok(2) unfolding hears_def all by simp
  qed
  ultimately show ?thesis by (intro exI [of _ ?s4] exI [of _ r2] exI [of _ new]) (simp add: new_def)
qed

section \<open>Receiving\<close>

lemma aead_roundtrip: "aead_inverts C \<Longrightarrow> aead_encrypt C k p ad = Ok c \<Longrightarrow> aead_decrypt C k c ad = Ok p"
  by (auto simp: aead_encrypt_def aead_decrypt_def Let_def ok_or_def split: option.splits dest: aead_invertsD)

text \<open>A message of the sender's epoch \<open>i\<close> with number \<open>j\<close> and text \<open>p\<close>.\<close>

definition message_of ::
  "crypto \<Rightarrow> bytes \<Rightarrow> (nat \<Rightarrow> epoch) \<Rightarrow> (nat \<Rightarrow> nat) \<Rightarrow> nat \<times> nat \<Rightarrow> bytes \<Rightarrow> ratchet_message \<Rightarrow> bool" where
  "message_of C B st len t p m \<longleftrightarrow>
    rm_header m = header_of C st len (fst t) (snd t) \<and>
    aead_encrypt C (message_key C (ep_chain (st (fst t))) (snd t)) p (B @ rh_bytes (rm_header m)) = Ok (rm_ciphertext m)"

lemma header_lengths:
  assumes "epochs_ok C pq st E" "kem_lengths C" "0 < i" "i \<le> E"
  shows "rh_check_lengths (header_of C st len i j) = Ok ()"
proof -
  have "linked C pq (st (i - 1)) (st i)" using assms by (cases i) (auto simp: epochs_ok_def)
  then have "length ct = KEM_CIPHERTEXT_LEN" if "ep_ct (st i) = Some ct" for ct
    using that by (auto simp: linked_def shares_def Let_def)
  then show ?thesis
    using kem_lengthsD(1) [OF assms(2)] by (auto simp: rh_check_lengths_def KEM_PUBLIC_LEN_def split: option.split)
qed

lemma update_recv:
  "s\<lparr>ss_skipped := a, ss_chain_recv := b, ss_n_recv := c\<rparr> = s\<lparr>ss_chain_recv := b, ss_n_recv := c, ss_skipped := a\<rparr>"
  by (cases s) simp

text \<open>The common end of \<open>decrypt_advancing\<close>: skip to the number, derive the key, decrypt.\<close>

lemma read_on:
  assumes C: "aead_inverts C" and h: "hears C st len E e n und s" and l: "lens_ok len"
    and inj: "inj_on (public C st) {..E}" and e: "2 \<le> e" "e \<le> Suc E"
    and t: "(e - 1, j) \<in> und" "n \<le> j" and m: "aead_encrypt C (message_key C (ep_chain (st (e - 1))) j) p ad = Ok c"
  shows "\<exists>cr nr sk. and_then (skip_message_keys C (of_nat j) s) (\<lambda>s.
      and_then (ok_or (ss_chain_recv s) SessionNotReady) (\<lambda>chain.
      let (next_chain, message_key) = kdf_chain C chain
      in and_then (aead_decrypt C message_key c ad) (\<lambda>p.
         if ss_n_recv s = - 1 then Panic
         else Ok (p, s\<lparr>ss_chain_recv := Some next_chain, ss_n_recv := ss_n_recv s + 1\<rparr>, r)))) =
      Ok (p, s\<lparr>ss_chain_recv := cr, ss_n_recv := nr, ss_skipped := sk\<rparr>, r) \<and>
    hears C st len E e (Suc j) (und - {(e - 1, j)}) (s\<lparr>ss_chain_recv := cr, ss_n_recv := nr, ss_skipped := sk\<rparr>)"
proof -
  have j: "j < len (e - 1)" using hears_undD [OF h t(1)] by simp
  then have j': "Suc j < 2 ^ 32" using l unfolding lens_ok_def by (metis Suc_leI le_less_trans)
  have "j \<le> peer_len len e" using j e by (simp add: peer_len_def)
  then obtain cr nr sk where sk: "skip_message_keys C (of_nat j) s = Ok (s\<lparr>ss_chain_recv := cr, ss_n_recv := nr, ss_skipped := sk\<rparr>)"
    and h1: "hears C st len E e j und (s\<lparr>ss_chain_recv := cr, ss_n_recv := nr, ss_skipped := sk\<rparr>)"
    using skip_ahead [OF h l e(2) t(2) _ inj] by blast
  have c: "cr = Some (chain_at C (ep_chain (st (e - 1))) j)" "nr = of_nat j" using h1 e by (simp_all add: hears_def)
  have "(of_nat j :: u32) \<noteq> - 1"
  proof
    assume "(of_nat j :: u32) = - 1"
    then have "unat (of_nat j :: u32) = 2 ^ 32 - 1"
      by (simp only:) (simp add: unsigned_minus_1_eq_mask mask_eq_exp_minus_1)
    with j' show False by simp
  qed
  then show ?thesis
    using sk c aead_roundtrip [OF C m] hears_next [OF h1 l e(1) t(1)]
    by (intro exI [of _ "Some (chain_at C (ep_chain (st (e - 1))) (Suc j))"] exI [of _ "of_nat (Suc j)"] exI [of _ sk])
      (simp add: kdf_chain_at add.commute update_recv del: chain_at.simps)
qed

lemma sends_recv [simp]:
  "sends C B pq st len e (s\<lparr>ss_chain_recv := cr\<rparr>) = sends C B pq st len e s"
  "sends C B pq st len e (s\<lparr>ss_n_recv := nr\<rparr>) = sends C B pq st len e s"
  "sends C B pq st len e (s\<lparr>ss_skipped := sk\<rparr>) = sends C B pq st len e s"
  by (simp_all add: sends_def)

lemma aad_sends: "sends C B pq st len e s \<Longrightarrow> aad s h = B @ rh_bytes h"
  by (auto simp: sends_def aad_def)

definition ratchet_laws :: "crypto \<Rightarrow> bool" where
  "ratchet_laws C \<longleftrightarrow> dh_commutes C \<and> kem_inverts C \<and> kem_lengths C \<and> aead_inverts C"

lemma receive:
  assumes C: "ratchet_laws C" and ok: "epochs_ok C pq st E" and l: "lens_ok len" "len (Suc E) = 0"
    and e: "E = e \<or> E = Suc e" and s: "sends C B pq st len e s" "hears C st len E e n und s"
    and t: "(i, j) \<in> und" and m: "message_of C B st len (i, j) p m"
    and draw: "i = E \<Longrightarrow> good_draw C pq (rm_header m) r"
      "\<And>k. k \<le> E \<Longrightarrow> public C st k \<noteq> x25519_public C (fst (fill_bytes 32 r))"
  shows "\<exists>s' r' st' E' e' n'. decrypt_advancing C m r s = Ok (p, s', r') \<and>
    (E' = E \<and> e' = e \<and> st' = st \<or> E = Suc e \<and> E' = Suc E \<and> e' = Suc E \<and>
      (\<exists>new. st' = st(E' := new) \<and> ep_dh new = fst (fill_bytes 32 r))) \<and>
    epochs_ok C pq st' E' \<and> sends C B pq st' len e' s' \<and> hears C st' len E' e' n' (und - {(i, j)}) s'"
proof -
  have laws: "dh_commutes C" "kem_inverts C" "kem_lengths C" "aead_inverts C" using C by (simp_all add: ratchet_laws_def)
  have inj: "inj_on (public C st) {..E}" using ok by (simp add: epochs_ok_def)
  have i: "i \<le> E" "j < len i" "odd (i + e)" using hears_undD [OF s(2) t] by simp_all
  then have i0: "0 < i" using l(1) by (cases i) (simp_all add: lens_ok_def)
  have hd: "rm_header m = header_of C st len i j"
    and enc: "aead_encrypt C (message_key C (ep_chain (st i)) j) p (B @ rh_bytes (rm_header m)) = Ok (rm_ciphertext m)"
    using m unfolding message_of_def fst_conv snd_conv by blast+
  have lens: "rh_check_lengths (rm_header m) = Ok ()" unfolding hd by (rule header_lengths [OF ok laws(3) i0 i(1)])
  have ad: "aad s (rm_header m) = B @ rh_bytes (rm_header m)" by (rule aad_sends [OF s(1)])
  have "i \<noteq> e" using i(3) by auto
  then have "Suc i < e \<or> Suc i = e \<and> j < n \<or> Suc i = e \<and> n \<le> j \<or> i = Suc e \<and> E = Suc e"
    using i(1) e by linarith
  then consider (behind) "(i, j) \<in> behind e n" | (chain) "(i, j) \<notin> behind e n" "Suc i = e" "n \<le> j"
    | (step) "(i, j) \<notin> behind e n" "i = Suc e" "E = Suc e"
    by (fastforce simp: behind_def)
  then show ?thesis
  proof cases
    case behind
    obtain sk where "take_skipped (rm_header m) s = Some (message_key C (ep_chain (st i)) j, s\<lparr>ss_skipped := sk\<rparr>)"
      and h: "hears C st len E e n (und - {(i, j)}) (s\<lparr>ss_skipped := sk\<rparr>)"
      using take_skipped_behind [OF s(2) l(1) inj t behind, of len] unfolding hd by blast
    then have "decrypt_advancing C m r s = Ok (p, s\<lparr>ss_skipped := sk\<rparr>, r)"
      using lens ad aead_roundtrip [OF laws(4) enc] by (simp add: decrypt_advancing_def)
    with h s(1) ok show ?thesis by (metis sends_recv)
  next
    case chain
    then have e2: "2 \<le> e" "e - 1 = i" "e \<le> Suc E" using i0 e by auto
    have "take_skipped (rm_header m) s = None" unfolding hd by (rule take_skipped_ahead [OF s(2) l(1) inj t chain(1)])
    moreover have "ss_dh_remote s = Some (rh_dh (rm_header m))" using s(2) e2 by (simp add: hears_def hd)
    moreover note read_on [OF laws(4) s(2) l(1) inj e2(1,3), of j p "B @ rh_bytes (rm_header m)" "rm_ciphertext m" r]
    ultimately show ?thesis
      using lens ad t chain enc s(1) ok e2(2)
      by (simp add: decrypt_advancing_def hd) (metis sends_recv)
  next
    case step
    then have ie: "i = E" by simp
    have pn: "rh_pn (rm_header m) = of_nat (peer_len len e)" by (simp add: hd step(2) before_def peer_len_def)
    have n: "n \<le> peer_len len e" using s(2) by (simp add: hears_def)
    obtain cr nr sk where sk: "skip_message_keys C (rh_pn (rm_header m)) s = Ok (s\<lparr>ss_chain_recv := cr, ss_n_recv := nr, ss_skipped := sk\<rparr>)"
      and h1: "hears C st len E e (peer_len len e) und (s\<lparr>ss_chain_recv := cr, ss_n_recv := nr, ss_skipped := sk\<rparr>)"
      using skip_ahead [OF s(2) l(1) _ n order_refl inj] step unfolding pn by auto
    let ?s1 = "s\<lparr>ss_chain_recv := cr, ss_n_recv := nr, ss_skipped := sk\<rparr>"
    have hE: "rm_header m = header_of C st len E j" unfolding hd ie ..
    have s1: "sends C B pq st len e ?s1" using s(1) by simp
    have good: "good_draw C pq (header_of C st len E j) r" using draw(1) [OF ie] unfolding hE .
    obtain s2 r' new where dr: "dh_ratchet C (rm_header m) r ?s1 = Ok (s2, r')" and new: "ep_dh new = fst (fill_bytes 32 r)"
      and ok': "epochs_ok C pq (st(Suc E := new)) (Suc E)"
      and s2: "sends C B pq (st(Suc E := new)) len (Suc E) s2" "hears C (st(Suc E := new)) len (Suc E) (Suc E) 0 und s2"
      unfolding hE using ratchet_step [OF laws(1-3) ok step(3) s1 h1 l good draw(2)] by blast
    have inj': "inj_on (public C (st(Suc E := new))) {..Suc E}" using ok' by (simp add: epochs_ok_def)
    have "take_skipped (rm_header m) s = None" unfolding hd by (rule take_skipped_ahead [OF s(2) l(1) inj t step(1)])
    moreover have "ss_dh_remote s \<noteq> Some (rh_dh (rm_header m))"
      using s(2) inj step by (auto simp: hears_def hd dest: inj_onD)
    moreover have eq: "Suc E - 1 = i" using ie by simp
    have pre: "2 \<le> Suc E" "Suc E \<le> Suc (Suc E)" "(Suc E - 1, j) \<in> und" "0 \<le> j"
      "aead_encrypt C (message_key C (ep_chain ((st(Suc E := new)) (Suc E - 1))) j) p (B @ rh_bytes (rm_header m)) = Ok (rm_ciphertext m)"
      using t enc step(3) ie by simp_all
    obtain cr nr sk where "and_then (skip_message_keys C (of_nat j) s2) (\<lambda>s.
        and_then (ok_or (ss_chain_recv s) SessionNotReady) (\<lambda>chain.
        let (next_chain, message_key) = kdf_chain C chain
        in and_then (aead_decrypt C message_key (rm_ciphertext m) (B @ rh_bytes (rm_header m))) (\<lambda>p.
           if ss_n_recv s = - 1 then Panic
           else Ok (p, s\<lparr>ss_chain_recv := Some next_chain, ss_n_recv := ss_n_recv s + 1\<rparr>, r')))) =
        Ok (p, s2\<lparr>ss_chain_recv := cr, ss_n_recv := nr, ss_skipped := sk\<rparr>, r')"
      and h3: "hears C (st(Suc E := new)) len (Suc E) (Suc E) (Suc j) (und - {(i, j)}) (s2\<lparr>ss_chain_recv := cr, ss_n_recv := nr, ss_skipped := sk\<rparr>)"
      using read_on [OF laws(4) s2(2) l(1) inj' pre, of r'] unfolding eq by blast
    ultimately have "decrypt_advancing C m r s = Ok (p, s2\<lparr>ss_chain_recv := cr, ss_n_recv := nr, ss_skipped := sk\<rparr>, r')"
      using lens ad sk dr by (simp add: decrypt_advancing_def hd)
    with h3 s2(1) ok' new step(3) show ?thesis by (metis sends_recv)
  qed
qed

section \<open>Sending\<close>

lemma before_upd: "odd (e + k) \<or> e \<le> k \<Longrightarrow> before (len(k := x)) e = before len e"
  by (cases "2 \<le> e") (auto simp: before_def dest!: le_Suc_ex)

lemma send:
  assumes l: "lens_ok len" and s: "sends C B pq st len e s" and m: "encrypt C p s = Ok (m, s')"
  shows "0 < e \<and> Suc (len e) < 2 ^ 32 \<and> message_of C B st len (e, len e) p m \<and>
    sends C B pq st (len(e := Suc (len e))) e s' \<and> (\<exists>cs ns. s' = s\<lparr>ss_chain_send := cs, ss_n_send := ns\<rparr>)"
proof -
  have e: "0 < e" using s m by (cases "e = 0") (simp_all add: encrypt_def sends_def)
  let ?h = "\<lparr>rh_dh = ss_dh_self_public s, rh_pn = ss_pn s, rh_n = ss_n_send s, rh_kem = ss_kem_self_public s,
             rh_kem_ct = ss_kem_ct_send s\<rparr>"
  let ?ck = "ep_chain (st e)"
  have h: "?h = header_of C st len e (len e)" using s by (simp add: sends_def header_of_def)
  have chain: "ss_chain_send s = Some (chain_at C ?ck (len e))" using s e by (simp add: sends_def)
  have r: "aead_encrypt C (message_key C ?ck (len e)) p (aad s ?h) = Ok (rm_ciphertext m)" "rm_header m = ?h"
    "ss_n_send s \<noteq> - 1" "s' = s\<lparr>ss_chain_send := Some (chain_at C ?ck (Suc (len e))), ss_n_send := ss_n_send s + 1\<rparr>"
    using m by (auto simp: encrypt_def chain kdf_chain_at Let_def simp del: chain_at.simps split: if_splits)
  have n: "ss_n_send s = of_nat (len e)" using s by (simp add: sends_def)
  have "unat (ss_n_send s) = len e" using l unfolding n by (simp add: lens_ok_def)
  then have "Suc (len e) < 2 ^ 32" using unat_plus_one [OF r(3)] unat_less_2p [of "ss_n_send s + 1"] by simp
  moreover have "message_of C B st len (e, len e) p m"
    using r(1,2) aad_sends [OF s, of ?h] by (simp add: message_of_def h)
  moreover have "sends C B pq st (len(e := Suc (len e))) e s'"
    using s e before_upd [of e e len] unfolding r(4) by (simp add: sends_def add.commute del: chain_at.simps)
  ultimately show ?thesis using e r(4) by blast
qed

section \<open>What one side does, seen from the other\<close>

lemma sends_other_len: "odd (e + k) \<Longrightarrow> sends C B pq st (len(k := x)) e s = sends C B pq st len e s"
  by (cases "e = k") (auto simp: sends_def before_upd)

lemma hears_own_len:
  assumes "even (e + k)"
  shows "hears C st (len(k := x)) E e n und s = hears C st len E e n und s"
proof -
  have "sent_to (len(k := x)) E e = sent_to len E e" using assms by (auto simp: sent_to_def)
  moreover have "peer_len (len(k := x)) e = peer_len len e" using assms by (auto simp: peer_len_def)
  ultimately show ?thesis unfolding hears_def by simp
qed

lemma hears_sent:
  assumes h: "hears C st len E e n und s" and k: "k \<le> E" "k = Suc e \<or> Suc k = e" and few: "card und < 1000"
  shows "hears C st (len(k := Suc (len k))) E e n (insert (k, len k) und) s"
proof -
  let ?len = "len(k := Suc (len k))"
  have n: "n \<le> peer_len len e" using h by (simp add: hears_def)
  have "(k, len k) \<notin> behind e n" using k(2) n by (auto simp: behind_def peer_len_def)
  then have "insert (k, len k) und \<inter> behind e n = und \<inter> behind e n" by auto
  moreover have "sent_to ?len E e = insert (k, len k) (sent_to len E e)"
    using k by (auto simp: sent_to_def less_Suc_eq split: if_splits)
  moreover have "n \<le> peer_len ?len e" using n by (auto simp: peer_len_def)
  moreover have "card (insert (k, len k) und) \<le> 1000"
    using few card_insert_le_m1 [of 1000 und] by simp
  moreover have "und \<subseteq> sent_to len E e" "sent_to len E e - behind e n \<subseteq> und" using h by (simp_all add: hears_def)
  then have "insert (k, len k) und \<subseteq> insert (k, len k) (sent_to len E e)"
    "insert (k, len k) (sent_to len E e) - behind e n \<subseteq> insert (k, len k) und" by auto
  ultimately show ?thesis using h by (simp add: hears_def)
qed

lemma sends_step: "e \<le> E \<Longrightarrow> sends C B pq (st(Suc E := new)) len e s = sends C B pq st len e s"
  by (simp add: sends_def)

lemma hears_step:
  assumes "hears C st len E e n und s" "e \<le> Suc E" "len (Suc E) = 0"
  shows "hears C (st(Suc E := new)) len (Suc E) e n und s"
proof -
  have u: "und \<subseteq> sent_to len E e" using assms(1) by (simp add: hears_def)
  have "sent_to len (Suc E) e = sent_to len E e" using assms(3) by (auto simp: sent_to_def le_Suc_eq)
  moreover have "key_of C (st(Suc E := new)) ` (und \<inter> behind e n) = key_of C st ` (und \<inter> behind e n)"
    using u by (intro image_cong) (auto simp: key_of_def sent_to_def)
  ultimately show ?thesis using assms unfolding hears_def by auto
qed

lemma message_of_step: "fst t \<le> E \<Longrightarrow> message_of C B (st(Suc E := new)) len t p m = message_of C B st len t p m"
  by (simp add: message_of_def header_of_def)

lemma message_of_len:
  "fst t \<le> k \<or> odd (fst t + k) \<Longrightarrow> message_of C B st (len(k := x)) t p m = message_of C B st len t p m"
  by (auto simp: message_of_def header_of_def before_upd)

section \<open>Conversations\<close>

text \<open>
  The two sessions, every message sent with its sender and text, and which of them have been
  read. \<open>Hear\<close> delivers a message by its place in that list to the session it is for.
\<close>

datatype party = Alice | Bob

fun other :: "party \<Rightarrow> party" where
  "other Alice = Bob"
| "other Bob = Alice"

record world =
  wd_session :: "party \<Rightarrow> session"
  wd_sent :: "(party \<times> ratchet_message \<times> bytes) list"
  wd_read :: "nat set"

datatype talk = Say party bytes | Hear nat rng

fun talk_step :: "crypto \<Rightarrow> world \<Rightarrow> talk \<Rightarrow> world" where
  "talk_step C w (Say p text) =
    (case encrypt C text (wd_session w p) of
       Ok (m, s) \<Rightarrow> w\<lparr>wd_session := (wd_session w)(p := s), wd_sent := wd_sent w @ [(p, m, text)]\<rparr>
     | _ \<Rightarrow> w)"
| "talk_step C w (Hear k r) =
    (if k < length (wd_sent w) then
       let (p, m, _) = wd_sent w ! k
       in (case decrypt_with_rng C m r (wd_session w (other p)) of
             (Ok _, s) \<Rightarrow> w\<lparr>wd_session := (wd_session w)(other p := s), wd_read := insert k (wd_read w)\<rparr>
           | _ \<Rightarrow> w)
     else w)"

definition underway :: "world \<Rightarrow> party \<Rightarrow> nat set" where
  "underway w q = set (filter (\<lambda>k. fst (wd_sent w ! k) = other q \<and> k \<notin> wd_read w) [0..<length (wd_sent w)])"

text \<open>
  What a step must keep to: at most a thousand messages under way to one side, no message
  delivered twice, and fresh keys that are neither weak nor used before.
\<close>

fun fits :: "crypto \<Rightarrow> bytes set \<Rightarrow> world \<Rightarrow> talk \<Rightarrow> bool" where
  "fits C used w (Say p text) = (card (underway w (other p)) < 1000)"
| "fits C used w (Hear k r) =
    (k < length (wd_sent w) \<and> k \<notin> wd_read w \<and> x25519_public C (fst (fill_bytes 32 r)) \<notin> used \<and>
     good_draw C (ss_pq_ratchet (wd_session w Alice)) (rm_header (fst (snd (wd_sent w ! k)))) r)"

fun drawn :: "crypto \<Rightarrow> talk \<Rightarrow> bytes set" where
  "drawn C (Say p text) = {}"
| "drawn C (Hear k r) = {x25519_public C (fst (fill_bytes 32 r))}"

fun fair :: "crypto \<Rightarrow> bytes set \<Rightarrow> world \<Rightarrow> talk list \<Rightarrow> bool" where
  "fair C used w [] = True"
| "fair C used w (x # xs) = (fits C used w x \<and> fair C (used \<union> drawn C x) (talk_step C w x) xs)"

definition talking ::
  "crypto \<Rightarrow> bytes \<Rightarrow> bool \<Rightarrow> bytes set \<Rightarrow> (nat \<Rightarrow> epoch) \<Rightarrow> (nat \<Rightarrow> nat) \<Rightarrow> nat \<Rightarrow> (party \<Rightarrow> nat) \<Rightarrow> (nat \<Rightarrow> nat \<times> nat) \<Rightarrow> world \<Rightarrow> bool" where
  "talking C B pq used st len E ep tag w \<longleftrightarrow>
    epochs_ok C pq st E \<and> lens_ok len \<and> (\<forall>i > E. len i = 0) \<and> public C st ` {..E} \<subseteq> used \<and>
    (\<forall>p. (E = ep p \<or> E = Suc (ep p)) \<and> (odd (ep p) \<longleftrightarrow> p = Alice) \<and> sends C B pq st len (ep p) (wd_session w p) \<and>
      (\<exists>n. hears C st len E (ep p) n (tag ` underway w p) (wd_session w p))) \<and>
    inj_on tag {..<length (wd_sent w)} \<and> wd_read w \<subseteq> {..<length (wd_sent w)} \<and>
    (\<forall>k < length (wd_sent w). case wd_sent w ! k of (p, m, text) \<Rightarrow>
      message_of C B st len (tag k) text m \<and> fst (tag k) \<le> ep p \<and> (odd (fst (tag k)) \<longleftrightarrow> p = Alice) \<and>
      snd (tag k) < len (fst (tag k)))"

definition in_touch :: "crypto \<Rightarrow> bytes set \<Rightarrow> world \<Rightarrow> bool" where
  "in_touch C used w \<longleftrightarrow> (\<exists>B pq st len E ep tag. talking C B pq used st len E ep tag w)"

lemma other_neq [simp]: "other p \<noteq> p" "p \<noteq> other p" "other (other p) = p" "other p = other q \<longleftrightarrow> p = q"
  by (cases p; cases q; simp)+

lemma party_cases: "p = q \<or> p = other q"
  by (cases p; cases q) simp_all

lemma finite_underway [simp]: "finite (underway w p)"
  by (simp add: underway_def)

lemma talkingI:
  assumes "epochs_ok C pq st E" "lens_ok len" "\<And>i. i > E \<Longrightarrow> len i = 0" "public C st ` {..E} \<subseteq> used"
    and "\<And>p. E = ep p \<or> E = Suc (ep p)" "\<And>p. odd (ep p) \<longleftrightarrow> p = Alice"
    and "\<And>p. sends C B pq st len (ep p) (wd_session w p)"
    and "\<And>p. \<exists>n. hears C st len E (ep p) n (tag ` underway w p) (wd_session w p)"
    and "inj_on tag {..<length (wd_sent w)}" "wd_read w \<subseteq> {..<length (wd_sent w)}"
    and "\<And>k p m text. k < length (wd_sent w) \<Longrightarrow> wd_sent w ! k = (p, m, text) \<Longrightarrow>
      message_of C B st len (tag k) text m \<and> fst (tag k) \<le> ep p \<and> (odd (fst (tag k)) \<longleftrightarrow> p = Alice) \<and>
      snd (tag k) < len (fst (tag k))"
  shows "talking C B pq used st len E ep tag w"
  unfolding talking_def using assms by (auto split: prod.split)

lemma talkingD:
  assumes "talking C B pq used st len E ep tag w"
  shows "epochs_ok C pq st E" "lens_ok len" "i > E \<Longrightarrow> len i = 0" "public C st ` {..E} \<subseteq> used"
    and "E = ep p \<or> E = Suc (ep p)" "odd (ep p) \<longleftrightarrow> p = Alice"
    and "sends C B pq st len (ep p) (wd_session w p)"
    and "\<exists>n. hears C st len E (ep p) n (tag ` underway w p) (wd_session w p)"
    and "inj_on tag {..<length (wd_sent w)}" "wd_read w \<subseteq> {..<length (wd_sent w)}"
    and "k < length (wd_sent w) \<Longrightarrow> wd_sent w ! k = (p, m, text) \<Longrightarrow>
      message_of C B st len (tag k) text m \<and> fst (tag k) \<le> ep p \<and> (odd (fst (tag k)) \<longleftrightarrow> p = Alice) \<and>
      snd (tag k) < len (fst (tag k))"
  using assms unfolding talking_def by auto

lemma talking_say:
  assumes t: "talking C B pq used st len E ep tag w" and few: "card (underway w (other p)) < 1000"
    and m: "encrypt C text (wd_session w p) = Ok (m, s)"
  shows "\<exists>len' tag'. talking C B pq used st len' E ep tag'
    (w\<lparr>wd_session := (wd_session w)(p := s), wd_sent := wd_sent w @ [(p, m, text)]\<rparr>)"
proof -
  let ?e = "ep p" and ?q = "other p" and ?n = "length (wd_sent w)"
  let ?len = "len(?e := Suc (len ?e))" and ?tag = "tag(?n := (?e, len ?e))"
  let ?w = "w\<lparr>wd_session := (wd_session w)(p := s), wd_sent := wd_sent w @ [(p, m, text)]\<rparr>"
  note E = talkingD(5,6) [OF t] and snd = talkingD(7) [OF t] and hrs = talkingD(8) [OF t]
  note l = talkingD(2,3) [OF t] and inj = talkingD(9) [OF t] and rd = talkingD(10) [OF t] and msgs = talkingD(11) [OF t]
  note sn = send [OF l(1) snd m]
  have par: "odd (ep ?q + ?e)" using E(2) [of p] E(2) [of ?q] by (cases p) auto
  have near: "?e = Suc (ep ?q) \<or> Suc ?e = ep ?q" "?e \<le> E" using E(1) [of p] E(1) [of ?q] par by auto
  have "underway ?w p = underway w p" using rd by (auto simp: underway_def nth_append less_Suc_eq)
  then have up: "?tag ` underway ?w p = tag ` underway w p" by (auto simp: underway_def intro!: image_cong)
  have "underway ?w ?q = insert ?n (underway w ?q)" using rd by (auto simp: underway_def nth_append less_Suc_eq)
  moreover have "?tag ` underway w ?q = tag ` underway w ?q" by (auto simp: underway_def intro!: image_cong)
  ultimately have uq: "?tag ` underway ?w ?q = insert (?e, len ?e) (tag ` underway w ?q)"
    by (simp only: image_insert fun_upd_same)
  have few': "card (tag ` underway w ?q) < 1000"
    using few card_image_le [OF finite_underway, of tag w ?q] by simp
  have "\<exists>n. hears C st ?len E (ep q) n (?tag ` underway ?w q) (wd_session ?w q)" for q
  proof (cases "q = p")
    case True
    obtain cs ns where "s = (wd_session w p)\<lparr>ss_chain_send := cs, ss_n_send := ns\<rparr>" using sn by blast
    moreover obtain n where "hears C st len E ?e n (tag ` underway w p) (wd_session w p)" using hrs by blast
    ultimately have "hears C st len E ?e n (tag ` underway w p) s" by (simp add: hears_def)
    then show ?thesis using True up hears_own_len [of ?e ?e] by auto
  next
    case False
    then have q: "q = ?q" using party_cases [of q p] by simp
    obtain n where "hears C st len E (ep ?q) n (tag ` underway w ?q) (wd_session w ?q)" using hrs by blast
    from hears_sent [OF this near(2,1) few'] show ?thesis unfolding q uq by auto
  qed
  moreover have "sends C B pq st ?len (ep q) (wd_session ?w q)" for q
    using sn snd [of ?q] sends_other_len [OF par] party_cases [of q p] by (cases "q = p") auto
  moreover have "inj_on ?tag {..<Suc ?n}"
  proof -
    have fresh: "(?e, len ?e) \<notin> tag ` {..<?n}"
    proof
      assume "(?e, len ?e) \<in> tag ` {..<?n}"
      then obtain k where "k < ?n" "tag k = (?e, len ?e)" by auto
      with msgs [of k] show False by (cases "wd_sent w ! k") simp
    qed
    moreover have "?tag ` ({..<?n} - {?n}) = tag ` {..<?n}" by (intro image_cong) auto
    ultimately show ?thesis
      using inj_on_fun_updI [OF inj fresh] unfolding lessThan_Suc inj_on_insert by (simp only: fun_upd_same) blast
  qed
  moreover have "lens_ok ?len" using l(1) sn by (auto simp: lens_ok_def)
  moreover have "message_of C B st ?len (?tag k) text' m' \<and> fst (?tag k) \<le> ep p' \<and> (odd (fst (?tag k)) \<longleftrightarrow> p' = Alice) \<and>
      snd (?tag k) < ?len (fst (?tag k))"
    if k: "k < Suc ?n" "wd_sent ?w ! k = (p', m', text')" for k p' m' text'
  proof (cases "k = ?n")
    case True
    with that sn E(2) show ?thesis by (auto simp: message_of_len nth_append)
  next
    case False
    then have k': "k < ?n" "wd_sent w ! k = (p', m', text')" using that by (auto simp: nth_append)
    then have m: "message_of C B st len (tag k) text' m' \<and> fst (tag k) \<le> ep p' \<and> (odd (fst (tag k)) \<longleftrightarrow> p' = Alice) \<and>
      snd (tag k) < len (fst (tag k))" using msgs by blast
    moreover have "fst (tag k) \<le> ?e \<or> odd (fst (tag k) + ?e)"
      using m E(2) [of p] E(2) [of p'] party_cases [of p' p] by (cases p; cases p') auto
    ultimately show ?thesis using False by (auto simp: message_of_len)
  qed
  ultimately have "talking C B pq used st ?len E ep ?tag ?w"
    by (intro talkingI E talkingD(1,4) [OF t]) (use l(2) near(2) rd in auto)
  then show ?thesis by blast
qed

lemma talking_hear:
  assumes C: "ratchet_laws C" and t: "talking C B pq used st len E ep tag w"
    and k: "k < length (wd_sent w)" "k \<notin> wd_read w" "wd_sent w ! k = (p, m, text)"
    and draw: "x25519_public C (fst (fill_bytes 32 r)) \<notin> used" "good_draw C pq (rm_header m) r"
  shows "\<exists>s' st' E' ep'. decrypt_with_rng C m r (wd_session w (other p)) = (Ok text, s') \<and>
    talking C B pq (insert (x25519_public C (fst (fill_bytes 32 r))) used) st' len E' ep' tag
      (w\<lparr>wd_session := (wd_session w)(other p := s'), wd_read := insert k (wd_read w)\<rparr>)"
proof -
  let ?q = "other p" and ?n = "length (wd_sent w)" and ?used = "insert (x25519_public C (fst (fill_bytes 32 r))) used"
  note E = talkingD(5,6) [OF t] and l = talkingD(2,3) [OF t] and inj = talkingD(9) [OF t] and msgs = talkingD(11) [OF t]
  obtain i j where ij: "tag k = (i, j)" by (cases "tag k")
  have m: "message_of C B st len (i, j) text m" using msgs [OF k(1,3)] ij by simp
  have und: "k \<in> underway w ?q" using k by (simp add: underway_def)
  obtain n where h: "hears C st len E (ep ?q) n (tag ` underway w ?q) (wd_session w ?q)" using talkingD(8) [OF t] by blast
  have "(i, j) \<in> tag ` underway w ?q" using und ij by force
  moreover have "public C st x \<noteq> x25519_public C (fst (fill_bytes 32 r))" if "x \<le> E" for x
    using draw(1) talkingD(4) [OF t] that by (metis atMost_iff image_eqI subsetD)
  ultimately obtain s' r' st' E' e' n' where dec: "decrypt_advancing C m r (wd_session w ?q) = Ok (text, s', r')"
    and move: "E' = E \<and> e' = ep ?q \<and> st' = st \<or> E = Suc (ep ?q) \<and> E' = Suc E \<and> e' = Suc E \<and>
      (\<exists>new. st' = st(E' := new) \<and> ep_dh new = fst (fill_bytes 32 r))"
    and ok': "epochs_ok C pq st' E'" and s': "sends C B pq st' len e' s'"
      "hears C st' len E' e' n' (tag ` underway w ?q - {(i, j)}) s'"
    using receive [OF C talkingD(1) [OF t] l(1) l(2) [OF lessI] E(1) talkingD(7) [OF t] h _ m draw(2)] by blast
  let ?w = "w\<lparr>wd_session := (wd_session w)(?q := s'), wd_read := insert k (wd_read w)\<rparr>" and ?ep = "ep(?q := e')"
  have up: "underway ?w p = underway w p" using k(3) by (auto simp: underway_def)
  have "underway ?w ?q = underway w ?q - {k}" by (auto simp: underway_def)
  moreover have "tag ` (underway w ?q - {k}) = tag ` underway w ?q - {(i, j)}"
    using inj_on_image_set_diff [OF inj, of "underway w ?q" "{k}"] und by (auto simp: underway_def ij [symmetric])
  ultimately have uq: "tag ` underway ?w ?q = tag ` underway w ?q - {(i, j)}" by simp
  obtain n0 where hp: "hears C st len E (ep p) n0 (tag ` underway w p) (wd_session w p)" using talkingD(8) [OF t] by blast
  have epp: "E = ep p" if "E = Suc (ep ?q)" using that E(1) [of p] E(2) [of p] E(2) [of ?q] by (cases p) auto
  have p': "sends C B pq st' len (ep p) (wd_session w p) \<and> hears C st' len E' (ep p) n0 (tag ` underway w p) (wd_session w p)"
    using move hp talkingD(7) [OF t, of p] epp l(2) by (auto simp: sends_step hears_step)
  have pub: "public C st' ` {..E'} \<subseteq> ?used" using move talkingD(4) [OF t] by (auto simp: le_Suc_eq image_subset_iff)
  have par: "odd e' \<longleftrightarrow> ?q = Alice" using move E(2) [of ?q] by auto
  have ep'1: "E' = ?ep x \<or> E' = Suc (?ep x)" for x
    using E(1) [of x] move epp party_cases [of x p] by auto
  have ep'2: "odd (?ep x) \<longleftrightarrow> x = Alice" for x
    using E(2) [of x] par by (cases "x = ?q") simp_all
  have mono: "ep x \<le> ?ep x" for x using move by auto
  have msg': "message_of C B st' len (tag l) text' m' \<and> fst (tag l) \<le> ?ep p' \<and> (odd (fst (tag l)) \<longleftrightarrow> p' = Alice) \<and>
      snd (tag l) < len (fst (tag l))" if "l < ?n" "wd_sent w ! l = (p', m', text')" for l p' m' text'
  proof -
    have o: "message_of C B st len (tag l) text' m'" "fst (tag l) \<le> ep p'" "odd (fst (tag l)) \<longleftrightarrow> p' = Alice"
      "snd (tag l) < len (fst (tag l))" using msgs [OF that] by auto
    have "ep p' \<le> E" using E(1) [of p'] by auto
    then have "message_of C B st' len (tag l) text' m'" using o(1,2) move by (auto simp: message_of_step)
    with o mono [of p'] show ?thesis by (auto intro: order_trans)
  qed
  have hr: "\<exists>n. hears C st' len E' (?ep x) n (tag ` underway ?w x) (wd_session ?w x)" for x
  proof (cases "x = p")
    case True
    with p' up show ?thesis by auto
  next
    case False
    then have "x = ?q" using party_cases [of x p] by simp
    with s'(2) uq show ?thesis by auto
  qed
  have sd: "sends C B pq st' len (?ep x) (wd_session ?w x)" for x
    using p' s'(1) party_cases [of x p] by auto
  have "talking C B pq ?used st' len E' ?ep tag ?w"
  proof (rule talkingI [OF ok' l(1) _ pub ep'1 ep'2 sd hr])
    show "len x = 0" if "x > E'" for x using l(2) move that by auto
    show "wd_read ?w \<subseteq> {..<length (wd_sent ?w)}" using talkingD(10) [OF t] k(1) by simp
  qed (use inj msg' in simp_all)
  moreover have "decrypt_with_rng C m r (wd_session w ?q) = (Ok text, s')" using dec by (simp add: decrypt_with_rng_def)
  ultimately show ?thesis by (intro exI conjI)
qed

lemma in_touch_step:
  assumes "ratchet_laws C" "in_touch C used w" "fits C used w x"
  shows "in_touch C (used \<union> drawn C x) (talk_step C w x)"
proof (cases x)
  case (Say p body)
  show ?thesis
  proof (cases "encrypt C body (wd_session w p)")
    case (Ok ms)
    then show ?thesis
      using assms Say talking_say [of C _ _ used _ _ _ _ _ w p body "fst ms" "snd ms"]
      by (fastforce simp: in_touch_def split: prod.split)
  qed (use assms Say in \<open>simp_all add: in_touch_def\<close>)
next
  case (Hear k r)
  obtain p m body where pm: "wd_sent w ! k = (p, m, body)" by (cases "wd_sent w ! k")
  obtain B pq st len E ep tag where t: "talking C B pq used st len E ep tag w" using assms(2) by (auto simp: in_touch_def)
  have "ss_pq_ratchet (wd_session w Alice) = pq" using talkingD(7) [OF t] by (simp add: sends_def)
  then have "\<exists>s' st' E' ep'. decrypt_with_rng C m r (wd_session w (other p)) = (Ok body, s') \<and>
    talking C B pq (insert (x25519_public C (fst (fill_bytes 32 r))) used) st' len E' ep' tag
      (w\<lparr>wd_session := (wd_session w)(other p := s'), wd_read := insert k (wd_read w)\<rparr>)"
    using assms(3) Hear pm by (intro talking_hear [OF assms(1) t]) auto
  then obtain s' st' E' ep' where "decrypt_with_rng C m r (wd_session w (other p)) = (Ok body, s')"
    and t': "talking C B pq (insert (x25519_public C (fst (fill_bytes 32 r))) used) st' len E' ep' tag
      (w\<lparr>wd_session := (wd_session w)(other p := s'), wd_read := insert k (wd_read w)\<rparr>)" by blast
  then have "talk_step C w x = w\<lparr>wd_session := (wd_session w)(other p := s'), wd_read := insert k (wd_read w)\<rparr>"
    using assms(3) Hear pm by simp
  with t' show ?thesis unfolding in_touch_def Hear by (simp del: talk_step.simps) blast
qed

lemma in_touch_run:
  "ratchet_laws C \<Longrightarrow> in_touch C used w \<Longrightarrow> fair C used w xs \<Longrightarrow> \<exists>used'. in_touch C used' (run (talk_step C) w xs)"
  by (induction xs arbitrary: used w) (auto dest: in_touch_step)

section \<open>The handshake\<close>

text \<open>A bundle that offers the public halves of the responder's keys.\<close>

definition offers ::
  "crypto \<Rightarrow> identity \<Rightarrow> prekey_secret \<Rightarrow> prekey_secret list \<Rightarrow> pq_prekey_secret option \<Rightarrow> key_bundle \<Rightarrow> bool" where
  "offers C bob spk ots kem peer \<longleftrightarrow>
    kb_user_id peer = identity_user_id C bob \<and> kb_dh_public peer = identity_dh_public C bob \<and>
    (case kb_prekeys peer of
       None \<Rightarrow> False
     | Some p \<Rightarrow>
         spk_id (pk_signed p) = pks_id spk \<and> spk_public (pk_signed p) = pks_public C spk \<and>
         pk_one_time p = map (pks_one_time C) ots \<and>
         map_option pqk_id (pq_key p) = map_option pqs_id kem \<and>
         map_option pqk_public (pq_key p) = map_option (pqs_public C) kem)"

lemma initiate_parts:
  assumes "initiate_with_rng C me peer r0 = Ok (s, h)"
  obtains p r1 kem secret where "kb_prekeys peer = Some p"
    and "fst (initiate_kem C p r1) = Ok kem"
    and "x3dh_secret C (x25519_dh C (dh_current me) (spk_public (pk_signed p)))
        (x25519_dh C (fst (fill_bytes 32 r0)) (kb_dh_public peer))
        (x25519_dh C (fst (fill_bytes 32 r0)) (spk_public (pk_signed p)))
        (map_option (\<lambda>o1. x25519_dh C (fst (fill_bytes 32 r0)) (otk_public o1)) (first (pk_one_time p)))
        (map_option (\<lambda>(_, _, secret). secret) kem) = Ok secret"
    and "was_contributory C (x25519_dh C (ss_dh_self s) (spk_public (pk_signed p)))"
    and "ss_pq_ratchet s = (kem \<noteq> None \<and> supports_pq_ratchet peer)"
    and "kdf_root C secret (x25519_dh C (ss_dh_self s) (spk_public (pk_signed p))) None (ss_pq_ratchet s) =
      (ss_root_key s, the (ss_chain_send s))" "ss_chain_send s \<noteq> None"
    and "ss_id s = session_id C (x25519_public C (fst (fill_bytes 32 r0))) (spk_public (pk_signed p))"
    and "ss_ad s = x3dh_ad (identity_user_id C me) (identity_dh_public C me) (kb_user_id peer) (kb_dh_public peer)"
    and "ss_dh_self_public s = x25519_public C (ss_dh_self s)" "ss_dh_remote s = Some (spk_public (pk_signed p))"
    and "ss_chain_recv s = None" "ss_n_send s = 0" "ss_n_recv s = 0" "ss_pn s = 0" "ss_skipped s = []"
    and "ss_kem_self_public s = map_option (mlkem_public C) (ss_kem_self s)" "ss_kem_ct_send s = None"
    and "\<not> ss_pq_ratchet s \<Longrightarrow> ss_kem_self s = None"
    and "h = \<lparr>ih_identity_dh = identity_dh_public C me, ih_ephemeral = x25519_public C (fst (fill_bytes 32 r0)),
        ih_signed_prekey_id = spk_id (pk_signed p), ih_one_time_prekey_id = map_option otk_id (first (pk_one_time p)),
        ih_pq_prekey_id = map_option (\<lambda>(i, _, _). i) kem, ih_kem_ciphertext = map_option (\<lambda>(_, ct, _). ct) kem,
        ih_identity_dh_signature = (if ss_pq_ratchet s
          then Some (identity_sign C me BUNDLE_DOMAIN (identity_dh_public C me)) else None)\<rparr>"
proof -
  let ?eph = "fst (fill_bytes 32 r0)" and ?r1 = "snd (fill_bytes 32 r0)"
  obtain p kem secret where p: "kb_prekeys peer = Some p" and kem: "fst (initiate_kem C p ?r1) = Ok kem"
    and secret: "x3dh_secret C (x25519_dh C (dh_current me) (spk_public (pk_signed p))) (x25519_dh C ?eph (kb_dh_public peer))
        (x25519_dh C ?eph (spk_public (pk_signed p)))
        (map_option (\<lambda>o1. x25519_dh C ?eph (otk_public o1)) (first (pk_one_time p)))
        (map_option (\<lambda>(_, _, secret). secret) kem) = Ok secret"
    and fs: "first_step C me peer p (first (pk_one_time p)) (x25519_public C ?eph) kem secret (snd (initiate_kem C p ?r1)) = Ok (s, h)"
    using assms by (simp add: initiate_with_rng_def Let_def case_prod_beta) blast
  show thesis
    by (rule that [OF p kem secret])
      (use fs in \<open>auto simp: first_step_def Let_def case_prod_beta split: if_splits\<close>)
qed

lemma first_map: "first (map f xs) = map_option f (first xs)"
  by (cases xs) (simp_all add: first_def)

text \<open>The responder recovers the initiator's ML-KEM secret.\<close>

lemma kem_agrees:
  assumes C: "kem_inverts C" and k: "fst (initiate_kem C p r) = Ok kem"
    and q: "map_option pqk_id (pq_key p) = map_option pqs_id own" "map_option pqk_public (pq_key p) = map_option (pqs_public C) own"
    and h: "ih_kem_ciphertext h = map_option (\<lambda>(_, ct, _). ct) kem" "ih_pq_prekey_id h = map_option (\<lambda>(i, _, _). i) kem"
  shows "respond_kem C h own = Ok (map_option (\<lambda>(_, _, secret). secret) kem)"
proof (cases "pq_key p")
  case None
  then show ?thesis using assms by (auto simp: initiate_kem_def respond_kem_def)
next
  case (Some key)
  then obtain o1 where o1: "own = Some o1" "pqk_id key = pqs_id o1" "pqk_public key = mlkem_public C (pqs_seed o1)"
    using q by (cases own) (auto simp: pqs_public_def)
  obtain ct ss where e: "kem_encapsulate C (mlkem_public C (pqs_seed o1)) (fst (fill_bytes 32 r)) = Ok (ct, ss)"
    and kem: "kem = Some (pqs_id o1, ct, ss)"
    using k Some o1 by (auto simp: initiate_kem_def encapsulate_with_rng_def case_prod_beta Let_def)
  have "mlkem_decapsulate C (pqs_seed o1) ct = Some ss"
    using e kem_invertsD [OF C] by (auto simp: kem_encapsulate_def ok_or_def split: if_splits option.splits)
  with h kem o1 show ?thesis by (simp add: respond_kem_def kem_decapsulate_def)
qed

text \<open>The common state after the handshake: the responder at epoch 0, the initiator at epoch 1.\<close>

lemma handshake:
  assumes C: "dh_commutes C" "kem_inverts C" "signature_laws C"
    and o: "offers C bob spk ots kem peer" and i: "initiate_with_rng C alice peer r = Ok (sa, init)"
  shows "\<exists>sb. respond C bob (identity_user_id C alice) spk (first ots) kem init (ss_pq_ratchet sa) = Ok sb \<and>
    ss_id sb = ss_id sa \<and> ss_ad sb = ss_ad sa \<and> ss_pq_ratchet sb = ss_pq_ratchet sa \<and>
    ss_dh_self sb = pks_secret spk \<and> ss_dh_self_public sb = x25519_public C (pks_secret spk) \<and>
    was_contributory C (x25519_dh C (ss_dh_self sa) (ss_dh_self_public sb)) \<and>
    kdf_root C (ss_root_key sb) (x25519_dh C (ss_dh_self sa) (ss_dh_self_public sb)) None (ss_pq_ratchet sa) =
      (ss_root_key sa, the (ss_chain_send sa)) \<and>
    ss_dh_remote sb = None \<and> ss_chain_send sb = None \<and> ss_chain_recv sb = None \<and> ss_n_send sb = 0 \<and> ss_n_recv sb = 0 \<and>
    ss_pn sb = 0 \<and> ss_skipped sb = [] \<and> ss_kem_self sb = None \<and> ss_kem_self_public sb = None \<and> ss_kem_ct_send sb = None"
  using i
proof (rule initiate_parts)
  fix p r1 kem' secret
  assume parts: "kb_prekeys peer = Some p" "fst (initiate_kem C p r1) = Ok kem'"
    and sec: "x3dh_secret C (x25519_dh C (dh_current alice) (spk_public (pk_signed p)))
        (x25519_dh C (fst (fill_bytes 32 r)) (kb_dh_public peer))
        (x25519_dh C (fst (fill_bytes 32 r)) (spk_public (pk_signed p)))
        (map_option (\<lambda>o1. x25519_dh C (fst (fill_bytes 32 r)) (otk_public o1)) (first (pk_one_time p)))
        (map_option (\<lambda>(_, _, secret). secret) kem') = Ok secret"
    and con: "was_contributory C (x25519_dh C (ss_dh_self sa) (spk_public (pk_signed p)))"
    and pq: "ss_pq_ratchet sa = (kem' \<noteq> None \<and> supports_pq_ratchet peer)"
    and root: "kdf_root C secret (x25519_dh C (ss_dh_self sa) (spk_public (pk_signed p))) None (ss_pq_ratchet sa) =
      (ss_root_key sa, the (ss_chain_send sa))"
    and sid: "ss_id sa = session_id C (x25519_public C (fst (fill_bytes 32 r))) (spk_public (pk_signed p))"
    and ad: "ss_ad sa = x3dh_ad (identity_user_id C alice) (identity_dh_public C alice) (kb_user_id peer) (kb_dh_public peer)"
    and h: "init = \<lparr>ih_identity_dh = identity_dh_public C alice, ih_ephemeral = x25519_public C (fst (fill_bytes 32 r)),
        ih_signed_prekey_id = spk_id (pk_signed p), ih_one_time_prekey_id = map_option otk_id (first (pk_one_time p)),
        ih_pq_prekey_id = map_option (\<lambda>(i, _, _). i) kem', ih_kem_ciphertext = map_option (\<lambda>(_, ct, _). ct) kem',
        ih_identity_dh_signature = (if ss_pq_ratchet sa
          then Some (identity_sign C alice BUNDLE_DOMAIN (identity_dh_public C alice)) else None)\<rparr>"
  let ?eph = "fst (fill_bytes 32 r)"
  have o': "kb_user_id peer = identity_user_id C bob" "kb_dh_public peer = x25519_public C (dh_current bob)"
    "spk_id (pk_signed p) = pks_id spk" "spk_public (pk_signed p) = x25519_public C (pks_secret spk)"
    "pk_one_time p = map (pks_one_time C) ots"
    "map_option pqk_id (pq_key p) = map_option pqs_id kem" "map_option pqk_public (pq_key p) = map_option (pqs_public C) kem"
    using o parts(1) by (simp_all add: offers_def identity_dh_public_def pks_public_def)
  have rk: "respond_kem C init kem = Ok (map_option (\<lambda>(_, _, secret). secret) kem')"
    by (rule kem_agrees [OF C(2) parts(2) o'(6,7)]) (simp_all add: h)
  have bind: "(if ss_pq_ratchet sa then check_binding C (identity_user_id C alice) init else Ok ()) = Ok ()"
    using C(3) by (simp add: check_binding_def h)
  have "map_option (\<lambda>o1. x25519_dh C ?eph (otk_public o1)) (first (pk_one_time p)) =
      map_option (\<lambda>o1. x25519_dh C (pks_secret o1) (x25519_public C ?eph)) (first ots)"
    using dh_commutesD [OF C(1)]
    by (simp add: o'(5) first_map option.map_comp comp_def pks_one_time_def pks_public_def)
  then have x3: "x3dh_secret C (x25519_dh C (pks_secret spk) (x25519_public C (dh_current alice)))
      (x25519_dh C (dh_current bob) (x25519_public C ?eph)) (x25519_dh C (pks_secret spk) (x25519_public C ?eph))
      (map_option (\<lambda>o1. x25519_dh C (pks_secret o1) (x25519_public C ?eph)) (first ots))
      (map_option (\<lambda>(_, _, secret). secret) kem') = Ok secret"
    using sec dh_commutesD [OF C(1)] by (simp add: o'(2,4))
  have hf: "ih_identity_dh init = x25519_public C (dh_current alice)" "ih_ephemeral init = x25519_public C ?eph"
    "ih_signed_prekey_id init = pks_id spk" "(ih_one_time_prekey_id init = None) = (first ots = None)"
    "ss_pq_ratchet sa \<Longrightarrow> ih_kem_ciphertext init \<noteq> None"
    using pq by (auto simp: h o'(3,5) first_map identity_dh_public_def)
  show ?thesis
    unfolding respond_def respond_with_def
    using rk bind x3 con root sid ad o' hf
    by (auto simp: dh_pair_def identity_dh_public_def pks_public_def Let_def)
qed

definition fresh_world :: "session \<Rightarrow> session \<Rightarrow> world" where
  "fresh_world sa sb = \<lparr>wd_session = (\<lambda>p. case p of Alice \<Rightarrow> sa | Bob \<Rightarrow> sb), wd_sent = [], wd_read = {}\<rparr>"

lemma handshake_in_touch:
  assumes C: "dh_commutes C" "kem_inverts C" "signature_laws C"
    and o: "offers C bob spk ots kem peer" and i: "initiate_with_rng C alice peer r = Ok (sa, init)"
    and b: "respond C bob (identity_user_id C alice) spk (first ots) kem init (ss_pq_ratchet sa) = Ok sb"
    and neq: "ss_dh_self_public sa \<noteq> pks_public C spk"
  shows "in_touch C {ss_dh_self_public sa, pks_public C spk} (fresh_world sa sb)"
  using i
proof (rule initiate_parts)
  fix p r1 kem' secret
  assume pb: "kb_prekeys peer = Some p"
    and a: "ss_chain_send sa \<noteq> None" "ss_dh_self_public sa = x25519_public C (ss_dh_self sa)"
      "ss_dh_remote sa = Some (spk_public (pk_signed p))" "ss_chain_recv sa = None" "ss_n_send sa = 0" "ss_n_recv sa = 0"
      "ss_pn sa = 0" "ss_skipped sa = []" "ss_kem_self_public sa = map_option (mlkem_public C) (ss_kem_self sa)"
      "ss_kem_ct_send sa = None" "\<not> ss_pq_ratchet sa \<Longrightarrow> ss_kem_self sa = None"
  note h = handshake [OF C o i] 
  have sp: "spk_public (pk_signed p) = x25519_public C (pks_secret spk)" using o pb by (simp add: offers_def pks_public_def)
  let ?e0 = "\<lparr>ep_dh = ss_dh_self sb, ep_kem = None, ep_ct = None, ep_root = ss_root_key sb, ep_chain = []\<rparr>"
  let ?e1 = "\<lparr>ep_dh = ss_dh_self sa, ep_kem = ss_kem_self sa, ep_ct = None, ep_root = ss_root_key sa, ep_chain = the (ss_chain_send sa)\<rparr>"
  let ?st = "\<lambda>i::nat. if i = 0 then ?e0 else ?e1" and ?len = "\<lambda>_::nat. 0::nat" and ?ep = "\<lambda>p. if p = Alice then 1 else 0 :: nat"
  let ?B = "ss_ad sa @ ss_id sa" and ?pq = "ss_pq_ratchet sa"
  have "linked C ?pq ?e0 ?e1" using h b by (auto simp: linked_def shares_def Let_def)
  moreover have "inj_on (public C ?st) {..1}" using neq a(2) h b by (auto simp: inj_on_def atMost_Suc pks_public_def)
  ultimately have ok: "epochs_ok C ?pq ?st 1" using a(11) by (simp add: epochs_ok_def)
  have no: "underway (fresh_world sa sb) q = {}" for q by (simp add: underway_def fresh_world_def)
  have "talking C ?B ?pq {ss_dh_self_public sa, pks_public C spk} ?st ?len 1 ?ep (\<lambda>k. (k, 0)) (fresh_world sa sb)"
  proof (rule talkingI [OF ok])
    show "sends C ?B ?pq ?st ?len (?ep q) (wd_session (fresh_world sa sb) q)" for q
      using a h b by (cases q) (auto simp: sends_def fresh_world_def before_def)
    show "\<exists>n. hears C ?st ?len 1 (?ep q) n ((\<lambda>k. (k, 0)) ` underway (fresh_world sa sb) q) (wd_session (fresh_world sa sb) q)" for q
      using a h b sp unfolding no by (intro exI [of _ 0], cases q) (auto simp: hears_def fresh_world_def peer_len_def sent_to_def)
  qed (use a(2) h b in \<open>auto simp: lens_ok_def fresh_world_def pks_public_def split: if_splits\<close>)
  then show ?thesis unfolding in_touch_def by blast
qed

lemma fair_last:
  "ratchet_laws C \<Longrightarrow> in_touch C used w \<Longrightarrow> fair C used w (xs @ [x]) \<Longrightarrow>
    \<exists>used'. in_touch C used' (run (talk_step C) w xs) \<and> fits C used' (run (talk_step C) w xs) x"
  by (induction xs arbitrary: used w) (auto dest: in_touch_step)

lemma hear_reads:
  assumes "ratchet_laws C" "in_touch C used w" "fits C used w (Hear k r)" "wd_sent w ! k = (p, m, body)"
  shows "fst (decrypt_with_rng C m r (wd_session w (other p))) = Ok body"
proof -
  obtain B pq st len E ep tag where t: "talking C B pq used st len E ep tag w" using assms(2) by (auto simp: in_touch_def)
  have pq: "ss_pq_ratchet (wd_session w Alice) = pq" using talkingD(7) [OF t] by (simp add: sends_def)
  have "\<exists>s' st' E' ep'. decrypt_with_rng C m r (wd_session w (other p)) = (Ok body, s') \<and>
    talking C B pq (insert (x25519_public C (fst (fill_bytes 32 r))) used) st' len E' ep' tag
      (w\<lparr>wd_session := (wd_session w)(other p := s'), wd_read := insert k (wd_read w)\<rparr>)"
    by (rule talking_hear [OF assms(1) t]) (use assms(3,4) pq in auto)
  then show ?thesis by auto
qed

section \<open>Properties\<close>

text \<open>
  C1. Every message is readable. When the initiator starts a session from a bundle that offers
  the responder's keys, the responder derives a session from the header it is sent; and from
  then on, however the two write, and in whatever order messages arrive, through any number of
  ratchet steps, a message delivered to its session decrypts to the text that was sent. The
  deliveries are those in which no message arrives twice, at most a thousand messages are under
  way to one side at any time, and the fresh keys drawn are neither weak nor repeated.
\<close>

theorem conversation_readable:
  assumes "ratchet_laws C" "signature_laws C" "offers C bob spk ots kem peer"
    and "initiate_with_rng C alice peer r0 = Ok (sa, init)" "ss_dh_self_public sa \<noteq> pks_public C spk"
  shows "\<exists>sb. respond C bob (identity_user_id C alice) spk (first ots) kem init (ss_pq_ratchet sa) = Ok sb \<and>
    (\<forall>xs k r p m body. let w = run (talk_step C) (fresh_world sa sb) xs in
      fair C {ss_dh_self_public sa, pks_public C spk} (fresh_world sa sb) (xs @ [Hear k r]) \<longrightarrow>
      wd_sent w ! k = (p, m, body) \<longrightarrow> fst (decrypt_with_rng C m r (wd_session w (other p))) = Ok body)"
proof -
  have C: "dh_commutes C" "kem_inverts C" using assms(1) by (simp_all add: ratchet_laws_def)
  obtain sb where sb: "respond C bob (identity_user_id C alice) spk (first ots) kem init (ss_pq_ratchet sa) = Ok sb"
    using handshake [OF C assms(2-4)] by blast
  have "in_touch C {ss_dh_self_public sa, pks_public C spk} (fresh_world sa sb)"
    by (rule handshake_in_touch [OF C assms(2-4) sb assms(5)])
  then show ?thesis
    using sb fair_last [OF assms(1)] hear_reads [OF assms(1)] unfolding Let_def by metis
qed

definition demo_spk :: prekey_secret where
  "demo_spk = \<lparr>pks_id = 1, pks_secret = replicate 32 7, pks_created_at_ms = 0\<rparr>"

definition demo_offer :: key_bundle where
  "demo_offer = key_bundle_with demo_crypto (demo_identity 2) (classical (pks_signed_by demo_crypto demo_spk (demo_identity 2)) [])"

lemma fill_sconst [simp]: "fill_bytes n (sconst x) = (replicate n x, sconst x)"
  by (auto simp: fill_bytes_def id_funpow intro!: nth_equalityI)

lemma demo_offers: "offers demo_crypto (demo_identity 2) demo_spk [] None demo_offer"
  by (simp add: offers_def demo_offer_def key_bundle_with_def identity_key_bundle_def classical_def pks_signed_by_def pq_key_def Let_def)

lemma demo_dh:
  "was_contributory demo_crypto (x25519_dh demo_crypto [1] (replicate 32 7))"
  "was_contributory demo_crypto (x25519_dh demo_crypto (replicate 32 5) (x25519_public demo_crypto [2]))"
  "was_contributory demo_crypto (x25519_dh demo_crypto (replicate 32 5) (replicate 32 7))"
  "was_contributory demo_crypto (x25519_dh demo_crypto (replicate 32 9) (replicate 32 5))"
  "x25519_public demo_crypto (replicate 32 7) = replicate 32 7"
  "x25519_public demo_crypto (replicate 32 5) = replicate 32 5" "x25519_public demo_crypto (replicate 32 9) = replicate 32 9"
  by code_simp+

lemma demo_initiated:
  obtains sa init where "initiate_with_rng demo_crypto (demo_identity 1) demo_offer (sconst 5) = Ok (sa, init)"
    and "ss_dh_self_public sa = replicate 32 5" "\<not> ss_pq_ratchet sa" "ss_chain_send sa \<noteq> None" "ss_n_send sa = 0"
proof -
  have "prekeys_verify demo_crypto (classical (pks_signed_by demo_crypto demo_spk (demo_identity 2)) [])
      (identity_user_id demo_crypto (demo_identity 2)) = Ok ()"
    by (simp add: prekeys_verify_def classical_def option_list_def)
  then show thesis
    using that demo_dh
    by (simp add: initiate_with_rng_def demo_offer_def key_bundle_with_def identity_key_bundle_def Let_def
        initiate_kem_def classical_def pq_key_def first_def x3dh_secret_def first_step_def case_prod_beta
        option_list_def pks_signed_by_def pks_public_def demo_spk_def demo_identity_def identity_dh_public_def)
qed

theorem conversation_readable_witness:
  "\<exists>sa init sb m s. initiate_with_rng demo_crypto (demo_identity 1) demo_offer (sconst 5) = Ok (sa, init) \<and>
    respond demo_crypto (demo_identity 2) (identity_user_id demo_crypto (demo_identity 1)) demo_spk None None init False = Ok sb \<and>
    encrypt demo_crypto [1, 2] sa = Ok (m, s) \<and> fst (decrypt_with_rng demo_crypto m (sconst 9) sb) = Ok [1, 2]"
proof -
  obtain sa init where i: "initiate_with_rng demo_crypto (demo_identity 1) demo_offer (sconst 5) = Ok (sa, init)"
    and sa: "ss_dh_self_public sa = replicate 32 5" "\<not> ss_pq_ratchet sa" "ss_chain_send sa \<noteq> None" "ss_n_send sa = 0"
    by (rule demo_initiated)
  have laws: "ratchet_laws demo_crypto" by (simp add: ratchet_laws_def)
  have keys: "pks_public demo_crypto demo_spk = replicate 32 7" using demo_dh by (simp add: pks_public_def demo_spk_def)
  then have "ss_dh_self_public sa \<noteq> pks_public demo_crypto demo_spk" using sa by simp
  from conversation_readable [OF laws signature_laws_demo demo_offers i this] obtain sb where
    sb: "respond demo_crypto (demo_identity 2) (identity_user_id demo_crypto (demo_identity 1)) demo_spk None None init False = Ok sb"
    and reads: "\<And>xs k r p m body. fair demo_crypto {ss_dh_self_public sa, pks_public demo_crypto demo_spk} (fresh_world sa sb) (xs @ [Hear k r]) \<Longrightarrow>
      wd_sent (run (talk_step demo_crypto) (fresh_world sa sb) xs) ! k = (p, m, body) \<Longrightarrow>
      fst (decrypt_with_rng demo_crypto m r (wd_session (run (talk_step demo_crypto) (fresh_world sa sb) xs) (other p))) = Ok body"
    using sa(2) unfolding Let_def by (auto simp: first_def)
  obtain m s where e: "encrypt demo_crypto [1, 2] sa = Ok (m, s)" and hd: "rh_dh (rm_header m) = replicate 32 5"
    using sa by (auto simp: encrypt_def aead_encrypt_def Let_def case_prod_beta demo_crypto_def)
  have w: "talk_step demo_crypto (fresh_world sa sb) (Say Alice [1, 2]) =
      (fresh_world sa sb)\<lparr>wd_session := (wd_session (fresh_world sa sb))(Alice := s), wd_sent := [(Alice, m, [1, 2])]\<rparr>"
    using e by (simp add: fresh_world_def)
  have pq: "ss_pq_ratchet s = False" using e sa(2) by (auto simp: encrypt_def case_prod_beta Let_def split: if_splits)
  have "fair demo_crypto {ss_dh_self_public sa, pks_public demo_crypto demo_spk} (fresh_world sa sb) ([Say Alice [1, 2]] @ [Hear 0 (sconst 9)])"
    using pq hd sa(1) keys demo_dh(4,7)
    by (simp add: w del: talk_step.simps) (simp add: fresh_world_def underway_def good_draw_def)
  from reads [OF this, of Alice m "[1, 2]"] have "fst (decrypt_with_rng demo_crypto m (sconst 9) sb) = Ok [1, 2]"
    by (simp add: w del: talk_step.simps) (simp add: fresh_world_def)
  with i sb e show ?thesis by blast
qed

end
