(* ===== verification/Spec2Isabelle.thy ===== *)
theory Spec2Isabelle
  imports Identity Bundles RelayMailbox RelayDeposit RelaySequencer RelayBlobs RelayLog LogStore Sequence Tail
    RelayState KeyLookup RatchetConversation
begin

text \<open>
  A verification development for Silver Messenger, a messenger whose clients exchange
  end-to-end encrypted envelopes through a relay they need not trust.

  \<^bold>\<open>The program.\<close> The workspace has five crates. \<^verbatim>\<open>silver-protocol\<close> defines identities, prekeys,
  key bundles, devices, sessions, envelopes and the transparency log's formats, and all
  cryptography. \<^verbatim>\<open>silver-relay\<close> stores what clients publish, queues envelopes per recipient,
  hands out one-time keys, orders the commits of groups, keeps encrypted files, and appends
  everything it serves about identities to a hash-chained log. \<^verbatim>\<open>silver-client\<close> keeps the other
  end: it follows the relay's log, checks every answer against it, keeps sessions and numbers
  messages. \<^verbatim>\<open>silver-tui\<close> is the terminal interface and \<^verbatim>\<open>silver-key\<close> speaks to security keys;
  neither is modelled. A lookup shows how the parts work together: the relay answers with a
  bundle and the head of its log (\<^verbatim>\<open>lib.rs\<close>), the client's connection pages the log up to that
  head (\<^verbatim>\<open>tail.rs\<close>), its log store replays the pages and compares (\<^verbatim>\<open>transparency.rs\<close>), and only
  then does a session start from the bundle's prekeys (\<^verbatim>\<open>session.rs\<close>).

  \<^bold>\<open>Conventions.\<close> Rust's \<open>Result\<close> is \<open>res\<close> with a third outcome \<open>Panic\<close>: the release profile keeps
  overflow checks, so \<open>+\<close> and \<open>-\<close> on machine integers that overflow panic. Integers are words of
  their width, or natural numbers where the code only compares them, stores them or adds to
  them with the bound tested (the store's counters and sequence numbers, the epochs of groups,
  the sizes and times kept with packages, groups and blobs); saturating and wrapping
  operations are written out. Byte strings and arrays are
  lists of \<open>u8\<close>; a \<open>String\<close> is its list of scalar values (\<open>Utf8\<close>). A record models a struct, a
  datatype an enum. An operation on \<open>&mut self\<close> takes the state and returns it changed. A redb
  table is a red-black tree (\<open>tget\<close>, \<open>tput\<close>, \<open>tdel\<close>), iterated in key order as redb does. An
  operation of the store is one transaction and one step; \<open>expire_blobs\<close>, which lists in one
  transaction and drops in another, is two. A handler of the relay is one step as well,
  although \<open>publish\<close>, \<open>route\<close> and the \<open>apply_\<close> handlers read for their checks in transactions
  before the one that writes: what another connection commits in that gap is not modelled.
  Where the order matters to what is shown it is modelled: a login is checked in one step and
  registered in another, and a lookup takes the other connections' doings between any two of
  its transactions as an argument. Random generators are streams of bytes, and times of day are
  arguments. A component's history is \<open>run\<close> of its step function over a list of operations;
  what holds of all histories comes from one of the locales of \<open>Prelude\<close> (\<open>run_invariant\<close>,
  \<open>guarded_invariant\<close>, \<open>run_related\<close>, \<open>run_monotone\<close>, \<open>refinement\<close>, \<open>simulation\<close>, \<open>one_time\<close>,
  \<open>codec\<close>), interpreted on the component's own step function.

  Libraries are parameters. The cryptographic ones are a record \<open>crypto\<close> of functions, and
  what the code relies on of them is a named predicate on that record (\<open>dh_commutes\<close>,
  \<open>signatures_verify\<close>, \<open>aead_inverts\<close>, \<open>kem_inverts\<close>, lengths); no hash is assumed injective, and
  where collision resistance matters the theorem ends in an explicit collision among the byte
  strings at hand. serde\_json is a reader and a writer with \<open>json_reads_back\<close>. \<open>demo_crypto\<close> and
  the \<open>demo_\<close> readers satisfy all of these laws, and the witnesses evaluate on them.

  \<^bold>\<open>The theories.\<close>

  \<^item> \<open>Prelude\<close>: results, checked arithmetic, big-endian fields, tables, histories and their
    locales. \<open>Crypto\<close>: the library functions and their laws. \<open>Utf8\<close>: strings, with the strict
    decoder and its round trip. \<open>Layouts\<close>: self-delimiting byte layouts, from which the
    unambiguity of signed and hashed encodings follows.
  \<^item> \<open>Identity\<close> (\<^verbatim>\<open>identity.rs\<close>, \<^verbatim>\<open>verify.rs\<close>, \<^verbatim>\<open>error.rs\<close>): user ids and their canonicity check,
    signing, rotation of the Diffie-Hellman key with its grace period, safety numbers.
  \<^item> \<open>Bundles\<close> (\<^verbatim>\<open>prekey.rs\<close>, \<^verbatim>\<open>pq.rs\<close>, \<^verbatim>\<open>lifecycle.rs\<close>, \<^verbatim>\<open>device.rs\<close>, \<^verbatim>\<open>bundle.rs\<close>): everything an
    identity signs and publishes, its verification, the certificate encoding and the
    provisioning message. Shown: what an owner builds verifies, a signature covers one
    content only, encodings read back.
  \<^item> \<open>Transparency\<close> (\<^verbatim>\<open>silver-protocol/src/transparency.rs\<close>): entries, leaves, subjects and
    \<open>replay\<close>. Shown: a head commits to every entry before it, and a leaf to exactly what it
    covers, up to a collision; what replay returns on every branch.
  \<^item> \<open>RelayLog\<close> (\<^verbatim>\<open>store.rs\<close>): bundles and lifecycle statements with the log that records them,
    and the seeding of an older database. Shown: the log is an append-only hash chain, and
    what is served is what was logged last.
  \<^item> \<open>LogStore\<close> (\<^verbatim>\<open>silver-client/src/transparency.rs\<close>): the client's replayed log, its
    checkpoints and its checks. Shown: it refines a specification over the accepted entries;
    two clients at one head accepted the same answers; exactly which positions can be checked
    and what each verdict on a contact's head means.
  \<^item> \<open>Tail\<close> (\<^verbatim>\<open>tail.rs\<close>): the state machine that follows the log within a connection, holding
    answers back until they are checked. Shown: every caller is answered once, and what it is
    handed was checked against the log up to the answer's head.
  \<^item> \<open>RelayMailbox\<close>, \<open>RelayDeposit\<close>, \<open>RelaySequencer\<close>, \<open>RelayBlobs\<close> (\<^verbatim>\<open>store.rs\<close>; \<open>EnvelopeTypes\<close>
    for the envelope of \<^verbatim>\<open>envelope.rs\<close>): mailboxes with their limits and counters, one-time
    prekeys and key packages, the group sequencer, file storage. Shown: the mailboxes refine
    per-user queues; counters are exact and limits hold, the blobs' total up to what a sweep
    misses; a one-time key is handed out once while its owner's data stays; one commit per
    epoch and only by the token while the group's entry stands; a blob is complete exactly
    when all its chunks are there.
  \<^item> \<open>RelayState\<close> (\<^verbatim>\<open>silver-relay/src/lib.rs\<close>, \<^verbatim>\<open>store.rs\<close>): the handlers for publication,
    revocation, succession, devices, login, lookups and mail, over the stores above. Shown:
    who was revoked stays out, up to a login already past its check; only the own account
    cuts a device off; and two histories in which the code falls short of its comments.
  \<^item> \<open>Ratchet\<close> (\<^verbatim>\<open>session.rs\<close>): the handshake with its ML-KEM half and the Double Ratchet,
    classical and post-quantum. \<open>RatchetConversation\<close> plays two sessions against each other.
    Shown: nothing that arrives harms a session; and from the handshake on, every message
    decrypts, in any order of arrival and through any number of ratchet steps.
  \<^item> \<open>Sequence\<close> (\<^verbatim>\<open>sequence.rs\<close>): the replay window. Shown: a number is accepted once under
    conditions that are stated, and the three ways in which it is not.
  \<^item> \<open>KeyLookup\<close> (with \<^verbatim>\<open>connection.rs\<close>): the relay's handlers and the client's tail exchanging
    answers and pages. This theory holds what spans both: an honest relay's answer reaches
    the caller when no key changes during the lookup, and a device whose revocation was undone
    stays unreachable.

  \<^bold>\<open>Bounds.\<close> All operations are total. Loops of the code are structural recursion or carry a
  termination proof (\<open>skip_loop\<close> by the distance to its limit, \<open>utf8_decode\<close> by the bytes left).
  Only \<open>exchange\<close> takes fuel, the number of pages served; one page per entry of the log plus one
  is shown to be enough. A conversation is shown readable while at most a thousand messages are
  under way to one side and each side has sent fewer than \<open>2 ^ 32\<close> in one chain: beyond that the
  code itself refuses to skip (\<open>MAX_SKIP\<close>) or panics. Histories are of any length.

  \<^bold>\<open>Not modelled.\<close>

  \<^item> The user interface (\<^verbatim>\<open>silver-tui\<close>), which draws and reads a terminal, and \<^verbatim>\<open>silver-key\<close>,
    which exchanges bytes with USB and Windows devices.
  \<^item> Sockets, TLS, proxies, ACME, metrics, timers and tasks: \<^verbatim>\<open>tls.rs\<close>, \<^verbatim>\<open>proxy.rs\<close>, \<^verbatim>\<open>acme.rs\<close>,
    \<^verbatim>\<open>metrics.rs\<close>, the relay's \<^verbatim>\<open>main.rs\<close>, the connection loops of \<^verbatim>\<open>lib.rs\<close> and \<^verbatim>\<open>connection.rs\<close>
    apart from the arms named above. They are concurrent input and output around the state
    modelled here.
  \<^item> Files on disk: the client's \<^verbatim>\<open>store.rs\<close>, \<^verbatim>\<open>vault.rs\<close>, \<^verbatim>\<open>files.rs\<close>, \<^verbatim>\<open>backup.rs\<close>, \<^verbatim>\<open>export.rs\<close>,
    \<^verbatim>\<open>rollback.rs\<close>, \<^verbatim>\<open>keystore\<close>, \<^verbatim>\<open>update\<close>, and the relay's \<^verbatim>\<open>backup.rs\<close> and \<^verbatim>\<open>admin.rs\<close>.
  \<^item> Groups above the sequencer: \<^verbatim>\<open>groups/mod.rs\<close> drives OpenMLS, whose state is not in this
    repository.
  \<^item> The JSON, base58 and base64 text forms, which are libraries' work.
\<close>

section \<open>Properties across relay and client\<close>

text \<open>
  C4. An honest relay's answer reaches the caller, when nothing about keys changes during the
  lookup. After any history of the relay over the identities \<open>U\<close>, with distinct hashed subjects,
  in which only identities in \<open>D\<close> were revoked as devices, take one outside \<open>D\<close> for which the
  relay holds no device revocation, issued by it or against it, and whose listed devices are in
  \<open>U\<close>, not in \<open>D\<close> and not revoked; and the relay's answer to a lookup of it, between whose
  transactions other connections may do anything that leaves the key database alone (send mail,
  take one-time keys, log in). A client that follows the relay's log, idle and at any prefix of
  it, is fed the answer and served the pages it asks for from that same log: after at most one page per entry
  nothing is waiting, no alarm was raised, and every caller was handed exactly what was served,
  whose bundle has the leaf of the published one.
\<close>

theorem honest_lookup_answered:
  assumes "sha256_length C" "inj_on (subject C) U" "list_all (relay_allowed U D) xs" "u \<in> U - D"
    and "r = run (relay_step C K po) fresh_relay xs" "es = log_list (rs_db r)"
    and "devices_stand U D u (rs_db r)" "device_revocations u (rs_db r) (rs_db r) = []"
    and "db_quiet env" "on_lookup env C K vd True prekeys devices u r = (Ok res, r')"
    and "tl_log t = Some s" "tl_mode t = None" "tl_deferred t = []" "at_log C es m s"
  shows "\<exists>t' st'. exchange C now (Suc (length es)) res replies (rs_db r') t = Ok (t', st') \<and>
    tl_mode t' = None \<and> tl_deferred t' = [] \<and> st_send st' = [] \<and> \<not> list_ex is_alarm (st_events st') \<and>
    st_replies st' = map (\<lambda>q. (q, Ok \<lparr>lk_bundle = lr_bundle res, lk_device_bundles = lr_device_bundles res,
      lk_device_revocations = []\<rparr>)) replies \<and>
    map_option (bundle_leaf C) (lr_bundle res) = map_option (bundle_leaf C) (bundle_of u (rs_db r))"
proof -
  have "served_inv C U D (rs_db r)"
    unfolding assms(5) using assms(1-3) by (intro relay_served.guarded_reachable) simp_all
  from exchange_answers [OF this assms(4,9,10,7,8,11-13) assms(14) [unfolded assms(6)], of now replies]
  show ?thesis
    using on_lookup_parts(6,9) [OF assms(9,10)] unfolding assms(6)
    by (auto simp: served_plainly_def plain_lookup_def answer_of_def)
qed

theorem honest_lookup_answered_witness:
  "\<exists>t' st'. exchange demo_crypto 9 (Suc (length (log_list (rs_db demo_first)))) demo_served [7]
      (rs_db demo_first) (new_tail (Some log_state_default)) = Ok (t', st') \<and>
    st_replies st' = [(7, Ok \<lparr>lk_bundle = lr_bundle demo_served, lk_device_bundles = lr_device_bundles demo_served,
      lk_device_revocations = []\<rparr>)] \<and>
    map_option (bundle_leaf demo_crypto) (lr_bundle demo_served) = Some (bundle_leaf demo_crypto demo_own)"
proof -
  let ?U = "{demo_id 3}" and ?t = "new_tail (Some log_state_default)"
  have allowed: "list_all (relay_allowed ?U {}) [RPublish demo_verdicts (demo_id 3) demo_own None 1]"
    by (simp add: demo_own_id)
  have b: "bundle_of (demo_id 3) (rs_db demo_first) = Some demo_own"
    using demo_first_state by (simp add: bundle_of_def)
  have inj: "inj_on (subject demo_crypto) ?U" by simp
  have at: "at_log demo_crypto (log_list (rs_db demo_first)) 0 log_state_default"
    by (simp add: at_log_def log_state_default_def)
  have t: "tl_log ?t = Some log_state_default" "tl_mode ?t = None" "tl_deferred ?t = []"
    by (simp_all add: new_tail_def)
  show ?thesis
    using honest_lookup_answered [OF demo_crypto_laws(9) inj allowed _ demo_first_def refl
        demo_devices_stand no_rows_no_revocations _ demo_lookup t at, of 9 "[7]"] demo_first_state b
    by (auto simp: db_quiet_def)
qed

text \<open>
  C39. A lifted device revocation keeps the device unreachable. Once a device's revocation has
  been taken and logged, then in any later state in which the relay holds no revocation of the
  device (after \<open>unrevoke_device\<close>, also when the device has published again), a client that has
  the relay's log refuses every lookup of the device, and drops its bundle from the answer for
  any account.
\<close>

theorem unrevoked_device_refused:
  assumes "sha256_length C" "r0 = run (relay_step C K po) fresh_relay xs" "d = dr_device rv"
    and "fst (apply_device_revocation C K vd me rv now r0) = Ok ()" "\<not> is_device_revoked d (rs_db r0)"
    and "r = run (relay_step C K po) fresh_relay (xs @ RRevokeDevice vd me rv now # ys)"
    and "\<not> is_revoked d (rs_db r)" "\<not> is_device_revoked d (rs_db r)"
    and "db_quiet env" "on_lookup env C K vd' al prekeys devices u r = (Ok res, r')"
    and "at_log C (log_list (rs_db r)) (length (log_list (rs_db r))) s"
    and "replies = st_replies (resolve C s (answer_of res qs) no_effects)"
  shows "(u = d \<longrightarrow> (\<exists>why. replies = map (\<lambda>q. (q, Err why)) qs)) \<and>
    (\<forall>q lk. (q, Ok lk) \<in> set replies \<longrightarrow> d \<notin> kb_user_id ` set (lk_device_bundles lk))"
proof -
  let ?r1 = "relay_step C K po r0 (RRevokeDevice vd me rv now)"
  have r: "r = run (relay_step C K po) ?r1 ys" by (simp add: assms(2,6) run_append)
  have inv: "log_inv C (rs_db r0)" "log_inv C (rs_db ?r1)" "rows_keyed r"
    unfolding assms(2,6) using assms(1) relay_log_grows.inv_step relay_log_grows.inv_reachable relay_rows.inv_reachable
    by blast+
  have "latest_leaf Revocation (subject C d) (log_list (rs_db ?r1)) \<noteq> None"
    using taken_revocation_logged [OF assms(1) inv(1) assms(4)] assms(3,5)
    by (simp add: is_device_revoked_def device_revocation_of_def)
  moreover obtain es where "log_list (rs_db r) = log_list (rs_db ?r1) @ es"
    using relay_log_grows.rel_run [OF assms(1) inv(2)] unfolding r log_grows_def by blast
  ultimately have "latest_leaf Revocation (subject C d) (log_list (rs_db r)) \<noteq> None"
    by (auto simp: latest_leaf_None)
  then have "log_leaf C s lt_revocation d \<noteq> None"
    using assms(11) by (simp add: log_leaf_def latest_in_def at_log_def latest_of_leaves)
  note out = served_without_statement [OF this refl, of "answer_of res qs"]
  have "dr_device x \<noteq> d" if "x \<in> set (an_device_revocations (answer_of res qs))" for x
    using that device_revocations_rows [OF inv(3), of x u] on_lookup_parts(5) [OF assms(9,10)] assms(8)
    by (auto simp: answer_of_def is_device_revoked_def)
  moreover have "lr_revocation res = None" if "u = d"
    using on_lookup_parts(4) [OF assms(9,10)] that assms(7)
    by (auto simp: lifecycle_def is_revoked_def revocation_of_def)
  ultimately show ?thesis
    unfolding assms(12) using out on_lookup_parts(1) [OF assms(9,10)] by (auto simp: answer_of_def)
qed

theorem unrevoked_device_refused_witness:
  "let r = run (relay_step demo_crypto demo_codecs demo_policy) fresh_relay demo_lifted;
       res = got (fst (on_lookup alone demo_crypto demo_codecs demo_verdicts True False True (demo_id 2) r)) in
   \<exists>why. st_replies (resolve demo_crypto (caught_up demo_crypto (log_list (rs_db r))) (answer_of res [7]) no_effects) =
     [(7, Err why)]"
proof -
  let ?r = "run (relay_step demo_crypto demo_codecs demo_policy) fresh_relay demo_lifted"
  obtain res r' where l: "on_lookup alone demo_crypto demo_codecs demo_verdicts True False True (demo_id 2) ?r = (Ok res, r')"
    using on_lookup_allowed by blast
  have d: "demo_id 2 = dr_device demo_cancellation" by simp
  have "\<not> is_device_revoked (demo_id 2) (rs_db demo_published)"
    using demo_published_state by (simp add: is_device_revoked_def)
  with unrevoked_device_refused [OF demo_crypto_laws(9) demo_published_def d _ _ demo_lifted_def [THEN arg_cong] _ _ _ l
      caught_up_at_log refl, of "[7]"] demo_cancelled demo_lifted_state [OF refl] l
  show ?thesis by (auto simp: got_def db_quiet_def)
qed

end
